(* ===== verification/Prelude.thy ===== *)
theory Prelude
  imports Main "HOL-Library.Word"
begin

section \<open>Shared vocabulary of the development\<close>

text \<open>
  What every component uses: the machine integer types of \<^verbatim>\<open>include/types.h\<close>, the result
  codes of \<^verbatim>\<open>libc/include/mangrove_errors.h\<close>, pointers as optional addresses, the generic
  notion of a reachable state with the locale that turns a one-step invariant into an invariant of
  all reachable states, and the list and word lemmas the component proofs share.
\<close>

unbundle bit_operations_syntax

type_synonym u8 = "8 word"
type_synonym u16 = "16 word"
type_synonym u32 = "32 word"
type_synonym u64 = "64 word"

text \<open>
  An address of a kernel allocation is a natural number and a C pointer is an optional address:
  \<open>None\<close> is the null pointer.
\<close>

type_synonym addr = nat
type_synonym ptr = "addr option"

named_theorems kernel_defs \<open>definitions of operations unfolded by the component proofs\<close>
named_theorems kernel_simps \<open>characteristic equations of the operations\<close>

subsection \<open>Result codes\<close>

datatype mg_status =
    MG_OK | MG_ERR_NOT_FOUND | MG_ERR_INVALID_HANDLE | MG_ERR_BAD_ARGUMENT
  | MG_ERR_NOT_DIRECTORY | MG_ERR_NO_MEMORY | MG_ERR_UNSUPPORTED | MG_ERR_ACCESS_DENIED
  | MG_ERR_ALREADY_EXISTS | MG_ERR_BUFFER_TOO_SMALL | MG_ERR_END_OF_FILE | MG_ERR_IO
  | MG_ERR_NOT_CHILD | MG_ERR_BUSY | MG_ERR_INVALID_EXEC | MG_ERR_NOT_EMPTY
  | MG_ERR_NETWORK_UNAVAILABLE | MG_ERR_TIMEOUT | MG_ERR_CONNECTION_RESET
  | MG_ERR_CONNECTION_CLOSED | MG_ERR_WOULD_BLOCK | MG_ERR_ADDRESS_IN_USE | MG_ERR_AUTH_FAILED
  | MG_ERR_ENTROPY_UNAVAILABLE | MG_ERR_PRIVILEGE_REQUIRED | MG_ERR_CANCELLED
  | MG_ERR_SERVICE_UNAVAILABLE | MG_ERR_QUEUE_FULL | MG_ERR_PROTOCOL | MG_ERR_TIME_UNAVAILABLE
  | MG_ERR_DEVICE_GONE | MG_ERR_RETRY

fun mg_code :: "mg_status \<Rightarrow> int" where
  "mg_code MG_OK = 0"
| "mg_code MG_ERR_NOT_FOUND = -2"
| "mg_code MG_ERR_INVALID_HANDLE = -3"
| "mg_code MG_ERR_BAD_ARGUMENT = -4"
| "mg_code MG_ERR_NOT_DIRECTORY = -5"
| "mg_code MG_ERR_NO_MEMORY = -6"
| "mg_code MG_ERR_UNSUPPORTED = -7"
| "mg_code MG_ERR_ACCESS_DENIED = -8"
| "mg_code MG_ERR_ALREADY_EXISTS = -9"
| "mg_code MG_ERR_BUFFER_TOO_SMALL = -10"
| "mg_code MG_ERR_END_OF_FILE = -11"
| "mg_code MG_ERR_IO = -12"
| "mg_code MG_ERR_NOT_CHILD = -13"
| "mg_code MG_ERR_BUSY = -14"
| "mg_code MG_ERR_INVALID_EXEC = -15"
| "mg_code MG_ERR_NOT_EMPTY = -16"
| "mg_code MG_ERR_NETWORK_UNAVAILABLE = -17"
| "mg_code MG_ERR_TIMEOUT = -18"
| "mg_code MG_ERR_CONNECTION_RESET = -19"
| "mg_code MG_ERR_CONNECTION_CLOSED = -20"
| "mg_code MG_ERR_WOULD_BLOCK = -21"
| "mg_code MG_ERR_ADDRESS_IN_USE = -22"
| "mg_code MG_ERR_AUTH_FAILED = -23"
| "mg_code MG_ERR_ENTROPY_UNAVAILABLE = -24"
| "mg_code MG_ERR_PRIVILEGE_REQUIRED = -25"
| "mg_code MG_ERR_CANCELLED = -26"
| "mg_code MG_ERR_SERVICE_UNAVAILABLE = -27"
| "mg_code MG_ERR_QUEUE_FULL = -28"
| "mg_code MG_ERR_PROTOCOL = -29"
| "mg_code MG_ERR_TIME_UNAVAILABLE = -30"
| "mg_code MG_ERR_DEVICE_GONE = -31"
| "mg_code MG_ERR_RETRY = -32"

subsection \<open>Reachable states\<close>

inductive reach :: "('s \<Rightarrow> bool) \<Rightarrow> ('s \<Rightarrow> 's \<Rightarrow> bool) \<Rightarrow> 's \<Rightarrow> bool"
  for start :: "'s \<Rightarrow> bool" and step :: "'s \<Rightarrow> 's \<Rightarrow> bool" where
  reach_start: "start s \<Longrightarrow> reach start step s"
| reach_step: "reach start step s \<Longrightarrow> step s t \<Longrightarrow> reach start step t"

text \<open>
  The interface of a transition system with an inductive invariant: the start states have it and
  every step keeps it. The client's lemma is that every reachable state has it.
\<close>

locale inductive_invariant =
  fixes start :: "'s \<Rightarrow> bool" and step :: "'s \<Rightarrow> 's \<Rightarrow> bool" and inv :: "'s \<Rightarrow> bool"
  assumes start_inv: "start s \<Longrightarrow> inv s"
    and step_inv: "inv s \<Longrightarrow> step s t \<Longrightarrow> inv t"
begin

lemma reach_inv: "reach start step s \<Longrightarrow> inv s"
  by (induction rule: reach.induct) (auto intro: start_inv step_inv)

lemma reach_steps_inv: "inv s \<Longrightarrow> step\<^sup>*\<^sup>* s t \<Longrightarrow> inv t"
  by (rotate_tac, induction rule: rtranclp_induct) (auto intro: step_inv)

end

subsection \<open>Lists\<close>

text \<open>The number of elements with a property, and how a single update changes it.\<close>

definition count_if :: "('a \<Rightarrow> bool) \<Rightarrow> 'a list \<Rightarrow> nat" where
  "count_if P xs = length (filter P xs)"

lemma count_if_simps [simp]:
  "count_if P [] = 0"
  "count_if P (x # xs) = (if P x then Suc (count_if P xs) else count_if P xs)"
  by (simp_all add: count_if_def)

lemma count_if_update:
  assumes "i < length xs"
  shows "count_if P (xs[i := y]) + (if P (xs ! i) then 1 else 0)
    = count_if P xs + (if P y then 1 else 0)"
  using assms
proof (induction xs arbitrary: i)
  case (Cons x xs)
  then show ?case by (cases i) auto
qed simp

lemma count_if_pos: "i < length xs \<Longrightarrow> P (xs ! i) \<Longrightarrow> 0 < count_if P xs"
  by (simp add: count_if_def filter_empty_conv) (metis nth_mem)

lemma count_if_zero: "count_if P xs = 0 \<longleftrightarrow> (\<forall>x\<in>set xs. \<not> P x)"
  by (auto simp: count_if_def filter_empty_conv)

lemma count_if_le: "count_if P xs \<le> length xs"
  by (simp add: count_if_def)

lemma count_if_complement: "count_if P xs + count_if (\<lambda>x. \<not> P x) xs = length xs"
  by (induction xs) auto

text \<open>The first index with a property, the loop \<open>for (i = 0; i < n; i++) if (P (a[i])) ...\<close>.\<close>

fun first_index :: "('a \<Rightarrow> bool) \<Rightarrow> 'a list \<Rightarrow> nat option" where
  "first_index P [] = None"
| "first_index P (x # xs) = (if P x then Some 0 else map_option Suc (first_index P xs))"

lemma first_index_Some:
  "first_index P xs = Some i \<longleftrightarrow> i < length xs \<and> P (xs ! i) \<and> (\<forall>j<i. \<not> P (xs ! j))"
proof (induction xs arbitrary: i)
  case (Cons x xs)
  show ?case
  proof (cases i)
    case 0
    then show ?thesis by auto
  next
    case (Suc k)
    then show ?thesis using Cons.IH [of k] by (auto simp: less_Suc_eq_0_disj)
  qed
qed simp

lemma first_index_None: "first_index P xs = None \<longleftrightarrow> (\<forall>x\<in>set xs. \<not> P x)"
  by (induction xs) auto

lemma first_index_SomeD:
  assumes "first_index P xs = Some i"
  shows "i < length xs" "P (xs ! i)"
  using assms by (auto simp: first_index_Some)

subsection \<open>Words\<close>

lemma word_and_mask_unat: "unat (w AND mask n) = unat w mod 2 ^ n"
  by (simp only: take_bit_eq_mask [symmetric] unsigned_take_bit_eq) (simp only: take_bit_eq_mod)

lemma unat_less_pow2: "unat (w :: 'a::len word) < 2 ^ LENGTH('a)"
  by (rule unsigned_less)

end
