(* ===== verification/Objects.thy ===== *)
theory Objects
  imports Prelude
begin

section \<open>Kernel objects and reference counts\<close>

text \<open>
  \<^verbatim>\<open>kernel/include/object.h\<close> and the lifetime half of \<^verbatim>\<open>kernel/src/object.c\<close>:
  the object header, its initialisation, and the two counter operations. The object memory is a
  partial map from addresses to headers. The compare-and-exchange loops of the source retry until
  their exchange succeeds, so each call is one atomic transition of the counter it finds; that
  transition is what is modelled. Running the destructor frees the object (every destructor of the
  kernel ends in \<^verbatim>\<open>kfree\<close>), so the address leaves the map, and the operation reports which
  destructor it ran for the component that owns the object to act on.
\<close>

datatype kernel_object_type =
    OBJECT_TYPE_INVALID | OBJECT_TYPE_PROCESS | OBJECT_TYPE_THREAD | OBJECT_TYPE_FILE
  | OBJECT_TYPE_DIRECTORY | OBJECT_TYPE_CONSOLE | OBJECT_TYPE_NETWORK_ICMP
  | OBJECT_TYPE_NETWORK_DATAGRAM | OBJECT_TYPE_NETWORK_STREAM | OBJECT_TYPE_IPC_ENDPOINT
  | OBJECT_TYPE_IPC_REQUEST

definition OBJECT_RIGHT_READ :: u32 where "OBJECT_RIGHT_READ = 1"
definition OBJECT_RIGHT_WRITE :: u32 where "OBJECT_RIGHT_WRITE = 2"

text \<open>The destructors installed by the kernel's object constructors.\<close>

datatype destroy_fn =
    file_destroy | directory_destroy | process_object_destroy | endpoint_destroy
  | request_context_destroy | other_destroy

text \<open>The read and write operations an object may carry.\<close>

datatype object_io_fn = console_io | file_io | other_io

record kernel_object =
  obj_type :: kernel_object_type
  ref_count :: u32
  destroy :: "destroy_fn option"
  obj_read :: "object_io_fn option"
  obj_write :: "object_io_fn option"

type_synonym objects = "addr \<Rightarrow> kernel_object option"

definition object_init :: "kernel_object_type \<Rightarrow> destroy_fn option \<Rightarrow> kernel_object" where
  "object_init t d = \<lparr>obj_type = t, ref_count = 1, destroy = d, obj_read = None, obj_write = None\<rparr>"

definition object_reference :: "objects \<Rightarrow> ptr \<Rightarrow> objects option" where
  "object_reference h p = (case p of None \<Rightarrow> None
     | Some a \<Rightarrow> (case h a of None \<Rightarrow> None
       | Some ob \<Rightarrow> let count = ref_count ob in
           if count \<noteq> 0 \<and> count \<noteq> NOT 0
           then Some (h(a \<mapsto> ob\<lparr>ref_count := count + 1\<rparr>)) else None))"

definition object_release :: "objects \<Rightarrow> ptr \<Rightarrow> objects \<times> (addr \<times> destroy_fn option) option" where
  "object_release h p = (case p of None \<Rightarrow> (h, None)
     | Some a \<Rightarrow> (case h a of None \<Rightarrow> (h, None)
       | Some ob \<Rightarrow> let count = ref_count ob in
           if count = 0 then (h, None)
           else if count = 1 then (h(a := None), Some (a, destroy ob))
           else (h(a \<mapsto> ob\<lparr>ref_count := count - 1\<rparr>), None)))"

subsection \<open>The counter operations as natural-number arithmetic\<close>

text \<open>References counted at an address: zero when no object lives there.\<close>

definition refs :: "objects \<Rightarrow> addr \<Rightarrow> nat" where
  "refs h a = (case h a of None \<Rightarrow> 0 | Some ob \<Rightarrow> unat (ref_count ob))"

lemma refs_upd: "refs (h(a := x)) b =
    (if b = a then (case x of None \<Rightarrow> 0 | Some ob \<Rightarrow> unat (ref_count ob)) else refs h b)"
  by (simp add: refs_def)

lemma unat_inc: "w \<noteq> NOT 0 \<Longrightarrow> unat (w + 1 :: u32) = unat w + 1"
proof -
  assume "w \<noteq> NOT 0"
  then have "w + 1 \<noteq> 0"
    by (simp add: not_eq_complement add_eq_0_iff2)
  then show ?thesis by (simp add: unatSuc add.commute)
qed

lemma unat_dec: "w \<noteq> 0 \<Longrightarrow> unat (w - 1 :: u32) = unat w - 1"
  by (simp add: unat_minus_one)

lemma object_reference_refs:
  assumes "object_reference h p = Some h'"
  shows "\<exists>a. p = Some a \<and> 0 < refs h a \<and> refs h' = (refs h)(a := refs h a + 1)"
proof -
  from assms obtain a ob where a: "p = Some a" "h a = Some ob"
    and c: "ref_count ob \<noteq> 0" "ref_count ob \<noteq> NOT 0"
    and h': "h' = h(a \<mapsto> ob\<lparr>ref_count := ref_count ob + 1\<rparr>)"
    by (auto simp: object_reference_def Let_def split: option.splits if_splits)
  then have "refs h' = (refs h)(a := refs h a + 1)"
    by (auto simp: fun_eq_iff refs_upd refs_def unat_inc)
  moreover have "0 < refs h a" using a c by (simp add: refs_def unat_gt_0)
  ultimately show ?thesis using a by blast
qed

lemma object_release_refs:
  "object_release h (Some a) = (h', d) \<Longrightarrow> refs h' = (refs h)(a := refs h a - 1)"
  by (rule ext)
    (auto simp: object_release_def Let_def refs_def unat_dec split: option.splits if_splits)

lemma object_release_destroys:
  "object_release h (Some a) = (h', Some (b, f)) \<Longrightarrow> b = a \<and> refs h a = 1 \<and> h' = h(a := None)"
  by (auto simp: object_release_def Let_def refs_def split: option.splits if_splits)

lemma object_release_keeps:
  "object_release h (Some a) = (h', None) \<Longrightarrow> refs h a \<noteq> 1 \<and> dom h' = dom h"
  by (auto simp: object_release_def Let_def refs_def word_unat_eq_iff split: option.splits if_splits)

lemma object_reference_dom: "object_reference h p = Some h' \<Longrightarrow> dom h' = dom h"
  by (auto simp: object_reference_def Let_def split: option.splits if_splits)

lemma object_reference_obj:
  "object_reference h p = Some h' \<Longrightarrow>
    map_option obj_type (h' b) = map_option obj_type (h b)"
  by (auto simp: object_reference_def Let_def split: option.splits if_splits)

lemma object_reference_null [simp]: "object_reference h None = None"
  by (simp add: object_reference_def)

lemma object_release_null [simp]: "object_release h None = (h, None)"
  by (simp add: object_release_def)

text \<open>Taking and dropping a reference leaves the object as it was.\<close>

lemma object_reference_release:
  assumes "object_reference h (Some a) = Some h'"
  shows "object_release h' (Some a) = (h, None)"
proof -
  from assms obtain ob where ob: "h a = Some ob" "ref_count ob \<noteq> 0" "ref_count ob \<noteq> NOT 0"
    "h' = h(a \<mapsto> ob\<lparr>ref_count := ref_count ob + 1\<rparr>)"
    by (auto simp: object_reference_def Let_def split: option.splits if_splits)
  have "ref_count ob + 1 \<noteq> 0"
    using unat_inc [OF ob(3)] by (metis add_is_0 unat_0 zero_neq_one)
  moreover have "ref_count ob + 1 \<noteq> 1" using ob(2) by simp
  ultimately show ?thesis
    using ob by (auto simp: object_release_def Let_def fun_eq_iff)
qed

end
