(* ===== verification/Identity.thy ===== *)
theory Identity
  imports Prelude
begin

section \<open>Identities, credentials and privileges\<close>

text \<open>
  The policy half of \<^verbatim>\<open>kernel/src/identity.c\<close>: what a valid account and a valid credential are,
  how the effective credential of a process is resolved against the live account registry, and
  which privileges a credential holds. C strings are \<^typ>\<open>string\<close> values without the terminating
  NUL. The registry is published by switching between two slots; a lookup reads the active one.
\<close>

subsection \<open>Data\<close>

definition MG_UID_SYSTEM :: u32 where "MG_UID_SYSTEM = 0"
definition MG_IDENTITY_ROLE_REGULAR :: u32 where "MG_IDENTITY_ROLE_REGULAR = 0"
definition MG_IDENTITY_ROLE_ADMIN :: u32 where "MG_IDENTITY_ROLE_ADMIN = 1"
definition MG_IDENTITY_ROLE_SYSTEM :: u32 where "MG_IDENTITY_ROLE_SYSTEM = 2"

definition IDENTITY_USERNAME_CAPACITY :: nat where "IDENTITY_USERNAME_CAPACITY = 32"
definition IDENTITY_HOME_CAPACITY :: nat where "IDENTITY_HOME_CAPACITY = 256"
definition IDENTITY_ACCOUNT_FLAG_INITIAL :: u32 where "IDENTITY_ACCOUNT_FLAG_INITIAL = 1"

lemmas identity_constants =
  MG_UID_SYSTEM_def MG_IDENTITY_ROLE_REGULAR_def MG_IDENTITY_ROLE_ADMIN_def
  MG_IDENTITY_ROLE_SYSTEM_def IDENTITY_USERNAME_CAPACITY_def IDENTITY_HOME_CAPACITY_def
  IDENTITY_ACCOUNT_FLAG_INITIAL_def

text \<open>The privilege enumeration, with the numbers its order gives it.\<close>

datatype identity_privilege =
    IDENTITY_PRIVILEGE_MANAGE_USERS
  | IDENTITY_PRIVILEGE_MANAGE_NETWORK
  | IDENTITY_PRIVILEGE_MANAGE_SESSIONS
  | IDENTITY_PRIVILEGE_MANAGE_CONFIGURATION
  | IDENTITY_PRIVILEGE_MANAGE_SERVICES
  | IDENTITY_PRIVILEGE_MANAGE_DEVICES
  | IDENTITY_PRIVILEGE_MANAGE_STORAGE
  | IDENTITY_PRIVILEGE_MANAGE_USER_DATA

fun identity_privilege_number :: "identity_privilege \<Rightarrow> nat" where
  "identity_privilege_number IDENTITY_PRIVILEGE_MANAGE_USERS = 1"
| "identity_privilege_number IDENTITY_PRIVILEGE_MANAGE_NETWORK = 2"
| "identity_privilege_number IDENTITY_PRIVILEGE_MANAGE_SESSIONS = 3"
| "identity_privilege_number IDENTITY_PRIVILEGE_MANAGE_CONFIGURATION = 4"
| "identity_privilege_number IDENTITY_PRIVILEGE_MANAGE_SERVICES = 5"
| "identity_privilege_number IDENTITY_PRIVILEGE_MANAGE_DEVICES = 6"
| "identity_privilege_number IDENTITY_PRIVILEGE_MANAGE_STORAGE = 7"
| "identity_privilege_number IDENTITY_PRIVILEGE_MANAGE_USER_DATA = 8"

definition IDENTITY_PRIVILEGE_MASK :: "identity_privilege \<Rightarrow> u32" where
  "IDENTITY_PRIVILEGE_MASK p = push_bit (identity_privilege_number p - 1) 1"

definition IDENTITY_SERVICE_PRIVILEGES_KNOWN :: u32 where
  "IDENTITY_SERVICE_PRIVILEGES_KNOWN =
     IDENTITY_PRIVILEGE_MASK IDENTITY_PRIVILEGE_MANAGE_SESSIONS OR
     IDENTITY_PRIVILEGE_MASK IDENTITY_PRIVILEGE_MANAGE_SERVICES OR
     IDENTITY_PRIVILEGE_MASK IDENTITY_PRIVILEGE_MANAGE_NETWORK OR
     IDENTITY_PRIVILEGE_MASK IDENTITY_PRIVILEGE_MANAGE_CONFIGURATION OR
     IDENTITY_PRIVILEGE_MASK IDENTITY_PRIVILEGE_MANAGE_DEVICES OR
     IDENTITY_PRIVILEGE_MASK IDENTITY_PRIVILEGE_MANAGE_STORAGE"

record process_credentials =
  cred_uid :: u32
  cred_role :: u32
  cred_service_privileges :: u32

record user_identity =
  user_uid :: u32
  user_username :: string
  user_role :: u32
  user_home :: string
  user_flags :: u32

record identity_registry =
  reg_users :: "user_identity list"
  reg_next_uid :: u32

record identity_state =
  registry_slots :: "identity_registry \<times> identity_registry"
  active_registry_slot :: bool
  registry_loaded :: bool

definition active_registry :: "identity_state \<Rightarrow> identity_registry" where
  "active_registry s = (if active_registry_slot s then snd (registry_slots s)
     else fst (registry_slots s))"

definition system_identity :: user_identity where
  "system_identity = \<lparr>user_uid = MG_UID_SYSTEM, user_username = ''system'',
     user_role = MG_IDENTITY_ROLE_SYSTEM, user_home = ''/'', user_flags = 0\<rparr>"

definition identity_system_credentials :: process_credentials where
  "identity_system_credentials = \<lparr>cred_uid = user_uid system_identity,
     cred_role = user_role system_identity, cred_service_privileges = 0\<rparr>"

subsection \<open>Account names and home directories\<close>

definition between :: "char \<Rightarrow> char \<Rightarrow> char \<Rightarrow> bool" where
  "between lo hi c \<longleftrightarrow> (of_char lo :: nat) \<le> of_char c \<and> of_char c \<le> (of_char hi :: nat)"

definition identity_string_valid :: "string \<Rightarrow> nat \<Rightarrow> bool \<Rightarrow> bool" where
  "identity_string_valid v capacity require_absolute \<longleftrightarrow>
     capacity \<noteq> 0 \<and> \<not> (require_absolute \<and> (v = [] \<or> hd v \<noteq> CHR ''/'')) \<and>
     length v \<noteq> 0 \<and> length v < capacity"

definition username_char :: "char \<Rightarrow> bool" where
  "username_char c \<longleftrightarrow> between CHR ''a'' CHR ''z'' c \<or> between CHR ''0'' CHR ''9'' c \<or>
     c = CHR ''_'' \<or> c = CHR ''-''"

definition username_valid :: "string \<Rightarrow> bool" where
  "username_valid u \<longleftrightarrow> identity_string_valid u IDENTITY_USERNAME_CAPACITY False \<and>
     between CHR ''a'' CHR ''z'' (hd u) \<and> list_all username_char u"

definition home_char :: "char \<Rightarrow> bool" where
  "home_char c \<longleftrightarrow> between CHR ''a'' CHR ''z'' c \<or> between CHR ''A'' CHR ''Z'' c \<or>
     between CHR ''0'' CHR ''9'' c \<or> c = CHR ''_'' \<or> c = CHR ''-'' \<or> c = CHR ''.''"

text \<open>The component loop of \<^verbatim>\<open>home_path_valid\<close>, on the path behind the leading slash.\<close>

function home_components_valid :: "string \<Rightarrow> bool" where
  "home_components_valid s =
     (if s = [] then True
      else let comp = takeWhile (\<lambda>c. c \<noteq> CHR ''/'') s; rest = dropWhile (\<lambda>c. c \<noteq> CHR ''/'') s in
        list_all home_char comp \<and> comp \<noteq> [] \<and> comp \<noteq> ''.'' \<and> comp \<noteq> ''..'' \<and>
        (if rest = [] then True
         else tl rest \<noteq> [] \<and> hd (tl rest) \<noteq> CHR ''/'' \<and> home_components_valid (tl rest)))"
  by pat_completeness auto
termination
proof (relation "measure length")
  fix s :: string and comp rest
  assume "s \<noteq> []" "rest = dropWhile (\<lambda>c. c \<noteq> CHR ''/'') s" "rest \<noteq> []"
  then have "length (tl rest) < length rest" by simp
  also have "\<dots> \<le> length s"
    using \<open>rest = _\<close> by (simp add: length_dropWhile_le)
  finally show "(tl rest, s) \<in> measure length" by simp
qed simp

declare home_components_valid.simps [simp del]

definition home_path_valid :: "string \<Rightarrow> bool" where
  "home_path_valid h \<longleftrightarrow> identity_string_valid h IDENTITY_HOME_CAPACITY True \<and>
     h \<noteq> ''/'' \<and> hd (tl h) \<noteq> CHR ''/'' \<and> home_components_valid (tl h)"

definition account_home_matches :: "user_identity \<Rightarrow> bool" where
  "account_home_matches u \<longleftrightarrow> username_valid (user_username u) \<and>
     \<not> (length (user_username u) + 6 \<ge> IDENTITY_HOME_CAPACITY) \<and>
     user_home u = ''/home/'' @ user_username u"

definition identity_user_valid :: "user_identity \<Rightarrow> bool" where
  "identity_user_valid u \<longleftrightarrow>
     \<not> (user_uid u = MG_UID_SYSTEM \<or>
        (user_role u \<noteq> MG_IDENTITY_ROLE_REGULAR \<and> user_role u \<noteq> MG_IDENTITY_ROLE_ADMIN) \<or>
        user_flags u AND NOT IDENTITY_ACCOUNT_FLAG_INITIAL \<noteq> 0 \<or>
        \<not> username_valid (user_username u) \<or> \<not> home_path_valid (user_home u) \<or>
        \<not> account_home_matches u)"

subsection \<open>Registry lookups\<close>

definition identity_registry_lookup_uid :: "identity_state \<Rightarrow> u32 \<Rightarrow> user_identity option" where
  "identity_registry_lookup_uid s uid =
     (if \<not> registry_loaded s then None
      else if uid = MG_UID_SYSTEM then Some system_identity
      else find (\<lambda>u. user_uid u = uid) (reg_users (active_registry s)))"

definition identity_registry_lookup_username :: "identity_state \<Rightarrow> string \<Rightarrow> user_identity option" where
  "identity_registry_lookup_username s name =
     (if \<not> registry_loaded s then None
      else find (\<lambda>u. user_username u = name) (reg_users (active_registry s)))"

subsection \<open>Credentials\<close>

definition identity_credentials_valid :: "process_credentials \<Rightarrow> bool" where
  "identity_credentials_valid c =
     (if cred_service_privileges c AND NOT IDENTITY_SERVICE_PRIVILEGES_KNOWN \<noteq> 0 then False
      else if cred_uid c = MG_UID_SYSTEM then cred_role c = MG_IDENTITY_ROLE_SYSTEM
      else (cred_role c = MG_IDENTITY_ROLE_REGULAR \<or> cred_role c = MG_IDENTITY_ROLE_ADMIN) \<and>
        cred_service_privileges c = 0)"

definition identity_credentials_is_system :: "process_credentials \<Rightarrow> bool" where
  "identity_credentials_is_system c \<longleftrightarrow> cred_uid c = MG_UID_SYSTEM"

definition identity_credentials_is_admin :: "process_credentials \<Rightarrow> bool" where
  "identity_credentials_is_admin c \<longleftrightarrow> identity_credentials_valid c \<and>
     \<not> identity_credentials_is_system c \<and> cred_role c = MG_IDENTITY_ROLE_ADMIN"

definition identity_credentials_effective ::
    "identity_state \<Rightarrow> process_credentials \<Rightarrow> process_credentials option" where
  "identity_credentials_effective s c =
     (if \<not> identity_credentials_valid c then None
      else if identity_credentials_is_system c
      then Some (identity_system_credentials\<lparr>cred_service_privileges := cred_service_privileges c\<rparr>)
      else (case identity_registry_lookup_uid s (cred_uid c) of None \<Rightarrow> None
        | Some u \<Rightarrow> Some \<lparr>cred_uid = user_uid u, cred_role = user_role u,
            cred_service_privileges = 0\<rparr>))"

definition identity_credentials_has_privilege ::
    "identity_state \<Rightarrow> process_credentials \<Rightarrow> identity_privilege \<Rightarrow> bool" where
  "identity_credentials_has_privilege s c p =
     (if \<not> identity_credentials_valid c then False
      else if cred_service_privileges c AND IDENTITY_PRIVILEGE_MASK p \<noteq> 0 then True
      else if p = IDENTITY_PRIVILEGE_MANAGE_SESSIONS \<or> identity_credentials_is_system c then False
      else (case identity_registry_lookup_uid s (cred_uid c) of None \<Rightarrow> False
        | Some u \<Rightarrow> user_role u = MG_IDENTITY_ROLE_ADMIN))"

definition identity_credentials_from_user :: "user_identity \<Rightarrow> process_credentials option" where
  "identity_credentials_from_user u =
     (if \<not> identity_user_valid u then None
      else let c = \<lparr>cred_uid = user_uid u, cred_role = user_role u, cred_service_privileges = 0\<rparr>
        in if identity_credentials_valid c then Some c else None)"

subsection \<open>What a credential can and cannot do\<close>

lemma lookup_uid_SomeD:
  "identity_registry_lookup_uid s uid = Some u \<Longrightarrow> uid \<noteq> MG_UID_SYSTEM \<Longrightarrow>
    user_uid u = uid \<and> u \<in> set (reg_users (active_registry s))"
  by (auto simp: identity_registry_lookup_uid_def find_Some_iff split: if_splits)

lemma lookup_username_SomeD:
  "identity_registry_lookup_username s n = Some u \<Longrightarrow>
    user_username u = n \<and> u \<in> set (reg_users (active_registry s))"
  by (auto simp: identity_registry_lookup_username_def find_Some_iff split: if_splits)

lemma human_has_no_service_bits:
  "identity_credentials_valid c \<Longrightarrow> \<not> identity_credentials_is_system c \<Longrightarrow>
    cred_service_privileges c = 0"
  by (auto simp: identity_credentials_valid_def identity_credentials_is_system_def split: if_splits)

text \<open>The privilege decision, by kind of credential.\<close>

lemma privilege_of_system:
  "identity_credentials_is_system c \<Longrightarrow>
    identity_credentials_has_privilege s c p \<longleftrightarrow>
      identity_credentials_valid c \<and> cred_service_privileges c AND IDENTITY_PRIVILEGE_MASK p \<noteq> 0"
  by (auto simp: identity_credentials_has_privilege_def)

lemma privilege_of_human:
  "\<not> identity_credentials_is_system c \<Longrightarrow>
    identity_credentials_has_privilege s c p \<longleftrightarrow>
      identity_credentials_valid c \<and> p \<noteq> IDENTITY_PRIVILEGE_MANAGE_SESSIONS \<and>
      (\<exists>u. identity_registry_lookup_uid s (cred_uid c) = Some u \<and>
        user_role u = MG_IDENTITY_ROLE_ADMIN)"
  using human_has_no_service_bits [of c]
  by (auto simp: identity_credentials_has_privilege_def split: option.splits)

lemma effective_valid:
  assumes "identity_credentials_effective s c = Some e"
    and "\<forall>u\<in>set (reg_users (active_registry s)). identity_user_valid u"
  shows "identity_credentials_valid e" "cred_uid e = cred_uid c"
proof -
  have "identity_credentials_valid e \<and> cred_uid e = cred_uid c"
  proof (cases "identity_credentials_is_system c")
    case True
    with assms(1) show ?thesis
      by (auto simp: identity_credentials_effective_def identity_credentials_valid_def
          identity_credentials_is_system_def identity_system_credentials_def system_identity_def
          split: if_splits)
  next
    case False
    with assms(1) obtain u where u: "identity_registry_lookup_uid s (cred_uid c) = Some u"
      and e: "e = \<lparr>cred_uid = user_uid u, cred_role = user_role u, cred_service_privileges = 0\<rparr>"
      by (auto simp: identity_credentials_effective_def split: if_splits option.splits)
    from lookup_uid_SomeD [OF u] False
    have "user_uid u = cred_uid c" "u \<in> set (reg_users (active_registry s))"
      by (auto simp: identity_credentials_is_system_def)
    with assms(2) e False show ?thesis
      by (auto simp: identity_credentials_valid_def identity_user_valid_def
          identity_credentials_is_system_def)
  qed
  then show "identity_credentials_valid e" "cred_uid e = cred_uid c" by auto
qed

lemma from_user_Some:
  "identity_user_valid u \<Longrightarrow> identity_credentials_from_user u =
    Some \<lparr>cred_uid = user_uid u, cred_role = user_role u, cred_service_privileges = 0\<rparr>"
  by (auto simp: identity_credentials_from_user_def identity_credentials_valid_def
      identity_user_valid_def Let_def)

subsection \<open>Properties\<close>

text \<open>C15. The privilege decision: a valid system credential holds exactly the service privileges
  stamped into it, and a valid human credential holds every privilege except session management
  exactly when the account registry currently lists its user as an administrator. No other
  credential holds anything.\<close>

theorem privilege_decision:
  "identity_credentials_has_privilege s c p \<longleftrightarrow>
     identity_credentials_valid c \<and>
     (if identity_credentials_is_system c
      then cred_service_privileges c AND IDENTITY_PRIVILEGE_MASK p \<noteq> 0
      else p \<noteq> IDENTITY_PRIVILEGE_MANAGE_SESSIONS \<and>
        (\<exists>u. identity_registry_lookup_uid s (cred_uid c) = Some u \<and>
          user_role u = MG_IDENTITY_ROLE_ADMIN))"
  using privilege_of_system [of c s p] privilege_of_human [of c s p] by auto

text \<open>C16. Resolving a credential against a registry of valid accounts keeps the user and the authority:
  the effective credential is valid, names the same user, and holds exactly the privileges the
  original holds at that moment.\<close>

theorem effective_credentials_sound:
  assumes "identity_credentials_effective s c = Some e"
    and "\<forall>u\<in>set (reg_users (active_registry s)). identity_user_valid u"
  shows "identity_credentials_valid e \<and> cred_uid e = cred_uid c \<and>
    identity_credentials_has_privilege s e = identity_credentials_has_privilege s c"
proof -
  note ev = effective_valid [OF assms]
  have valid: "identity_credentials_valid c"
    using assms(1) by (auto simp: identity_credentials_effective_def split: if_splits)
  have same: "identity_credentials_is_system e = identity_credentials_is_system c"
    using ev(2) by (simp add: identity_credentials_is_system_def)
  have "cred_service_privileges e = cred_service_privileges c"
    if "identity_credentials_is_system c"
    using assms(1) that valid by (auto simp: identity_credentials_effective_def)
  then have "identity_credentials_has_privilege s e p = identity_credentials_has_privilege s c p" for p
    using ev valid same privilege_of_system [of c s p] privilege_of_system [of e s p]
      privilege_of_human [of c s p] privilege_of_human [of e s p]
    by (cases "identity_credentials_is_system c") auto
  then show ?thesis using ev by blast
qed

definition demo_admin :: user_identity where
  "demo_admin = \<lparr>user_uid = 1000, user_username = ''ada'', user_role = MG_IDENTITY_ROLE_ADMIN,
     user_home = ''/home/ada'', user_flags = 1\<rparr>"

definition demo_identity :: identity_state where
  "demo_identity = \<lparr>registry_slots = (\<lparr>reg_users = [demo_admin], reg_next_uid = 1001\<rparr>,
     \<lparr>reg_users = [], reg_next_uid = 1000\<rparr>), active_registry_slot = False, registry_loaded = True\<rparr>"

theorem effective_credentials_sound_witness:
  "identity_credentials_has_privilege demo_identity
     \<lparr>cred_uid = 1000, cred_role = MG_IDENTITY_ROLE_ADMIN, cred_service_privileges = 0\<rparr>
     IDENTITY_PRIVILEGE_MANAGE_USERS"
proof -
  let ?c = "\<lparr>cred_uid = 1000, cred_role = MG_IDENTITY_ROLE_REGULAR, cred_service_privileges = 0\<rparr>"
  let ?e = "\<lparr>cred_uid = 1000, cred_role = MG_IDENTITY_ROLE_ADMIN, cred_service_privileges = 0\<rparr>"
  have "identity_credentials_effective demo_identity ?c = Some ?e" by code_simp
  moreover have "\<forall>u\<in>set (reg_users (active_registry demo_identity)). identity_user_valid u" by code_simp
  ultimately have "identity_credentials_has_privilege demo_identity ?e
      = identity_credentials_has_privilege demo_identity ?c"
    using effective_credentials_sound by blast
  moreover have "identity_credentials_has_privilege demo_identity ?c IDENTITY_PRIVILEGE_MANAGE_USERS"
    by code_simp
  ultimately show ?thesis by simp
qed

end
