(* ===== verification/Handles.thy ===== *)
theory Handles
  imports Objects Identity
begin

section \<open>Processes and their handle tables\<close>

text \<open>
  The process record (the fields of \<^verbatim>\<open>struct process\<close> that handles, IPC, services and sessions
  use) and the handle-table operations of \<^verbatim>\<open>kernel/src/process.c\<close>. A handle packs the slot index
  plus one in its low 16 bits and the slot's 16-bit generation in its high bits. Every operation
  runs under the process's handle lock, so it is one transition.
\<close>

subsection \<open>Data\<close>

datatype process_state = PROCESS_STATE_ACTIVE | PROCESS_STATE_TERMINATED

record process_handle_slot =
  slot_object :: ptr
  slot_rights :: u32
  slot_generation :: u16
  slot_active :: bool

record process =
  pid :: u64
  proc_state :: process_state
  handle_table :: "process_handle_slot list"
  proc_name :: string
  credentials :: process_credentials
  credentials_initialized :: bool
  session_id :: u64
  system_service :: bool
  service_id :: u32
  ipc_outstanding :: "nat option"

definition PROCESS_HANDLE_SLOTS :: nat where "PROCESS_HANDLE_SLOTS = 16"

definition empty_slot :: process_handle_slot where
  "empty_slot = \<lparr>slot_object = None, slot_rights = 0, slot_generation = 0, slot_active = False\<rparr>"

definition process_get_credentials ::
    "identity_state \<Rightarrow> process \<Rightarrow> process_credentials option" where
  "process_get_credentials ids p =
     (if proc_state p \<noteq> PROCESS_STATE_ACTIVE \<or> \<not> credentials_initialized p \<or>
         \<not> identity_credentials_valid (credentials p) then None
      else identity_credentials_effective ids (credentials p))"

subsection \<open>Handle values\<close>

definition encode_handle :: "nat \<Rightarrow> u16 \<Rightarrow> u32" where
  "encode_handle i g = push_bit 16 (ucast g) OR (of_nat i + 1)"

definition decode_handle :: "u32 \<Rightarrow> (nat \<times> u16) option" where
  "decode_handle h = (let slot = h AND 0xFFFF; g = ucast (drop_bit 16 h) in
     if slot = 0 then None else if g = 0 then None else Some (unat (slot - 1), g))"

definition next_generation :: "u16 \<Rightarrow> u16" where
  "next_generation g = (if g + 1 = 0 then 1 else g + 1)"

subsection \<open>Operations\<close>

definition process_handle_install ::
    "objects \<Rightarrow> process \<Rightarrow> ptr \<Rightarrow> u32 \<Rightarrow> (objects \<times> process \<times> u32) option" where
  "process_handle_install h p ob r =
     (if proc_state p \<noteq> PROCESS_STATE_ACTIVE \<or> ob = None \<or>
         (case ob of None \<Rightarrow> True | Some a \<Rightarrow> refs h a = 0) \<or>
         r AND NOT (OBJECT_RIGHT_READ OR OBJECT_RIGHT_WRITE) \<noteq> 0 then None
      else (case first_index (\<lambda>s. \<not> slot_active s) (handle_table p) of None \<Rightarrow> None
        | Some i \<Rightarrow>
            let g = next_generation (slot_generation (handle_table p ! i)) in
            (case object_reference h ob of None \<Rightarrow> None
             | Some h' \<Rightarrow> Some (h', p\<lparr>handle_table := (handle_table p)[i :=
                  \<lparr>slot_object = ob, slot_rights = r, slot_generation = g, slot_active = True\<rparr>]\<rparr>,
                  encode_handle i g))))"

definition slot_matches ::
    "objects \<Rightarrow> process_handle_slot \<Rightarrow> u16 \<Rightarrow> kernel_object_type \<Rightarrow> u32 \<Rightarrow> bool" where
  "slot_matches h s g t r \<longleftrightarrow> slot_active s \<and> slot_generation s = g \<and>
     (case slot_object s of None \<Rightarrow> False
      | Some a \<Rightarrow> t = OBJECT_TYPE_INVALID \<or> map_option obj_type (h a) = Some t) \<and>
     slot_rights s AND r = r"

definition process_handle_lookup_any ::
    "objects \<Rightarrow> process \<Rightarrow> u32 \<Rightarrow> kernel_object_type \<Rightarrow> u32 \<Rightarrow> ptr" where
  "process_handle_lookup_any h p hnd t r = (case decode_handle hnd of None \<Rightarrow> None
     | Some (i, g) \<Rightarrow>
         if i \<ge> length (handle_table p) then None
         else if slot_matches h (handle_table p ! i) g t r
         then slot_object (handle_table p ! i) else None)"

definition process_handle_lookup_reference ::
    "objects \<Rightarrow> process \<Rightarrow> u32 \<Rightarrow> kernel_object_type \<Rightarrow> u32 \<Rightarrow> (objects \<times> addr) option" where
  "process_handle_lookup_reference h p hnd t r = (case decode_handle hnd of None \<Rightarrow> None
     | Some (i, g) \<Rightarrow>
         if i \<ge> length (handle_table p) then None
         else if slot_matches h (handle_table p ! i) g t r
         then (case (slot_object (handle_table p ! i), object_reference h (slot_object (handle_table p ! i)))
           of (Some a, Some h') \<Rightarrow> Some (h', a) | _ \<Rightarrow> None)
         else None)"

definition process_handle_lookup ::
    "objects \<Rightarrow> process \<Rightarrow> u32 \<Rightarrow> kernel_object_type \<Rightarrow> u32 \<Rightarrow> ptr" where
  "process_handle_lookup h p hnd t r =
     (if proc_state p \<noteq> PROCESS_STATE_ACTIVE then None else process_handle_lookup_any h p hnd t r)"

definition clear_slot :: "process_handle_slot \<Rightarrow> process_handle_slot" where
  "clear_slot s = s\<lparr>slot_object := None, slot_rights := 0, slot_active := False\<rparr>"

definition process_handle_close ::
    "objects \<Rightarrow> process \<Rightarrow> u32 \<Rightarrow> (objects \<times> process \<times> (addr \<times> destroy_fn option) option) option" where
  "process_handle_close h p hnd = (case decode_handle hnd of None \<Rightarrow> None
     | Some (i, g) \<Rightarrow>
         if i \<ge> length (handle_table p) then None
         else let s = handle_table p ! i in
           if \<not> slot_active s \<or> slot_generation s \<noteq> g then None
           else (case object_release h (slot_object s) of (h', d) \<Rightarrow>
             Some (h', p\<lparr>handle_table := (handle_table p)[i := clear_slot s]\<rparr>, d)))"

text \<open>The loop of \<^verbatim>\<open>process_handle_close_all\<close>; it reports the destructors in the order they ran.\<close>

fun close_slots :: "objects \<Rightarrow> process_handle_slot list \<Rightarrow>
    objects \<times> process_handle_slot list \<times> (addr \<times> destroy_fn option) list" where
  "close_slots h [] = (h, [], [])"
| "close_slots h (s # ss) =
     (if slot_active s then
        (case object_release h (slot_object s) of (h1, d) \<Rightarrow>
         case close_slots h1 ss of (h2, ss', ds) \<Rightarrow>
           (h2, clear_slot s # ss', (case d of None \<Rightarrow> ds | Some x \<Rightarrow> x # ds)))
      else (case close_slots h ss of (h2, ss', ds) \<Rightarrow> (h2, s # ss', ds)))"

definition process_handle_close_all ::
    "objects \<Rightarrow> process \<Rightarrow> objects \<times> process \<times> (addr \<times> destroy_fn option) list" where
  "process_handle_close_all h p = (case close_slots h (handle_table p) of (h', ss, ds) \<Rightarrow>
     (h', p\<lparr>handle_table := ss\<rparr>, ds))"

subsection \<open>Handle values: encoding and generations\<close>

lemma decode_encode_handle:
  assumes "i < 0xFFFF" "g \<noteq> 0"
  shows "decode_handle (encode_handle i g) = Some (i, g)"
proof -
  let ?h = "encode_handle i g"
  have i: "unat (of_nat i + 1 :: u32) = Suc i"
    using assms(1) by (simp add: unat_of_nat unat_word_ariths)
  have low: "?h AND 0xFFFF = of_nat i + 1"
  proof -
    have "(of_nat i + 1 :: u32) AND mask 16 = of_nat i + 1"
      by (rule word_unat_eq_iff [THEN iffD2]) (use assms(1) i in \<open>simp add: word_and_mask_unat del: of_nat_Suc\<close>)
    moreover have "push_bit 16 (ucast g :: u32) AND mask 16 = 0"
      by (rule bit_word_eqI) (auto simp: bit_simps)
    ultimately show ?thesis
      by (simp add: encode_handle_def bit.conj_disj_distrib2 mask_numeral)
  qed
  have high: "(ucast (drop_bit 16 ?h) :: u16) = g"
  proof (rule bit_word_eqI)
    fix n assume "n < LENGTH(16)"
    have "\<not> bit (of_nat i + 1 :: u32) (16 + n)"
    proof
      assume "bit (of_nat i + 1 :: u32) (16 + n)"
      then have "bit (unat (of_nat i + 1 :: u32)) (16 + n)" by (simp add: bit_unsigned_iff)
      then have "bit (Suc i) (16 + n)" by (simp only: i)
      then have "2 ^ (16 + n) \<le> Suc i" by (metis bit_nat_iff bit_iff_odd div_less even_zero not_le)
      moreover have "(2::nat) ^ 16 \<le> 2 ^ (16 + n)" by (rule power_increasing) auto
      ultimately show False using assms(1) by simp
    qed
    with \<open>n < LENGTH(16)\<close> show "bit (ucast (drop_bit 16 ?h) :: u16) n = bit g n"
      by (auto simp: encode_handle_def bit_simps)
  qed
  have "of_nat i + 1 \<noteq> (0 :: u32)" using i by (metis Suc_neq_Zero unat_0)
  then show ?thesis
    using i high assms by (simp add: decode_handle_def low Let_def unat_of_nat)
qed

lemma decode_handle_generation: "decode_handle h = Some (i, g) \<Longrightarrow> g \<noteq> 0"
  by (auto simp: decode_handle_def Let_def split: if_splits)

lemma next_generation_nonzero [simp]: "next_generation g \<noteq> 0"
  by (simp add: next_generation_def)

text \<open>
  Generations run through \<open>1, \<dots>, 65535\<close> cyclically, so a generation comes back only after 65535
  installations in its slot.
\<close>

lemma next_generation_unat:
  "unat (next_generation g) = (if unat g = 65535 then 1 else Suc (unat g))"
proof (cases "g + 1 = 0")
  case True
  then have "g = 65535" by (simp add: add_eq_0_iff2)
  then have "unat g = 65535" by simp
  then show ?thesis using True by (simp add: next_generation_def)
next
  case False
  then have "unat (g + 1) = Suc (unat g)" by (simp add: unatSuc add.commute)
  moreover have "unat (g + 1) < 65536" using unat_less_pow2 [of "g + 1"] by simp
  ultimately show ?thesis using False by (auto simp: next_generation_def)
qed

lemma next_generation_iter:
  assumes "g \<noteq> 0"
  shows "unat ((next_generation ^^ n) g) = (unat g - 1 + n) mod 65535 + 1"
proof (induction n)
  case 0
  have "unat g < 65536" using unat_less_pow2 [of g] by simp
  moreover have "0 < unat g" using assms by (simp add: unat_gt_0)
  ultimately show ?case by simp
next
  case (Suc n)
  let ?m = "unat g - 1 + n"
  have "unat ((next_generation ^^ Suc n) g)
      = (if ?m mod 65535 + 1 = 65535 then 1 else Suc (?m mod 65535 + 1))"
    using Suc by (simp add: next_generation_unat)
  also have "\<dots> = Suc ?m mod 65535 + 1"
    by (auto simp: mod_Suc)
  finally show ?case by simp
qed

lemma next_generation_fresh:
  assumes "g \<noteq> 0" "0 < n" "n < 65535"
  shows "(next_generation ^^ n) g \<noteq> g"
proof
  assume "(next_generation ^^ n) g = g"
  then have "(unat g - 1 + n) mod 65535 + 1 = unat g"
    using next_generation_iter [OF assms(1), of n] by metis
  moreover have "0 < unat g" "unat g < 65536"
    using assms(1) unat_less_pow2 [of g] by (auto simp: unat_gt_0)
  ultimately have "(unat g - 1 + n) mod 65535 = (unat g - 1) mod 65535" by simp
  then have "(65535::nat) dvd n" by (metis add_diff_cancel_left' mod_eq_dvd_iff_nat le_add1)
  then show False using assms(2,3) by (auto dest: dvd_imp_le)
qed

text \<open>A handle is determined by what it decodes to.\<close>

lemma decode_handle_inj:
  assumes "decode_handle x = Some q" "decode_handle y = Some q"
  shows "x = y"
proof -
  obtain i g where q: "q = (i, g)" by fastforce
  have sx: "x AND 0xFFFF \<noteq> 0" and sy: "y AND 0xFFFF \<noteq> 0"
    and gx: "(ucast (drop_bit 16 x) :: u16) = g" and gy: "(ucast (drop_bit 16 y) :: u16) = g"
    and ix: "unat ((x AND 0xFFFF) - 1) = i" and iy: "unat ((y AND 0xFFFF) - 1) = i"
    using assms q by (auto simp: decode_handle_def Let_def split: if_splits)
  have "(x AND 0xFFFF) - 1 = (y AND 0xFFFF) - 1" using ix iy by (simp add: word_unat_eq_iff)
  then have low: "x AND 0xFFFF = y AND 0xFFFF" by simp
  show ?thesis
  proof (rule bit_word_eqI)
    fix n assume n: "n < LENGTH(32)"
    show "bit x n = bit y n"
    proof (cases "n < 16")
      case True
      have "bit (x AND mask 16) n = bit (y AND mask 16) n" using low by (simp add: mask_numeral)
      then show ?thesis using True n by (simp add: bit_simps)
    next
      case False
      then obtain k where k: "n = 16 + k" using le_Suc_ex linorder_not_less by blast
      have "bit (ucast (drop_bit 16 x) :: u16) k = bit (ucast (drop_bit 16 y) :: u16) k"
        using gx gy by simp
      then show ?thesis using n k by (simp add: bit_simps)
    qed
  qed
qed

subsection \<open>Well-formed tables and the reference account\<close>

definition slot_wf :: "process_handle_slot \<Rightarrow> bool" where
  "slot_wf s \<longleftrightarrow> (slot_active s \<longrightarrow> slot_object s \<noteq> None \<and> slot_generation s \<noteq> 0)"

definition table_wf :: "process_handle_slot list \<Rightarrow> bool" where
  "table_wf ss \<longleftrightarrow> length ss = PROCESS_HANDLE_SLOTS \<and> list_all slot_wf ss"

text \<open>References the table holds on an object.\<close>

abbreviation refers :: "addr \<Rightarrow> process_handle_slot \<Rightarrow> bool" where
  "refers a s \<equiv> slot_active s \<and> slot_object s = Some a"

definition handle_refs :: "process_handle_slot list \<Rightarrow> addr \<Rightarrow> nat" where
  "handle_refs ss a = count_if (refers a) ss"

text \<open>
  The account: with \<open>ext a\<close> the references held on \<open>a\<close> from elsewhere (other processes' tables, the
  endpoint registry, a kernel path in flight), the counter of every object is the sum of the two and
  no live object has a zero counter.
\<close>

definition accounted :: "(addr \<Rightarrow> nat) \<Rightarrow> objects \<Rightarrow> process_handle_slot list \<Rightarrow> bool" where
  "accounted ext h ss \<longleftrightarrow>
     (\<forall>a. refs h a = handle_refs ss a + ext a) \<and> (\<forall>a\<in>dom h. 0 < refs h a)"

lemma accountedI:
  "(\<And>a. refs h a = handle_refs ss a + ext a) \<Longrightarrow> \<forall>a\<in>dom h. 0 < refs h a \<Longrightarrow> accounted ext h ss"
  unfolding accounted_def by blast

lemma accountedD:
  assumes "accounted ext h ss"
  shows "refs h a = handle_refs ss a + ext a" "\<forall>a\<in>dom h. 0 < refs h a"
  using assms unfolding accounted_def by blast+

lemma slot_wf_clear [simp]: "slot_wf (clear_slot s)"
  by (simp add: slot_wf_def clear_slot_def)

lemma table_wf_update:
  "table_wf ss \<Longrightarrow> slot_wf s \<Longrightarrow> table_wf (ss[i := s])"
  by (cases "i < length ss") (auto simp: table_wf_def list_all_length nth_list_update)

lemma handle_refs_update:
  assumes "i < length ss"
  shows "handle_refs (ss[i := s]) a + (if refers a (ss ! i) then 1 else 0)
    = handle_refs ss a + (if refers a s then 1 else 0)"
  unfolding handle_refs_def by (rule count_if_update [OF assms])

lemma reference_dom_pos:
  assumes "object_reference h p = Some h'" "\<forall>a\<in>dom h. 0 < refs h a"
  shows "\<forall>a\<in>dom h'. 0 < refs h' a"
  using assms object_reference_refs [OF assms(1)] object_reference_dom [OF assms(1)] by auto

lemma release_dom_pos:
  assumes "object_release h (Some a) = (h', d)" "\<forall>b\<in>dom h. 0 < refs h b"
  shows "\<forall>b\<in>dom h'. 0 < refs h' b"
proof (cases d)
  case None
  with assms(1) have "refs h a \<noteq> 1" "dom h' = dom h" using object_release_keeps [of h a h'] by auto
  then show ?thesis
    using assms(2) object_release_refs [OF assms(1)] by (metis One_nat_def Suc_lessI diff_is_0_eq
        fun_upd_apply linorder_not_less zero_less_diff)
next
  case (Some x)
  with assms object_release_refs [OF assms(1)] object_release_destroys [of h a h' "fst x" "snd x"]
  show ?thesis by (cases x) auto
qed

text \<open>Installing: which slot, which generation, which handle.\<close>

lemma process_handle_install_Some:
  assumes "process_handle_install h p ob r = Some (h', p', hnd)"
  obtains i a where "first_index (\<lambda>s. \<not> slot_active s) (handle_table p) = Some i"
    "ob = Some a" "proc_state p = PROCESS_STATE_ACTIVE" "object_reference h ob = Some h'"
    "p' = p\<lparr>handle_table := (handle_table p)[i := \<lparr>slot_object = ob, slot_rights = r,
       slot_generation = next_generation (slot_generation (handle_table p ! i)), slot_active = True\<rparr>]\<rparr>"
    "hnd = encode_handle i (next_generation (slot_generation (handle_table p ! i)))"
  using assms
  by (auto simp: process_handle_install_def Let_def split: if_splits option.splits)

lemma process_handle_close_Some:
  assumes "process_handle_close h p hnd = Some (h', p', d)"
  obtains i g where "decode_handle hnd = Some (i, g)" "i < length (handle_table p)"
    "slot_active (handle_table p ! i)" "slot_generation (handle_table p ! i) = g"
    "object_release h (slot_object (handle_table p ! i)) = (h', d)"
    "p' = p\<lparr>handle_table := (handle_table p)[i := clear_slot (handle_table p ! i)]\<rparr>"
  using assms
  by (auto simp: process_handle_close_def Let_def split: option.splits prod.splits if_splits)

lemma install_table_wf:
  assumes "process_handle_install h p ob r = Some (h', p', hnd)" "table_wf (handle_table p)"
  shows "table_wf (handle_table p')"
  using assms(1)
proof (rule process_handle_install_Some)
  fix i a
  assume "ob = Some a" "p' = p\<lparr>handle_table := (handle_table p)[i := \<lparr>slot_object = ob,
    slot_rights = r, slot_generation = next_generation (slot_generation (handle_table p ! i)),
    slot_active = True\<rparr>]\<rparr>"
  with assms(2) show ?thesis by (auto intro!: table_wf_update simp: slot_wf_def)
qed

lemma install_accounted:
  assumes "process_handle_install h p ob r = Some (h', p', hnd)"
    and "accounted ext h (handle_table p)"
  shows "accounted ext h' (handle_table p')"
  using assms(1)
proof (rule process_handle_install_Some)
  fix i a
  let ?s = "\<lparr>slot_object = ob, slot_rights = r,
    slot_generation = next_generation (slot_generation (handle_table p ! i)), slot_active = True\<rparr>"
  assume i: "first_index (\<lambda>s. \<not> slot_active s) (handle_table p) = Some i" and ob: "ob = Some a"
    and ref: "object_reference h ob = Some h'" and p': "p' = p\<lparr>handle_table := (handle_table p)[i := ?s]\<rparr>"
  from first_index_SomeD [OF i] have il: "i < length (handle_table p)"
    and free: "\<not> slot_active (handle_table p ! i)" by auto
  from object_reference_refs [OF ref] ob have "refs h' = (refs h)(a := refs h a + 1)" by auto
  moreover have "handle_refs (handle_table p') b = handle_refs (handle_table p) b + (if b = a then 1 else 0)" for b
    using handle_refs_update [OF il, of ?s b] free ob p' by auto
  ultimately show ?thesis
    by (intro accountedI reference_dom_pos [OF ref] accountedD(2) [OF assms(2)])
      (simp add: accountedD(1) [OF assms(2)])
qed

lemma close_table_wf:
  assumes "process_handle_close h p hnd = Some (h', p', d)" "table_wf (handle_table p)"
  shows "table_wf (handle_table p')"
  using assms(1) by (rule process_handle_close_Some) (auto intro!: table_wf_update assms(2))

lemma close_accounted:
  assumes "process_handle_close h p hnd = Some (h', p', d)"
    and "accounted ext h (handle_table p)" and "table_wf (handle_table p)"
  shows "accounted ext h' (handle_table p')"
  using assms(1)
proof (rule process_handle_close_Some)
  fix i g
  assume il: "i < length (handle_table p)" and act: "slot_active (handle_table p ! i)"
    and rel: "object_release h (slot_object (handle_table p ! i)) = (h', d)"
    and p': "p' = p\<lparr>handle_table := (handle_table p)[i := clear_slot (handle_table p ! i)]\<rparr>"
  from assms(3) il act obtain a where a: "slot_object (handle_table p ! i) = Some a"
    by (auto simp: table_wf_def list_all_length slot_wf_def)
  have rel': "object_release h (Some a) = (h', d)" using rel a by simp
  then have "refs h' = (refs h)(a := refs h a - 1)" by (rule object_release_refs)
  moreover have "handle_refs (handle_table p') b + (if b = a then 1 else 0) = handle_refs (handle_table p) b" for b
    using handle_refs_update [OF il, of "clear_slot (handle_table p ! i)" b] act a p'
    by (auto simp: clear_slot_def)
  then have "handle_refs (handle_table p) b = handle_refs (handle_table p') b + (if b = a then 1 else 0)" for b
    by (metis)
  ultimately show ?thesis
    by (intro accountedI release_dom_pos [OF rel'] accountedD(2) [OF assms(2)])
      (simp add: accountedD(1) [OF assms(2)])
qed

text \<open>Closing every handle of a process.\<close>

lemma close_slots_wf: "close_slots h ss = (h', ss', ds) \<Longrightarrow>
    length ss' = length ss \<and> list_all (\<lambda>s. \<not> slot_active s) ss' \<and>
    map slot_generation ss' = map slot_generation ss"
  by (induction h ss arbitrary: h' ss' ds rule: close_slots.induct)
    (auto simp: clear_slot_def split: prod.splits if_splits)

lemma handle_refs_skip: "\<not> slot_active s \<Longrightarrow> accounted ext h (s # ss) = accounted ext h ss"
  by (simp add: accounted_def handle_refs_def)

lemma close_slots_accounted:
  assumes "close_slots h ss = (h', ss', ds)" "list_all slot_wf ss" "accounted ext h ss"
  shows "accounted ext h' ss'"
  using assms
proof (induction h ss arbitrary: h' ss' ds ext rule: close_slots.induct)
  case (2 h s ss)
  show ?case
  proof (cases "slot_active s")
    case True
    with "2.prems"(2) obtain a where a: "slot_object s = Some a" by (auto simp: slot_wf_def)
    obtain h1 d where rel: "object_release h (Some a) = (h1, d)" by fastforce
    obtain h2 ss2 ds2 where rest: "close_slots h1 ss = (h2, ss2, ds2)" by (cases "close_slots h1 ss")
    have res: "h' = h2" "ss' = clear_slot s # ss2" using "2.prems"(1) True a rel rest by auto
    have "accounted ext h1 ss"
    proof (intro accountedI release_dom_pos [OF rel] accountedD(2) [OF "2.prems"(3)])
      fix b
      show "refs h1 b = handle_refs ss b + ext b"
        using accountedD(1) [OF "2.prems"(3), of b] True a
        by (auto simp: object_release_refs [OF rel] handle_refs_def)
    qed
    then have "accounted ext h2 ss2"
      by (intro "2.IH"(1) [OF True _ rest]) (use rel a "2.prems"(2) in auto)
    then show ?thesis
      by (simp add: res handle_refs_skip clear_slot_def)
  next
    case False
    obtain h2 ss2 ds2 where rest: "close_slots h ss = (h2, ss2, ds2)" by (cases "close_slots h ss")
    have res: "h' = h2" "ss' = s # ss2" using "2.prems"(1) False rest by auto
    have "accounted ext h ss"
      using "2.prems"(3) False by (simp add: handle_refs_skip)
    then have "accounted ext h2 ss2" using "2.IH"(2) [OF False rest] "2.prems"(2) by auto
    then show ?thesis using False by (simp add: res handle_refs_skip)
  qed
qed auto

lemma close_all_accounted:
  assumes "process_handle_close_all h p = (h', p', ds)" "table_wf (handle_table p)"
    "accounted ext h (handle_table p)"
  shows "accounted ext h' (handle_table p')" "table_wf (handle_table p')"
    "handle_refs (handle_table p') a = 0"
proof -
  obtain ss where ss: "close_slots h (handle_table p) = (h', ss, ds)" "handle_table p' = ss"
    using assms(1) by (auto simp: process_handle_close_all_def split: prod.splits)
  show "accounted ext h' (handle_table p')"
    using close_slots_accounted [OF ss(1)] assms(2,3) ss(2) by (auto simp: table_wf_def)
  show "table_wf (handle_table p')"
    using close_slots_wf [OF ss(1)] assms(2) ss(2)
    by (auto simp: table_wf_def slot_wf_def list_all_iff)
  show "handle_refs (handle_table p') a = 0"
    using close_slots_wf [OF ss(1)] ss(2)
    by (auto simp: handle_refs_def count_if_zero list_all_iff)
qed

subsection \<open>The handle interface\<close>

text \<open>
  What the kernel's subsystems rely on when they hand objects to a process: the operations and the
  laws, with the client's consequences proved once.
\<close>

locale handle_service =
  fixes install :: "'h \<Rightarrow> 'p \<Rightarrow> ptr \<Rightarrow> u32 \<Rightarrow> ('h \<times> 'p \<times> u32) option"
    and lookup :: "'h \<Rightarrow> 'p \<Rightarrow> u32 \<Rightarrow> kernel_object_type \<Rightarrow> u32 \<Rightarrow> ptr"
    and close :: "'h \<Rightarrow> 'p \<Rightarrow> u32 \<Rightarrow> ('h \<times> 'p \<times> 'd) option"
    and wf :: "'h \<Rightarrow> 'p \<Rightarrow> bool"
  assumes wf_install: "wf h p \<Longrightarrow> install h p ob r = Some (h', p', x) \<Longrightarrow> wf h' p'"
    and wf_close: "wf h p \<Longrightarrow> close h p x = Some (h', p', d) \<Longrightarrow> wf h' p'"
    and install_resolves: "wf h p \<Longrightarrow> install h p ob r = Some (h', p', x) \<Longrightarrow>
      lookup h' p' x OBJECT_TYPE_INVALID r = ob"
    and install_fresh: "wf h p \<Longrightarrow> install h p ob r = Some (h', p', x) \<Longrightarrow> lookup h p x t q = None"
    and install_keeps: "wf h p \<Longrightarrow> install h p ob r = Some (h', p', x) \<Longrightarrow>
      lookup h p y t q = Some a \<Longrightarrow> lookup h' p' y t q = Some a"
    and close_revokes: "wf h p \<Longrightarrow> close h p x = Some (h', p', d) \<Longrightarrow> lookup h' p' x t q = None"
    and close_keeps: "wf h p \<Longrightarrow> close h p x = Some (h', p', d) \<Longrightarrow> y \<noteq> x \<Longrightarrow>
      lookup h p y t q = Some a \<Longrightarrow> lookup h' p' y t q = Some a"
begin

lemma installed_handles_distinct:
  assumes "wf h p" "install h p ob r = Some (h1, p1, x)" "install h1 p1 ob' r' = Some (h2, p2, y)"
    and "ob = Some a"
  shows "x \<noteq> y" "lookup h2 p2 x OBJECT_TYPE_INVALID r = ob"
    "lookup h2 p2 y OBJECT_TYPE_INVALID r' = ob'"
proof -
  have w1: "wf h1 p1" by (rule wf_install [OF assms(1,2)])
  have x: "lookup h1 p1 x OBJECT_TYPE_INVALID r = Some a"
    using install_resolves [OF assms(1,2)] assms(4) by simp
  show "x \<noteq> y" using install_fresh [OF w1 assms(3), of OBJECT_TYPE_INVALID r] x by auto
  show "lookup h2 p2 x OBJECT_TYPE_INVALID r = ob"
    using install_keeps [OF w1 assms(3) x] assms(4) by simp
  show "lookup h2 p2 y OBJECT_TYPE_INVALID r' = ob'" by (rule install_resolves [OF w1 assms(3)])
qed

lemma install_then_close:
  assumes "wf h p" "install h p ob r = Some (h1, p1, x)" "close h1 p1 x = Some (h2, p2, d)"
    and "lookup h p y t q = Some a"
  shows "lookup h2 p2 x t q = None" "lookup h2 p2 y t q = Some a"
proof -
  have w1: "wf h1 p1" by (rule wf_install [OF assms(1,2)])
  show "lookup h2 p2 x t q = None" by (rule close_revokes [OF w1 assms(3)])
  have "y \<noteq> x" using install_fresh [OF assms(1,2), of t q] assms(4) by auto
  then show "lookup h2 p2 y t q = Some a"
    by (rule close_keeps [OF w1 assms(3) _ install_keeps [OF assms(1,2,4)]])
qed

end

text \<open>The invariant of the process's own table: well formed, and accounted for some outside world.\<close>

definition handles_wf :: "objects \<Rightarrow> process \<Rightarrow> bool" where
  "handles_wf h p \<longleftrightarrow> table_wf (handle_table p) \<and> (\<exists>ext. accounted ext h (handle_table p))"

lemma lookup_SomeD:
  assumes "process_handle_lookup h p x t q = Some a"
  obtains i g where "decode_handle x = Some (i, g)" "i < length (handle_table p)"
    "proc_state p = PROCESS_STATE_ACTIVE" "slot_matches h (handle_table p ! i) g t q"
    "slot_object (handle_table p ! i) = Some a"
  using assms
  by (auto simp: process_handle_lookup_def process_handle_lookup_any_def split: if_splits option.splits)

lemma lookup_SomeI:
  "decode_handle x = Some (i, g) \<Longrightarrow> i < length (handle_table p) \<Longrightarrow>
    proc_state p = PROCESS_STATE_ACTIVE \<Longrightarrow> slot_matches h (handle_table p ! i) g t q \<Longrightarrow>
    process_handle_lookup h p x t q = slot_object (handle_table p ! i)"
  by (auto simp: process_handle_lookup_def process_handle_lookup_any_def)

lemma install_decode:
  assumes "process_handle_install h p ob r = Some (h', p', x)" "table_wf (handle_table p)"
  obtains i where "first_index (\<lambda>s. \<not> slot_active s) (handle_table p) = Some i"
    "i < length (handle_table p)" "\<not> slot_active (handle_table p ! i)"
    "decode_handle x = Some (i, next_generation (slot_generation (handle_table p ! i)))"
    "object_reference h ob = Some h'" "proc_state p = PROCESS_STATE_ACTIVE"
    "p' = p\<lparr>handle_table := (handle_table p)[i := \<lparr>slot_object = ob, slot_rights = r,
       slot_generation = next_generation (slot_generation (handle_table p ! i)), slot_active = True\<rparr>]\<rparr>"
  using assms(1)
proof (rule process_handle_install_Some)
  fix i a
  assume i: "first_index (\<lambda>s. \<not> slot_active s) (handle_table p) = Some i"
    and x: "x = encode_handle i (next_generation (slot_generation (handle_table p ! i)))"
    and more: "object_reference h ob = Some h'" "proc_state p = PROCESS_STATE_ACTIVE"
      "p' = p\<lparr>handle_table := (handle_table p)[i := \<lparr>slot_object = ob, slot_rights = r,
       slot_generation = next_generation (slot_generation (handle_table p ! i)), slot_active = True\<rparr>]\<rparr>"
  note il = first_index_SomeD [OF i]
  have "i < 0xFFFF" using il(1) assms(2) by (simp add: table_wf_def PROCESS_HANDLE_SLOTS_def)
  then show ?thesis using that [OF i il] decode_encode_handle [of i] x more by simp
qed

lemma slot_matches_type:
  "slot_matches h s g t q \<Longrightarrow> map_option obj_type \<circ> h' = map_option obj_type \<circ> h \<Longrightarrow>
    slot_matches h' s g t q"
  by (auto simp: slot_matches_def fun_eq_iff split: option.splits)

lemma reference_types:
  "object_reference h ob = Some h' \<Longrightarrow> map_option obj_type \<circ> h' = map_option obj_type \<circ> h"
  using object_reference_obj by (auto simp: fun_eq_iff)

lemma handles_install_resolves:
  assumes "process_handle_install h p ob r = Some (h', p', x)" "table_wf (handle_table p)"
    and "t = OBJECT_TYPE_INVALID \<or> (\<exists>a. ob = Some a \<and> map_option obj_type (h a) = Some t)"
    and "r AND q = q"
  shows "process_handle_lookup h' p' x t q = ob"
  using assms(1,2)
proof (rule install_decode)
  fix i
  let ?s = "\<lparr>slot_object = ob, slot_rights = r,
    slot_generation = next_generation (slot_generation (handle_table p ! i)), slot_active = True\<rparr>"
  assume il: "i < length (handle_table p)"
    and dec: "decode_handle x = Some (i, next_generation (slot_generation (handle_table p ! i)))"
    and ref: "object_reference h ob = Some h'" and act: "proc_state p = PROCESS_STATE_ACTIVE"
    and p': "p' = p\<lparr>handle_table := (handle_table p)[i := ?s]\<rparr>"
  have "slot_matches h' ?s (slot_generation ?s) t q"
    using assms(3,4) object_reference_refs [OF ref] object_reference_obj [OF ref]
    by (auto simp: slot_matches_def)
  then show ?thesis
    using lookup_SomeI [OF dec, of p' h' t q] il act p' by simp
qed

lemma handles_install_fresh:
  assumes "process_handle_install h p ob r = Some (h', p', x)" "table_wf (handle_table p)"
  shows "process_handle_lookup h p x t q = None"
  using assms
proof (rule install_decode)
  fix i
  assume "\<not> slot_active (handle_table p ! i)"
    "decode_handle x = Some (i, next_generation (slot_generation (handle_table p ! i)))"
  then show ?thesis
    by (auto simp: process_handle_lookup_def process_handle_lookup_any_def slot_matches_def)
qed

lemma handles_install_keeps:
  assumes "process_handle_install h p ob r = Some (h', p', x)" "table_wf (handle_table p)"
    and "process_handle_lookup h p y t q = Some a"
  shows "process_handle_lookup h' p' y t q = Some a"
  using assms(1,2)
proof (rule install_decode)
  fix i
  let ?s = "\<lparr>slot_object = ob, slot_rights = r,
    slot_generation = next_generation (slot_generation (handle_table p ! i)), slot_active = True\<rparr>"
  assume free: "\<not> slot_active (handle_table p ! i)" and ref: "object_reference h ob = Some h'"
    and p': "p' = p\<lparr>handle_table := (handle_table p)[i := ?s]\<rparr>"
  from assms(3) show ?thesis
  proof (rule lookup_SomeD)
    fix j g
    assume y: "decode_handle y = Some (j, g)" "j < length (handle_table p)"
      "proc_state p = PROCESS_STATE_ACTIVE" "slot_matches h (handle_table p ! j) g t q"
      "slot_object (handle_table p ! j) = Some a"
    then have "j \<noteq> i" using free by (auto simp: slot_matches_def)
    then have "handle_table p' ! j = handle_table p ! j" using p' by simp
    then show ?thesis
      using lookup_SomeI [OF y(1), of p' h' t q] y p' slot_matches_type [OF y(4) reference_types [OF ref]]
      by simp
  qed
qed

lemma handles_close_revokes:
  assumes "process_handle_close h p x = Some (h', p', d)"
  shows "process_handle_lookup h' p' x t q = None"
  using assms
  by (rule process_handle_close_Some)
    (auto simp: process_handle_lookup_def process_handle_lookup_any_def slot_matches_def clear_slot_def)

lemma handles_close_keeps:
  assumes "process_handle_close h p x = Some (h', p', d)" "y \<noteq> x" "handles_wf h p"
    and "process_handle_lookup h p y t q = Some a"
  shows "process_handle_lookup h' p' y t q = Some a"
  using assms(1)
proof (rule process_handle_close_Some)
  fix i g
  assume dx: "decode_handle x = Some (i, g)" and il: "i < length (handle_table p)"
    and act: "slot_active (handle_table p ! i)" and gi: "slot_generation (handle_table p ! i) = g"
    and rel: "object_release h (slot_object (handle_table p ! i)) = (h', d)"
    and p': "p' = p\<lparr>handle_table := (handle_table p)[i := clear_slot (handle_table p ! i)]\<rparr>"
  from assms(4) show ?thesis
  proof (rule lookup_SomeD)
    fix j g'
    assume y: "decode_handle y = Some (j, g')" "j < length (handle_table p)"
      "proc_state p = PROCESS_STATE_ACTIVE" "slot_matches h (handle_table p ! j) g' t q"
      "slot_object (handle_table p ! j) = Some a"
    have "j \<noteq> i" using assms(2) decode_handle_inj [OF dx] y(1,4) gi by (auto simp: slot_matches_def)
    then have same: "handle_table p' ! j = handle_table p ! j" using p' by simp
    from assms(3) obtain ext where acc: "accounted ext h (handle_table p)"
      and tw: "table_wf (handle_table p)" by (auto simp: handles_wf_def)
    have "slot_active (handle_table p ! j)" using y(4) by (simp add: slot_matches_def)
    then have "0 < handle_refs (handle_table p') a"
      unfolding handle_refs_def using same y(2,5) p'
      by (intro count_if_pos [of j]) auto
    then have "0 < refs h' a"
      using accountedD(1) [OF close_accounted [OF assms(1) acc tw], of a] by simp
    then have "h' a \<noteq> None" by (auto simp: refs_def split: option.splits)
    then have "map_option obj_type (h' a) = map_option obj_type (h a)"
      using rel by (auto simp: object_release_def Let_def split: option.splits if_splits)
    then have "slot_matches h' (handle_table p' ! j) g' t q"
      using y(4,5) same by (simp add: slot_matches_def)
    then show ?thesis using lookup_SomeI [OF y(1), of p' h' t q] y p' same by simp
  qed
qed

interpretation ht: handle_service process_handle_install process_handle_lookup process_handle_close handles_wf
proof unfold_locales
  show "handles_wf h p \<Longrightarrow> process_handle_install h p ob r = Some (h', p', x) \<Longrightarrow> handles_wf h' p'"
    for h p ob r h' p' x
    unfolding handles_wf_def using install_table_wf install_accounted by blast
  show "handles_wf h p \<Longrightarrow> process_handle_close h p x = Some (h', p', d) \<Longrightarrow> handles_wf h' p'"
    for h p x h' p' d
    unfolding handles_wf_def using close_table_wf close_accounted by blast
  show "handles_wf h p \<Longrightarrow> process_handle_install h p ob r = Some (h', p', x) \<Longrightarrow>
      process_handle_lookup h' p' x OBJECT_TYPE_INVALID r = ob" for h p ob r h' p' x
    by (rule handles_install_resolves) (auto simp: handles_wf_def)
  show "handles_wf h p \<Longrightarrow> process_handle_install h p ob r = Some (h', p', x) \<Longrightarrow>
      process_handle_lookup h p x t q = None" for h p ob r h' p' x t q
    by (rule handles_install_fresh) (auto simp: handles_wf_def)
  show "handles_wf h p \<Longrightarrow> process_handle_install h p ob r = Some (h', p', x) \<Longrightarrow>
      process_handle_lookup h p y t q = Some a \<Longrightarrow> process_handle_lookup h' p' y t q = Some a"
    for h p ob r h' p' x y t q a
    by (rule handles_install_keeps) (auto simp: handles_wf_def)
qed (auto intro: handles_close_revokes handles_close_keeps)

subsection \<open>Runs of handle operations and stale handles\<close>

datatype handle_op = Install ptr u32 | Close u32

fun handle_step :: "objects \<times> process \<Rightarrow> handle_op \<Rightarrow> objects \<times> process" where
  "handle_step (h, p) (Install ob r) = (case process_handle_install h p ob r of None \<Rightarrow> (h, p)
     | Some (h', p', _) \<Rightarrow> (h', p'))"
| "handle_step (h, p) (Close x) = (case process_handle_close h p x of None \<Rightarrow> (h, p)
     | Some (h', p', _) \<Rightarrow> (h', p'))"

fun handle_run :: "objects \<times> process \<Rightarrow> handle_op list \<Rightarrow> objects \<times> process" where
  "handle_run s [] = s"
| "handle_run s (op # ops) = handle_run (handle_step s op) ops"

abbreviation is_install :: "handle_op \<Rightarrow> bool" where
  "is_install op \<equiv> (case op of Install _ _ \<Rightarrow> True | Close _ \<Rightarrow> False)"

text \<open>
  A slot whose handle of generation \<open>g\<close> was revoked, after at most \<open>n\<close> installations: it is either
  still free, or at a generation between one and \<open>n\<close> steps past \<open>g\<close>.
\<close>

definition revoked :: "process \<Rightarrow> nat \<Rightarrow> u16 \<Rightarrow> nat \<Rightarrow> bool" where
  "revoked p i g n \<longleftrightarrow> i < length (handle_table p) \<and>
     (\<exists>k\<le>n. slot_generation (handle_table p ! i) = (next_generation ^^ k) g \<and>
       (k = 0 \<longrightarrow> \<not> slot_active (handle_table p ! i)))"

lemma revoked_mono: "revoked p i g n \<Longrightarrow> n \<le> m \<Longrightarrow> revoked p i g m"
  unfolding revoked_def by (meson le_trans)

lemma revoked_reinstall:
  assumes "revoked p i g n"
    and "slot_generation s = next_generation (slot_generation (handle_table p ! j))"
  shows "revoked (p\<lparr>handle_table := (handle_table p)[j := s]\<rparr>) i g (Suc n)"
proof (cases "j = i")
  case True
  from assms(1) obtain k where "k \<le> n" "i < length (handle_table p)"
    "slot_generation (handle_table p ! i) = (next_generation ^^ k) g" by (auto simp: revoked_def)
  then show ?thesis
    using True assms(2) by (auto simp: revoked_def intro!: exI [of _ "Suc k"])
next
  case False
  then have "revoked (p\<lparr>handle_table := (handle_table p)[j := s]\<rparr>) i g n"
    using assms(1) by (simp add: revoked_def)
  then show ?thesis by (rule revoked_mono) simp
qed

lemma revoked_step:
  assumes "revoked p i g n" "handle_step (h, p) op = (h', p')"
  shows "revoked p' i g (if is_install op then Suc n else n)"
proof (cases op)
  case (Install ob r)
  show ?thesis
  proof (cases "process_handle_install h p ob r")
    case None
    then have "p' = p" using assms(2) Install by simp
    then show ?thesis using assms(1) Install by (auto intro: revoked_mono)
  next
    case (Some z)
    then have inst: "process_handle_install h p ob r = Some (h', p', snd (snd z))"
      using assms(2) Install by (auto split: prod.splits)
    from inst show ?thesis
    proof (rule process_handle_install_Some)
      fix j a
      assume "p' = p\<lparr>handle_table := (handle_table p)[j := \<lparr>slot_object = ob, slot_rights = r,
        slot_generation = next_generation (slot_generation (handle_table p ! j)), slot_active = True\<rparr>]\<rparr>"
      with Install show ?thesis by (simp add: revoked_reinstall [OF assms(1)])
    qed
  qed
next
  case (Close x)
  show ?thesis
  proof (cases "process_handle_close h p x")
    case None
    then have "p' = p" using assms(2) Close by simp
    then show ?thesis using assms(1) Close by (simp add: revoked_def)
  next
    case (Some z)
    then have cl: "process_handle_close h p x = Some (h', p', snd (snd z))"
      using assms(2) Close by (auto split: prod.splits)
    from cl show ?thesis
    proof (rule process_handle_close_Some)
      fix j g'
      assume "p' = p\<lparr>handle_table := (handle_table p)[j := clear_slot (handle_table p ! j)]\<rparr>"
      with assms(1) Close show ?thesis
        by (cases "j = i") (auto simp: revoked_def clear_slot_def)
    qed
  qed
qed

lemma revoked_run:
  assumes "revoked p i g n" "handle_run (h, p) ops = (h', p')"
  shows "revoked p' i g (n + count_if is_install ops)"
  using assms
proof (induction ops arbitrary: h p n)
  case (Cons op ops)
  obtain h1 p1 where s: "handle_step (h, p) op = (h1, p1)" by fastforce
  with Cons.IH [OF revoked_step [OF Cons.prems(1) s]] Cons.prems(2)
  show ?case by (auto split: if_splits)
qed simp

lemma revoked_lookup:
  assumes "revoked p i g n" "decode_handle x = Some (i, g)" "n < 65535"
  shows "process_handle_lookup h p x t q = None"
proof -
  from assms(1) obtain k where k: "k \<le> n" "slot_generation (handle_table p ! i) = (next_generation ^^ k) g"
    "k = 0 \<longrightarrow> \<not> slot_active (handle_table p ! i)" by (auto simp: revoked_def)
  show ?thesis
  proof (cases "k = 0")
    case True
    then show ?thesis using k assms(2)
      by (simp add: process_handle_lookup_def process_handle_lookup_any_def slot_matches_def)
  next
    case False
    then have "(next_generation ^^ k) g \<noteq> g"
      using next_generation_fresh [OF decode_handle_generation [OF assms(2)], of k] k(1) assms(3) by simp
    then show ?thesis using k(2) assms(2)
      by (simp add: process_handle_lookup_def process_handle_lookup_any_def slot_matches_def)
  qed
qed

lemma close_revoked:
  assumes "process_handle_close h p x = Some (h', p', d)"
  obtains i g where "decode_handle x = Some (i, g)" "revoked p' i g 0"
  using assms
proof (rule process_handle_close_Some)
  fix i g
  assume "decode_handle x = Some (i, g)" "i < length (handle_table p)"
    "slot_generation (handle_table p ! i) = g"
    "p' = p\<lparr>handle_table := (handle_table p)[i := clear_slot (handle_table p ! i)]\<rparr>"
  then show ?thesis using that [of i g] by (simp add: revoked_def clear_slot_def)
qed

lemma handle_run_accounted:
  assumes "handle_run (h, p) ops = (h', p')" "table_wf (handle_table p)"
    and "accounted ext h (handle_table p)"
  shows "table_wf (handle_table p') \<and> accounted ext h' (handle_table p')"
  using assms
proof (induction ops arbitrary: h p)
  case (Cons op ops)
  obtain h1 p1 where s: "handle_step (h, p) op = (h1, p1)" by fastforce
  have "table_wf (handle_table p1) \<and> accounted ext h1 (handle_table p1)"
  proof (cases op)
    case (Install ob r)
    then show ?thesis
      using s Cons.prems(2,3) install_table_wf install_accounted by (auto split: option.splits)
  next
    case (Close x)
    then show ?thesis
      using s Cons.prems(2,3) close_table_wf close_accounted by (auto split: option.splits)
  qed
  with Cons.IH Cons.prems(1) s show ?case by simp
qed simp

lemma accounted_lookup_live:
  assumes "accounted ext h (handle_table p)" "process_handle_lookup h p x t q = Some a"
  shows "0 < refs h a"
  using assms(2)
proof (rule lookup_SomeD)
  fix i g
  assume "i < length (handle_table p)" "slot_matches h (handle_table p ! i) g t q"
    "slot_object (handle_table p ! i) = Some a"
  then have "0 < handle_refs (handle_table p) a"
    unfolding handle_refs_def by (intro count_if_pos [of i]) (auto simp: slot_matches_def)
  then show ?thesis using accountedD(1) [OF assms(1), of a] by simp
qed

subsection \<open>Properties\<close>

text \<open>A concrete process with one open file, for the instances below.\<close>

definition demo_objects :: objects where
  "demo_objects = [7 \<mapsto> object_init OBJECT_TYPE_FILE (Some file_destroy)]"

definition demo_process :: process where
  "demo_process = \<lparr>pid = 5, proc_state = PROCESS_STATE_ACTIVE,
     handle_table = replicate PROCESS_HANDLE_SLOTS empty_slot, proc_name = ''demo'',
     credentials = identity_system_credentials, credentials_initialized = True, session_id = 1,
     system_service = False, service_id = 0, ipc_outstanding = None\<rparr>"

definition demo_open :: "objects \<times> process" where
  "demo_open = handle_step (demo_objects, demo_process) (Install (Some 7) 1)"

lemma demo_table: "handle_table demo_process = replicate 16 empty_slot"
  by (simp add: demo_process_def PROCESS_HANDLE_SLOTS_def)

lemma demo_install:
  "process_handle_install demo_objects demo_process (Some 7) 1 =
     Some (fst demo_open, snd demo_open, 0x10001)"
proof -
  have "map_option (\<lambda>z. snd (snd z)) (process_handle_install demo_objects demo_process (Some 7) 1)
      = Some 0x10001"
    by code_simp
  then show ?thesis by (auto simp: demo_open_def)
qed

text \<open>C10. A closed handle stays dead: after a successful close of handle \<open>x\<close>, and any sequence of
  further installs and closes with fewer than 65535 installs, looking \<open>x\<close> up fails for every type
  and every rights mask, even when its slot has been reused.\<close>

theorem stale_handle_rejected:
  assumes "process_handle_close h p x = Some (h1, p1, d)"
    and "handle_run (h1, p1) ops = (h2, p2)" and "count_if is_install ops < 65535"
  shows "process_handle_lookup h2 p2 x t q = None"
proof -
  obtain i g where "decode_handle x = Some (i, g)" "revoked p1 i g 0"
    by (rule close_revoked [OF assms(1)])
  then show ?thesis
    using revoked_lookup revoked_run [OF _ assms(2)] assms(3) by fastforce
qed

theorem stale_handle_rejected_witness:
  "\<exists>h1 p1 d h2 p2. process_handle_close (fst demo_open) (snd demo_open) 0x10001 = Some (h1, p1, d) \<and>
     handle_run (h1, p1) [Install (Some 7) 3] = (h2, p2) \<and>
     process_handle_lookup h2 p2 0x10001 OBJECT_TYPE_FILE 1 = None \<and>
     process_handle_lookup h2 p2 0x20001 OBJECT_TYPE_FILE 1 = Some 7"
proof -
  have "\<not> Option.is_none (process_handle_close (fst demo_open) (snd demo_open) 0x10001)" by code_simp
  then obtain h1 p1 d where c: "process_handle_close (fst demo_open) (snd demo_open) 0x10001 = Some (h1, p1, d)"
    by (auto simp: Option.is_none_def)
  then have e: "(h1, p1) = handle_step demo_open (Close 0x10001)"
    using handle_step.simps(2) [of "fst demo_open" "snd demo_open" "0x10001"] by simp
  obtain h2 p2 where r: "handle_run (h1, p1) [Install (Some 7) 3] = (h2, p2)" by fastforce
  have "process_handle_lookup h2 p2 0x10001 OBJECT_TYPE_FILE 1 = None"
    using stale_handle_rejected [OF c r] by simp
  moreover have "process_handle_lookup (fst (handle_run (handle_step demo_open (Close 0x10001)) [Install (Some 7) 3]))
      (snd (handle_run (handle_step demo_open (Close 0x10001)) [Install (Some 7) 3])) 0x20001 OBJECT_TYPE_FILE 1 = Some 7"
    by code_simp
  then have "process_handle_lookup h2 p2 0x20001 OBJECT_TYPE_FILE 1 = Some 7"
    unfolding e [symmetric] r by simp
  ultimately show ?thesis using c r by blast
qed

text \<open>C11. The reference counts are exact: if every object's counter is the number of handles of the
  process that name it plus the references held elsewhere, the same holds after any sequence of
  installs and closes, the table stays well formed, and every handle that resolves names an object
  that has not been destroyed.\<close>

theorem handle_counts_exact:
  assumes "table_wf (handle_table p)" "accounted ext h (handle_table p)"
    and "handle_run (h, p) ops = (h', p')"
  shows "table_wf (handle_table p') \<and> accounted ext h' (handle_table p') \<and>
    (\<forall>x t q a. process_handle_lookup h' p' x t q = Some a \<longrightarrow> 0 < refs h' a)"
  using handle_run_accounted [OF assms(3,1,2)] accounted_lookup_live by blast

theorem handle_counts_exact_witness:
  "accounted ((\<lambda>_. 0)(7 := 1)) (fst (handle_run (demo_objects, demo_process) [Install (Some 7) 1, Close 0x10001]))
     (handle_table (snd (handle_run (demo_objects, demo_process) [Install (Some 7) 1, Close 0x10001])))"
proof -
  have wf: "table_wf (handle_table demo_process)" by code_simp
  have "accounted ((\<lambda>_. 0)(7 := 1)) demo_objects (handle_table demo_process)"
    by (rule accountedI)
      (auto simp: demo_table demo_objects_def handle_refs_def count_if_def empty_slot_def refs_def object_init_def)
  from handle_counts_exact [OF wf this, of "[Install (Some 7) 1, Close 0x10001]"]
  show ?thesis by simp
qed

text \<open>C12. A new handle conveys exactly the rights it was installed with: it resolves to its object
  when the requested type is the object's type (or any type) and the requested rights are a subset
  of the installed ones, and to nothing otherwise.\<close>

theorem handle_grants_exactly:
  assumes "table_wf (handle_table p)" "process_handle_install h p (Some a) r = Some (h', p', x)"
  shows "process_handle_lookup h' p' x t q =
    (if (t = OBJECT_TYPE_INVALID \<or> map_option obj_type (h a) = Some t) \<and> r AND q = q
     then Some a else None)"
  using assms(2,1)
proof (rule install_decode)
  fix i
  assume il: "i < length (handle_table p)"
    and dec: "decode_handle x = Some (i, next_generation (slot_generation (handle_table p ! i)))"
    and ref: "object_reference h (Some a) = Some h'"
    and p': "p' = p\<lparr>handle_table := (handle_table p)[i := \<lparr>slot_object = Some a, slot_rights = r,
       slot_generation = next_generation (slot_generation (handle_table p ! i)), slot_active = True\<rparr>]\<rparr>"
    and act: "proc_state p = PROCESS_STATE_ACTIVE"
  show ?thesis
    using il dec p' act object_reference_obj [OF ref, of a]
    by (auto simp: process_handle_lookup_def process_handle_lookup_any_def slot_matches_def)
qed

theorem handle_grants_exactly_witness:
  "process_handle_lookup (fst demo_open) (snd demo_open) 0x10001 OBJECT_TYPE_FILE 1 = Some 7 \<and>
   process_handle_lookup (fst demo_open) (snd demo_open) 0x10001 OBJECT_TYPE_FILE 2 = None"
proof -
  have "table_wf (handle_table demo_process)" by code_simp
  note g = handle_grants_exactly [OF this demo_install]
  show ?thesis
    unfolding g by (simp add: demo_objects_def object_init_def)
qed

text \<open>C13. Terminating a process releases all it holds: closing every handle leaves no active slot and
  every object counted only by its outside references, so exactly the objects nobody else refers
  to are destroyed.\<close>

theorem close_all_releases:
  assumes "table_wf (handle_table p)" "accounted ext h (handle_table p)"
    and "process_handle_close_all h p = (h', p', ds)"
  shows "list_all (\<lambda>s. \<not> slot_active s) (handle_table p') \<and> refs h' = ext \<and>
    dom h' = {a. 0 < ext a}"
proof -
  note ca = close_all_accounted [OF assms(3,1,2)]
  have "refs h' a = ext a" for a using accountedD(1) [OF ca(1)] ca(3) by simp
  moreover have "dom h' = {a. 0 < refs h' a}"
    using accountedD(2) [OF ca(1)] by (auto simp: refs_def split: option.splits)
  moreover have "list_all (\<lambda>s. \<not> slot_active s) (handle_table p')"
    using assms(3) close_slots_wf [of h "handle_table p"]
    by (auto simp: process_handle_close_all_def split: prod.splits)
  ultimately show ?thesis by auto
qed

theorem close_all_releases_witness:
  "dom (fst (process_handle_close_all (fst demo_open) (snd demo_open))) = {7}"
proof -
  have wf: "table_wf (handle_table (snd demo_open))" by code_simp
  have "accounted ((\<lambda>_. 0)(7 := 1)) (fst demo_open) (handle_table (snd demo_open))"
    by (rule install_accounted [OF demo_install])
      (rule accountedI, auto simp: demo_table demo_objects_def handle_refs_def count_if_def
        empty_slot_def refs_def object_init_def table_wf_def slot_wf_def PROCESS_HANDLE_SLOTS_def list_all_iff)
  from close_all_releases [OF wf this]
  show ?thesis by (cases "process_handle_close_all (fst demo_open) (snd demo_open)") simp
qed

text \<open>C14. Handle values and (slot, generation) pairs correspond one to one: decoding the encoding of a
  slot below 65535 and a non-zero generation gives them back, and two values that decode to the
  same pair are equal.\<close>

theorem handle_roundtrip:
  "decode_handle x = Some (i, g) \<longleftrightarrow> x = encode_handle i g \<and> i < 0xFFFF \<and> g \<noteq> 0"
proof
  assume d: "decode_handle x = Some (i, g)"
  have "i < 0xFFFF"
  proof -
    have u: "unat (x AND 0xFFFF) < 2 ^ 16"
      using word_and_mask_unat [of x 16] by (simp add: mask_numeral)
    have "x AND 0xFFFF \<noteq> 0" "i = unat ((x AND 0xFFFF) - 1)"
      using d by (auto simp: decode_handle_def Let_def split: if_splits)
    then show ?thesis using u unat_minus_one [of "x AND 0xFFFF"] by simp
  qed
  with d show "x = encode_handle i g \<and> i < 0xFFFF \<and> g \<noteq> 0"
    using decode_handle_inj [OF d decode_encode_handle] decode_handle_generation [OF d] by simp
qed (simp add: decode_encode_handle)

end
