(* ===== verification/Ipc_Queue.thy ===== *)
theory Ipc_Queue
  imports Prelude
begin

section \<open>The bounded delivery queue of an IPC endpoint\<close>

text \<open>
  The endpoint record of \<^verbatim>\<open>kernel/src/ipc.c\<close> with its ring of \<^verbatim>\<open>IPC_MAX_QUEUE_DEPTH\<close> deliveries,
  and the five operations on the ring. A request is named by its index in the kernel's request pool.
  The abstract queue is the list of queued deliveries in arrival order; every operation is shown to
  refine an operation on that list.
\<close>

subsection \<open>Data\<close>

definition IPC_MAX_QUEUE_DEPTH :: nat where "IPC_MAX_QUEUE_DEPTH = 8"

record mg_event =
  ev_version :: u16
  ev_type :: u16
  ev_class :: u32
  ev_flags :: u32
  ev_sequence :: u64
  ev_resource_id :: u64
  ev_name :: string

definition zero_event :: mg_event where
  "zero_event = \<lparr>ev_version = 0, ev_type = 0, ev_class = 0, ev_flags = 0, ev_sequence = 0,
     ev_resource_id = 0, ev_name = []\<rparr>"

record ipc_delivery =
  is_event :: bool
  dl_request :: "nat option"
  dl_event :: mg_event

definition zero_delivery :: ipc_delivery where
  "zero_delivery = \<lparr>is_event = False, dl_request = None, dl_event = zero_event\<rparr>"

record ipc_endpoint =
  ep_name :: string
  ep_owner :: addr
  ep_service_id :: u32
  ep_live :: bool
  ep_queue :: "ipc_delivery list"
  queue_head :: nat
  queue_tail :: nat
  queue_count :: nat
  event_classes :: u32
  event_overflow :: bool
  receiver_waiter :: "nat option"

subsection \<open>Operations\<close>

definition request_delivery :: "nat \<Rightarrow> ipc_delivery" where
  "request_delivery r = \<lparr>is_event = False, dl_request = Some r, dl_event = zero_event\<rparr>"

definition event_delivery :: "mg_event \<Rightarrow> ipc_delivery" where
  "event_delivery e = \<lparr>is_event = True, dl_request = None, dl_event = e\<rparr>"

text \<open>Writing a delivery at the tail, the part the two enqueue operations share.\<close>

definition endpoint_put :: "ipc_endpoint \<Rightarrow> ipc_delivery \<Rightarrow> ipc_endpoint" where
  "endpoint_put ep d = ep\<lparr>ep_queue := (ep_queue ep)[queue_tail ep := d],
     queue_tail := (queue_tail ep + 1) mod IPC_MAX_QUEUE_DEPTH, queue_count := queue_count ep + 1\<rparr>"

definition endpoint_enqueue_request :: "ipc_endpoint \<Rightarrow> nat \<Rightarrow> ipc_endpoint option" where
  "endpoint_enqueue_request ep r =
     (if queue_count ep \<ge> IPC_MAX_QUEUE_DEPTH then None
      else Some (endpoint_put ep (request_delivery r)))"

definition endpoint_enqueue_event :: "ipc_endpoint \<Rightarrow> mg_event \<Rightarrow> ipc_endpoint option" where
  "endpoint_enqueue_event ep e =
     (if queue_count ep \<ge> IPC_MAX_QUEUE_DEPTH then None
      else Some (endpoint_put ep (event_delivery e)))"

definition endpoint_dequeue :: "ipc_endpoint \<Rightarrow> (ipc_delivery \<times> ipc_endpoint) option" where
  "endpoint_dequeue ep =
     (if queue_count ep = 0 then None
      else Some (ep_queue ep ! queue_head ep,
        ep\<lparr>ep_queue := (ep_queue ep)[queue_head ep := zero_delivery],
           queue_head := (queue_head ep + 1) mod IPC_MAX_QUEUE_DEPTH,
           queue_count := queue_count ep - 1\<rparr>))"

text \<open>The ring position of the delivery at an offset from the head.\<close>

definition ring_index :: "ipc_endpoint \<Rightarrow> nat \<Rightarrow> nat" where
  "ring_index ep k = (queue_head ep + k) mod IPC_MAX_QUEUE_DEPTH"

definition queue_list :: "ipc_endpoint \<Rightarrow> ipc_delivery list" where
  "queue_list ep = map (\<lambda>k. ep_queue ep ! ring_index ep k) [0..<queue_count ep]"

text \<open>
  The inner loop of \<^verbatim>\<open>endpoint_remove_request\<close>: move the following \<open>n\<close> deliveries down by one,
  ending at the position that has become free.
\<close>

fun shift_down :: "ipc_delivery list \<Rightarrow> nat \<Rightarrow> nat \<Rightarrow> ipc_delivery list \<times> nat" where
  "shift_down q index 0 = (q, index)"
| "shift_down q index (Suc n) =
     (let next = (index + 1) mod IPC_MAX_QUEUE_DEPTH in shift_down (q[index := q ! next]) next n)"

definition is_request :: "nat \<Rightarrow> ipc_delivery \<Rightarrow> bool" where
  "is_request r d \<longleftrightarrow> \<not> (is_event d \<or> dl_request d \<noteq> Some r)"

definition endpoint_remove_request :: "ipc_endpoint \<Rightarrow> nat \<Rightarrow> ipc_endpoint" where
  "endpoint_remove_request ep r =
     (case first_index (\<lambda>k. is_request r (ep_queue ep ! ring_index ep k)) [0..<queue_count ep] of
        None \<Rightarrow> ep
      | Some offset \<Rightarrow>
          (case shift_down (ep_queue ep) (ring_index ep offset) (queue_count ep - offset - 1) of
             (q, index) \<Rightarrow> ep\<lparr>ep_queue := q[index := zero_delivery],
               queue_tail := (queue_tail ep + IPC_MAX_QUEUE_DEPTH - 1) mod IPC_MAX_QUEUE_DEPTH,
               queue_count := queue_count ep - 1\<rparr>))"

definition endpoint_discard_events :: "ipc_endpoint \<Rightarrow> ipc_endpoint" where
  "endpoint_discard_events ep =
     (let retained = filter (\<lambda>d. \<not> is_event d) (queue_list ep);
          n = length retained
      in ep\<lparr>ep_queue := retained @ replicate (IPC_MAX_QUEUE_DEPTH - n) zero_delivery,
           queue_head := 0, queue_tail := n mod IPC_MAX_QUEUE_DEPTH, queue_count := n,
           event_overflow := False\<rparr>)"

subsection \<open>The ring invariant\<close>

definition ring_wf :: "ipc_endpoint \<Rightarrow> bool" where
  "ring_wf ep \<longleftrightarrow> length (ep_queue ep) = IPC_MAX_QUEUE_DEPTH \<and>
     queue_head ep < IPC_MAX_QUEUE_DEPTH \<and> queue_count ep \<le> IPC_MAX_QUEUE_DEPTH \<and>
     queue_tail ep = ring_index ep (queue_count ep)"

lemma length_queue_list [simp]: "length (queue_list ep) = queue_count ep"
  by (simp add: queue_list_def)

lemma nth_queue_list [simp]:
  "k < queue_count ep \<Longrightarrow> queue_list ep ! k = ep_queue ep ! ring_index ep k"
  by (simp add: queue_list_def)

lemma ring_index_less [simp]: "ring_index ep k < IPC_MAX_QUEUE_DEPTH"
  by (simp add: ring_index_def IPC_MAX_QUEUE_DEPTH_def)

lemma mod_offset_less:
  assumes "(h + j) mod n = (h + k) mod n" "j \<le> k" "k < n"
  shows "j = (k :: nat)"
proof -
  have "n dvd (h + k) - (h + j)"
    using assms(1,2) by (subst mod_eq_dvd_iff_nat [symmetric]) auto
  then show ?thesis using assms(2,3) by (auto dest: dvd_imp_le)
qed

lemma ring_index_inj:
  assumes "ring_index ep j = ring_index ep k" "j < IPC_MAX_QUEUE_DEPTH" "k < IPC_MAX_QUEUE_DEPTH"
  shows "j = k"
proof (cases "j \<le> k")
  case True
  then show ?thesis using assms by (auto simp: ring_index_def intro: mod_offset_less)
next
  case False
  then have "k = j"
    using assms by (intro mod_offset_less [of "queue_head ep" k IPC_MAX_QUEUE_DEPTH j])
      (auto simp: ring_index_def)
  then show ?thesis by simp
qed

lemma ring_wfD:
  assumes "ring_wf ep"
  shows "length (ep_queue ep) = IPC_MAX_QUEUE_DEPTH" "queue_count ep \<le> IPC_MAX_QUEUE_DEPTH"
    "queue_head ep < IPC_MAX_QUEUE_DEPTH" "queue_tail ep = ring_index ep (queue_count ep)"
  using assms by (auto simp: ring_wf_def)

lemma ring_index_Suc: "(ring_index ep k + 1) mod IPC_MAX_QUEUE_DEPTH = ring_index ep (Suc k)"
  by (simp add: ring_index_def mod_Suc_eq)

subsection \<open>Enqueue and dequeue\<close>

lemma endpoint_put_wf:
  "ring_wf ep \<Longrightarrow> queue_count ep < IPC_MAX_QUEUE_DEPTH \<Longrightarrow> ring_wf (endpoint_put ep d)"
  by (simp add: ring_wf_def endpoint_put_def ring_index_def mod_Suc_eq)

lemma endpoint_put_list:
  assumes "ring_wf ep" "queue_count ep < IPC_MAX_QUEUE_DEPTH"
  shows "queue_list (endpoint_put ep d) = queue_list ep @ [d]"
proof (rule nth_equalityI)
  fix k assume "k < length (queue_list (endpoint_put ep d))"
  then have k: "k \<le> queue_count ep" by (simp add: endpoint_put_def)
  have idx: "ring_index (endpoint_put ep d) k = ring_index ep k"
    by (simp add: ring_index_def endpoint_put_def)
  show "queue_list (endpoint_put ep d) ! k = (queue_list ep @ [d]) ! k"
  proof (cases "k = queue_count ep")
    case True
    then show ?thesis using assms
      by (simp add: queue_list_def endpoint_put_def ring_index_def ring_wf_def nth_append)
  next
    case False
    with k assms(2) have "ring_index ep k \<noteq> queue_tail ep"
      using ring_index_inj [of ep k "queue_count ep"] ring_wfD [OF assms(1)] by auto
    then show ?thesis using False k idx
      by (simp add: queue_list_def endpoint_put_def nth_append)
  qed
qed (simp add: endpoint_put_def)

lemma endpoint_dequeue_Some:
  assumes "ring_wf ep" "queue_list ep = d # ds"
  obtains ep' where "endpoint_dequeue ep = Some (d, ep')" "ring_wf ep'" "queue_list ep' = ds"
proof -
  have pos: "0 < queue_count ep" using assms(2) by (metis length_queue_list length_greater_0_conv list.discI)
  let ?ep = "ep\<lparr>ep_queue := (ep_queue ep)[queue_head ep := zero_delivery],
    queue_head := (queue_head ep + 1) mod IPC_MAX_QUEUE_DEPTH, queue_count := queue_count ep - 1\<rparr>"
  have head: "ep_queue ep ! queue_head ep = d"
    using assms pos nth_queue_list [OF pos] by (simp add: ring_index_def ring_wf_def)
  have idx: "ring_index ?ep k = ring_index ep (Suc k)" for k
    by (simp add: ring_index_def mod_add_left_eq)
  have "ring_wf ?ep"
    using assms(1) pos idx [of "queue_count ep - 1"]
    by (auto simp: ring_wf_def IPC_MAX_QUEUE_DEPTH_def)
  moreover have "queue_list ?ep = ds"
  proof (rule nth_equalityI)
    have "Suc (length ds) = queue_count ep"
      using length_queue_list [of ep] unfolding assms(2) by simp
    then show "length (queue_list ?ep) = length ds" by simp
    fix k assume "k < length (queue_list ?ep)"
    then have k: "Suc k < queue_count ep" by simp
    have "ring_index ep (Suc k) \<noteq> queue_head ep"
      using ring_index_inj [of ep "Suc k" 0] k ring_wfD [OF assms(1)]
      by (auto simp: ring_index_def)
    then have "queue_list ?ep ! k = queue_list ep ! Suc k"
      using k idx [of k] by (simp add: queue_list_def)
    then show "queue_list ?ep ! k = ds ! k" using assms(2) by simp
  qed
  ultimately show ?thesis
    using that [of ?ep] pos head by (simp add: endpoint_dequeue_def)
qed

lemma endpoint_dequeue_None: "endpoint_dequeue ep = None \<longleftrightarrow> queue_list ep = []"
  by (simp add: endpoint_dequeue_def queue_list_def)

subsection \<open>The bounded queue interface\<close>

text \<open>
  What the senders and the receiver of an endpoint rely on. \<open>abs\<close> is the queued content, \<open>emb\<close> the
  delivery a sender's item becomes, \<open>cap\<close> the bound.
\<close>

fun enqueue_all :: "('q \<Rightarrow> 'x \<Rightarrow> 'q option) \<Rightarrow> 'q \<Rightarrow> 'x list \<Rightarrow> 'q option" where
  "enqueue_all enq q [] = Some q"
| "enqueue_all enq q (x # xs) = (case enq q x of None \<Rightarrow> None | Some q' \<Rightarrow> enqueue_all enq q' xs)"

fun dequeue_all :: "('q \<Rightarrow> ('d \<times> 'q) option) \<Rightarrow> 'q \<Rightarrow> nat \<Rightarrow> ('d list \<times> 'q) option" where
  "dequeue_all deq q 0 = Some ([], q)"
| "dequeue_all deq q (Suc n) = (case deq q of None \<Rightarrow> None
     | Some (d, q') \<Rightarrow> (case dequeue_all deq q' n of None \<Rightarrow> None
       | Some (ds, q'') \<Rightarrow> Some (d # ds, q'')))"

locale bounded_queue =
  fixes enq :: "'q \<Rightarrow> 'x \<Rightarrow> 'q option" and deq :: "'q \<Rightarrow> ('d \<times> 'q) option"
    and abs :: "'q \<Rightarrow> 'd list" and inv :: "'q \<Rightarrow> bool" and emb :: "'x \<Rightarrow> 'd" and cap :: nat
  assumes enq_room: "inv q \<Longrightarrow> length (abs q) < cap \<Longrightarrow>
      \<exists>q'. enq q x = Some q' \<and> inv q' \<and> abs q' = abs q @ [emb x]"
    and enq_full: "inv q \<Longrightarrow> cap \<le> length (abs q) \<Longrightarrow> enq q x = None"
    and deq_Cons: "inv q \<Longrightarrow> abs q = d # ds \<Longrightarrow> \<exists>q'. deq q = Some (d, q') \<and> inv q' \<and> abs q' = ds"
    and deq_Nil: "inv q \<Longrightarrow> abs q = [] \<Longrightarrow> deq q = None"
begin

lemma enqueue_all_fits:
  "inv q \<Longrightarrow> length (abs q) + length xs \<le> cap \<Longrightarrow>
    \<exists>q'. enqueue_all enq q xs = Some q' \<and> inv q' \<and> abs q' = abs q @ map emb xs"
proof (induction xs arbitrary: q)
  case (Cons x xs)
  then obtain q1 where q1: "enq q x = Some q1" "inv q1" "abs q1 = abs q @ [emb x]"
    using enq_room [of q x] by auto
  then obtain q2 where "enqueue_all enq q1 xs = Some q2" "inv q2" "abs q2 = abs q1 @ map emb xs"
    using Cons.IH [of q1] Cons.prems by auto
  with q1 show ?case by auto
qed simp

lemma dequeue_all_takes:
  "inv q \<Longrightarrow> n \<le> length (abs q) \<Longrightarrow>
    \<exists>q'. dequeue_all deq q n = Some (take n (abs q), q') \<and> inv q' \<and> abs q' = drop n (abs q)"
proof (induction n arbitrary: q)
  case (Suc n)
  then obtain d ds where "abs q = d # ds" by (cases "abs q") auto
  with deq_Cons [of q d ds] Suc.prems obtain q1 where q1: "deq q = Some (d, q1)" "inv q1" "abs q1 = ds"
    by auto
  with Suc.IH [of q1] Suc.prems \<open>abs q = d # ds\<close> show ?case by fastforce
qed simp

lemma fifo:
  assumes "inv q" "abs q = []" "length xs \<le> cap"
  shows "\<exists>q' q''. enqueue_all enq q xs = Some q' \<and>
    dequeue_all deq q' (length xs) = Some (map emb xs, q'') \<and> abs q'' = []"
proof -
  obtain q' where q': "enqueue_all enq q xs = Some q'" "inv q'" "abs q' = map emb xs"
    using enqueue_all_fits [of q xs] assms by auto
  then show ?thesis using dequeue_all_takes [of q' "length xs"] by auto
qed

end

interpretation rq: bounded_queue endpoint_enqueue_request endpoint_dequeue queue_list ring_wf
  request_delivery IPC_MAX_QUEUE_DEPTH
  by unfold_locales
    (auto simp: endpoint_enqueue_request_def endpoint_put_wf endpoint_put_list endpoint_dequeue_None
      elim: endpoint_dequeue_Some)

interpretation eq: bounded_queue endpoint_enqueue_event endpoint_dequeue queue_list ring_wf
  event_delivery IPC_MAX_QUEUE_DEPTH
  by unfold_locales
    (auto simp: endpoint_enqueue_event_def endpoint_put_wf endpoint_put_list endpoint_dequeue_None
      elim: endpoint_dequeue_Some)

subsection \<open>Removing a request from the middle\<close>

text \<open>The list operation it refines: drop the first delivery of that request.\<close>

fun remove_first :: "('a \<Rightarrow> bool) \<Rightarrow> 'a list \<Rightarrow> 'a list" where
  "remove_first P [] = []"
| "remove_first P (x # xs) = (if P x then xs else x # remove_first P xs)"

lemma remove_first_None: "first_index P xs = None \<Longrightarrow> remove_first P xs = xs"
  by (induction xs) (auto split: if_splits)

lemma remove_first_Some: "first_index P xs = Some i \<Longrightarrow> remove_first P xs = take i xs @ drop (Suc i) xs"
  by (induction xs arbitrary: i) (auto split: if_splits)

lemma shift_down_spec:
  assumes "length q = IPC_MAX_QUEUE_DEPTH" "off + n < IPC_MAX_QUEUE_DEPTH"
    and "shift_down q (ring_index ep off) n = (q', index)"
  shows "index = ring_index ep (off + n) \<and> length q' = IPC_MAX_QUEUE_DEPTH \<and>
    (\<forall>j<IPC_MAX_QUEUE_DEPTH. q' ! ring_index ep j =
       (if off \<le> j \<and> j < off + n then q ! ring_index ep (Suc j) else q ! ring_index ep j))"
  using assms
proof (induction n arbitrary: q off)
  case (Suc n)
  let ?q = "q[ring_index ep off := q ! ring_index ep (Suc off)]"
  have "shift_down ?q (ring_index ep (Suc off)) n = (q', index)"
    using Suc.prems(3) by (simp add: Let_def ring_index_Suc [simplified])
  then have ih: "index = ring_index ep (Suc off + n)" "length q' = IPC_MAX_QUEUE_DEPTH"
    "\<And>j. j < IPC_MAX_QUEUE_DEPTH \<Longrightarrow> q' ! ring_index ep j =
      (if Suc off \<le> j \<and> j < Suc off + n then ?q ! ring_index ep (Suc j) else ?q ! ring_index ep j)"
    using Suc.IH [of ?q "Suc off"] Suc.prems(1,2) by auto
  have upd: "?q ! ring_index ep j = (if j = off then q ! ring_index ep (Suc off) else q ! ring_index ep j)"
    if "j < IPC_MAX_QUEUE_DEPTH" for j
    using that Suc.prems(1,2) ring_index_inj [of ep j off] by (auto simp: nth_list_update)
  show ?case
  proof (intro conjI allI impI)
    show "index = ring_index ep (off + Suc n)" "length q' = IPC_MAX_QUEUE_DEPTH" using ih by simp_all
    fix j assume j: "j < IPC_MAX_QUEUE_DEPTH"
    show "q' ! ring_index ep j = (if off \<le> j \<and> j < off + Suc n then q ! ring_index ep (Suc j)
      else q ! ring_index ep j)"
      using ih(3) [OF j] upd [OF j] upd [of "Suc j"] Suc.prems(2) by auto
  qed
qed auto

lemma first_index_upt: "first_index P [0..<n] = Some i \<longleftrightarrow> i < n \<and> P i \<and> (\<forall>j<i. \<not> P j)"
  by (auto simp: first_index_Some)

lemma first_index_map: "first_index P (map f xs) = first_index (\<lambda>x. P (f x)) xs"
  by (induction xs) auto

lemma endpoint_remove_request_wf:
  assumes "ring_wf ep"
  shows "ring_wf (endpoint_remove_request ep r)"
    and "queue_list (endpoint_remove_request ep r) = remove_first (is_request r) (queue_list ep)"
proof -
  let ?P = "\<lambda>k. is_request r (ep_queue ep ! ring_index ep k)"
  have fi: "first_index (is_request r) (queue_list ep) = first_index ?P [0..<queue_count ep]"
    by (simp add: queue_list_def first_index_map)
  have "ring_wf (endpoint_remove_request ep r) \<and>
    queue_list (endpoint_remove_request ep r) = remove_first (is_request r) (queue_list ep)"
  proof (cases "first_index ?P [0..<queue_count ep]")
    case None
    then show ?thesis
      using assms remove_first_None [of "is_request r" "queue_list ep"] fi
      by (simp add: endpoint_remove_request_def)
  next
    case (Some off)
    then have off: "off < queue_count ep" by (simp add: first_index_upt)
    define n where "n = queue_count ep - off - 1"
    obtain q index where sd: "shift_down (ep_queue ep) (ring_index ep off) n = (q, index)" by fastforce
    note wf = ring_wfD [OF assms]
    have on: "off + n = queue_count ep - 1" "off + n < IPC_MAX_QUEUE_DEPTH"
      using off wf(2) by (auto simp: n_def)
    note sp = shift_down_spec [OF wf(1) on(2) sd]
    let ?ep = "endpoint_remove_request ep r"
    have ep: "?ep = ep\<lparr>ep_queue := q[index := zero_delivery],
      queue_tail := (queue_tail ep + IPC_MAX_QUEUE_DEPTH - 1) mod IPC_MAX_QUEUE_DEPTH,
      queue_count := queue_count ep - 1\<rparr>"
      using Some sd by (simp add: endpoint_remove_request_def n_def)
    have idx: "ring_index ?ep k = ring_index ep k" for k by (simp add: ep ring_index_def)
    have tail: "(queue_tail ep + IPC_MAX_QUEUE_DEPTH - 1) mod IPC_MAX_QUEUE_DEPTH
        = ring_index ep (queue_count ep - 1)"
    proof -
      obtain c where c: "queue_count ep = Suc c" using off by (cases "queue_count ep") auto
      show ?thesis
        using wf(4) by (simp add: c ring_index_def IPC_MAX_QUEUE_DEPTH_def mod_simps)
    qed
    have "ring_wf ?ep"
      using assms sp idx tail unfolding ring_wf_def by (auto simp: ep ring_index_def)
    moreover have "queue_list ?ep = take off (queue_list ep) @ drop (Suc off) (queue_list ep)"
    proof (rule nth_equalityI)
      show "length (queue_list ?ep) = length (take off (queue_list ep) @ drop (Suc off) (queue_list ep))"
        using off by (simp add: ep)
      fix k assume "k < length (queue_list ?ep)"
      then have k: "k < queue_count ep - 1" by (simp add: ep)
      then have k8: "k < IPC_MAX_QUEUE_DEPTH" using wf(2) by simp
      have "ring_index ep k \<noteq> index"
        using ring_index_inj [of ep k "off + n"] sp k k8 on by auto
      then have "queue_list ?ep ! k = q ! ring_index ep k"
        using k by (simp add: queue_list_def idx) (simp add: ep)
      then show "queue_list ?ep ! k = (take off (queue_list ep) @ drop (Suc off) (queue_list ep)) ! k"
        using sp k k8 on off by (auto simp: nth_append)
    qed
    ultimately show ?thesis
      using remove_first_Some [of "is_request r" "queue_list ep" off] Some fi by simp
  qed
  then show "ring_wf (endpoint_remove_request ep r)"
    "queue_list (endpoint_remove_request ep r) = remove_first (is_request r) (queue_list ep)" by auto
qed

subsection \<open>Discarding events\<close>

lemma endpoint_discard_events_wf:
  assumes "ring_wf ep"
  shows "ring_wf (endpoint_discard_events ep)"
    and "queue_list (endpoint_discard_events ep) = filter (\<lambda>d. \<not> is_event d) (queue_list ep)"
proof -
  let ?r = "filter (\<lambda>d. \<not> is_event d) (queue_list ep)"
  have len: "length ?r \<le> IPC_MAX_QUEUE_DEPTH"
    using length_filter_le [of "\<lambda>d. \<not> is_event d" "queue_list ep"] ring_wfD(2) [OF assms] by simp
  show "ring_wf (endpoint_discard_events ep)"
    using len by (simp add: ring_wf_def endpoint_discard_events_def Let_def ring_index_def)
      (simp add: IPC_MAX_QUEUE_DEPTH_def)
  show "queue_list (endpoint_discard_events ep) = ?r"
    by (rule nth_equalityI)
      (use len in \<open>auto simp: queue_list_def endpoint_discard_events_def Let_def ring_index_def nth_append\<close>)
qed

lemma endpoint_discard_events_overflow [simp]: "\<not> event_overflow (endpoint_discard_events ep)"
  by (simp add: endpoint_discard_events_def Let_def)

subsection \<open>Runs of queue operations\<close>

datatype queue_op = Send nat | Publish mg_event | Receive | Cancel nat | Discard_Events

text \<open>One operation on the ring and on the abstract list; the second component is what it delivers.\<close>

fun ring_step :: "ipc_endpoint \<Rightarrow> queue_op \<Rightarrow> ipc_endpoint \<times> ipc_delivery option" where
  "ring_step ep (Send r) = (case endpoint_enqueue_request ep r of None \<Rightarrow> (ep, None) | Some e \<Rightarrow> (e, None))"
| "ring_step ep (Publish v) = (case endpoint_enqueue_event ep v of None \<Rightarrow> (ep, None) | Some e \<Rightarrow> (e, None))"
| "ring_step ep Receive = (case endpoint_dequeue ep of None \<Rightarrow> (ep, None) | Some (d, e) \<Rightarrow> (e, Some d))"
| "ring_step ep (Cancel r) = (endpoint_remove_request ep r, None)"
| "ring_step ep Discard_Events = (endpoint_discard_events ep, None)"

fun list_step :: "ipc_delivery list \<Rightarrow> queue_op \<Rightarrow> ipc_delivery list \<times> ipc_delivery option" where
  "list_step q (Send r) = (if length q < IPC_MAX_QUEUE_DEPTH then q @ [request_delivery r] else q, None)"
| "list_step q (Publish v) = (if length q < IPC_MAX_QUEUE_DEPTH then q @ [event_delivery v] else q, None)"
| "list_step q Receive = (case q of [] \<Rightarrow> ([], None) | d # ds \<Rightarrow> (ds, Some d))"
| "list_step q (Cancel r) = (remove_first (is_request r) q, None)"
| "list_step q Discard_Events = (filter (\<lambda>d. \<not> is_event d) q, None)"

fun run_queue :: "('q \<Rightarrow> queue_op \<Rightarrow> 'q \<times> 'd option) \<Rightarrow> 'q \<Rightarrow> queue_op list \<Rightarrow> 'q \<times> 'd option list" where
  "run_queue f q [] = (q, [])"
| "run_queue f q (op # ops) =
     (case f q op of (q1, d) \<Rightarrow> case run_queue f q1 ops of (q2, ds) \<Rightarrow> (q2, d # ds))"

lemma ring_step_refines:
  assumes "ring_wf ep"
  shows "ring_wf (fst (ring_step ep op)) \<and>
    list_step (queue_list ep) op = (queue_list (fst (ring_step ep op)), snd (ring_step ep op))"
proof (cases op)
  case (Send r)
  then show ?thesis
    using rq.enq_room [OF assms, of r] rq.enq_full [OF assms, of r]
    by (cases "queue_count ep < IPC_MAX_QUEUE_DEPTH") (auto simp: assms)
next
  case (Publish v)
  then show ?thesis
    using eq.enq_room [OF assms, of v] eq.enq_full [OF assms, of v]
    by (cases "queue_count ep < IPC_MAX_QUEUE_DEPTH") (auto simp: assms)
next
  case Receive
  then show ?thesis
    using rq.deq_Nil [OF assms] rq.deq_Cons [OF assms] assms
    by (cases "queue_list ep") (fastforce split: list.splits)+
qed (simp_all add: assms endpoint_remove_request_wf endpoint_discard_events_wf)

subsection \<open>Properties\<close>

text \<open>C17. The ring buffer is a bounded FIFO queue: after any sequence of sends, event publications,
  receives, request cancellations and event discards, its content is what the same sequence gives
  on a list bounded by eight (cancelling drops the first delivery of that request, discarding
  keeps the requests in order), every receive delivers the same item, and the ring invariant holds.\<close>

theorem ring_refines_list:
  assumes "ring_wf ep"
  shows "ring_wf (fst (run_queue ring_step ep ops)) \<and>
    run_queue list_step (queue_list ep) ops =
      (queue_list (fst (run_queue ring_step ep ops)), snd (run_queue ring_step ep ops))"
  using assms
proof (induction ops arbitrary: ep)
  case (Cons op ops)
  obtain e1 d where s: "ring_step ep op = (e1, d)" by fastforce
  with ring_step_refines [OF Cons.prems, of op] Cons.IH [of e1]
  show ?case by (auto split: prod.splits)
qed simp

definition demo_endpoint :: ipc_endpoint where
  "demo_endpoint = \<lparr>ep_name = ''sessiond'', ep_owner = 1, ep_service_id = 1, ep_live = True,
     ep_queue = replicate IPC_MAX_QUEUE_DEPTH zero_delivery, queue_head = 7, queue_tail = 7,
     queue_count = 0, event_classes = 0, event_overflow = False, receiver_waiter = None\<rparr>"

theorem ring_refines_list_witness:
  "map_option dl_request (last (snd (run_queue ring_step demo_endpoint
     [Send 4, Send 5, Publish zero_event, Send 6, Cancel 5, Receive, Discard_Events, Receive]))) = Some (Some 6)"
proof -
  let ?ops = "[Send 4, Send 5, Publish zero_event, Send 6, Cancel 5, Receive, Discard_Events, Receive]"
  have wf: "ring_wf demo_endpoint" by code_simp
  have "snd (run_queue list_step (queue_list demo_endpoint) ?ops)
      = snd (run_queue ring_step demo_endpoint ?ops)"
    using ring_refines_list [OF wf, of ?ops] by simp
  moreover have "map_option dl_request (last (snd (run_queue list_step (queue_list demo_endpoint) ?ops)))
      = Some (Some 6)"
    by code_simp
  ultimately show ?thesis by simp
qed

end
