(* ===== verification/Chains.thy ===== *)
theory Chains
  imports Prelude
begin

section \<open>Intrusive linked lists\<close>

text \<open>
  The kernel threads its lists through link fields of the elements (the ready queues and the sleep
  list of \<^verbatim>\<open>kernel/src/scheduler.c\<close>, the wait chain of \<^verbatim>\<open>kernel/src/mutex.c\<close>). A list is
  a head pointer and a link function; \<open>path\<close> says which elements it holds. A doubly linked list is
  a path along the forward links and the reversed path along the backward links, so one set of
  lemmas serves both directions.
\<close>

fun path :: "(addr \<Rightarrow> ptr) \<Rightarrow> ptr \<Rightarrow> addr list \<Rightarrow> bool" where
  "path nx p [] \<longleftrightarrow> p = None"
| "path nx p (x # xs) \<longleftrightarrow> p = Some x \<and> path nx (nx x) xs"

text \<open>Walking at most \<open>n\<close> elements, the way a \<open>for\<close> loop over the links does.\<close>

fun chain :: "(addr \<Rightarrow> ptr) \<Rightarrow> nat \<Rightarrow> ptr \<Rightarrow> addr list" where
  "chain nx 0 p = []"
| "chain nx (Suc n) None = []"
| "chain nx (Suc n) (Some a) = a # chain nx n (nx a)"

text \<open>The head pointer of a list with these elements.\<close>

definition first :: "addr list \<Rightarrow> ptr" where
  "first xs = (case xs of [] \<Rightarrow> None | x # _ \<Rightarrow> Some x)"

lemma first_simps [simp]: "first [] = None" "first (x # xs) = Some x"
  by (simp_all add: first_def)

lemma first_append: "first (xs @ ys) = (if xs = [] then first ys else first xs)"
  by (cases xs) simp_all

lemma first_None [simp]: "first xs = None \<longleftrightarrow> xs = []"
  by (cases xs) simp_all

lemma first_rev_snoc [simp]: "first (rev (xs @ [x])) = Some x"
  by simp

lemma path_first: "path nx p xs \<Longrightarrow> p = first xs"
  by (cases xs) auto

lemma path_unique: "path nx p xs \<Longrightarrow> path nx p ys \<Longrightarrow> xs = ys"
proof (induction xs arbitrary: p ys)
  case Nil
  then show ?case by (cases ys) auto
next
  case (Cons x xs)
  then show ?case by (cases ys) auto
qed

lemma path_suffix: "path nx p (xs @ y # ys) \<Longrightarrow> path nx (Some y) (y # ys)"
  by (induction xs arbitrary: p) auto

text \<open>A list that ends at the null pointer has no element twice.\<close>

lemma path_distinct: "path nx p xs \<Longrightarrow> distinct xs"
proof (induction xs arbitrary: p)
  case (Cons x xs)
  have "x \<notin> set xs"
  proof
    assume "x \<in> set xs"
    then obtain ys zs where xs: "xs = ys @ x # zs" by (meson split_list)
    have "path nx (Some x) (x # xs)" using Cons.prems by simp
    moreover have "path nx (Some x) (x # zs)"
      using path_suffix [of nx p "x # ys" x zs] Cons.prems xs by simp
    ultimately have "x # xs = x # zs" by (rule path_unique)
    then have "length xs = length zs" by simp
    then show False by (simp add: xs)
  qed
  with Cons show ?case by auto
qed simp

lemma path_cong: "(\<And>x. x \<in> set xs \<Longrightarrow> nx x = ny x) \<Longrightarrow> path nx p xs = path ny p xs"
  by (induction xs arbitrary: p) auto

lemma path_upd_other [simp]: "a \<notin> set xs \<Longrightarrow> path (nx(a := v)) p xs = path nx p xs"
  by (rule path_cong) auto

lemma path_chain: "path nx p xs \<Longrightarrow> length xs \<le> n \<Longrightarrow> chain nx n p = xs"
proof (induction xs arbitrary: p n)
  case Nil
  then show ?case by (cases n) auto
next
  case (Cons x xs)
  then show ?case by (cases n) auto
qed

subsection \<open>Segments\<close>

fun seg :: "(addr \<Rightarrow> ptr) \<Rightarrow> ptr \<Rightarrow> addr list \<Rightarrow> ptr \<Rightarrow> bool" where
  "seg nx p [] q \<longleftrightarrow> p = q"
| "seg nx p (x # xs) q \<longleftrightarrow> p = Some x \<and> seg nx (nx x) xs q"

lemma path_seg: "path nx p xs \<longleftrightarrow> seg nx p xs None"
  by (induction xs arbitrary: p) auto

lemma seg_append: "seg nx p (xs @ ys) q \<longleftrightarrow> (\<exists>r. seg nx p xs r \<and> seg nx r ys q)"
  by (induction xs arbitrary: p) auto

lemma seg_first: "seg nx p xs q \<Longrightarrow> p = (if xs = [] then q else first xs)"
  by (cases xs) auto

lemma seg_cong: "(\<And>x. x \<in> set xs \<Longrightarrow> nx x = ny x) \<Longrightarrow> seg nx p xs q = seg ny p xs q"
  by (induction xs arbitrary: p) auto

lemma seg_redirect:
  "seg nx p xs q \<Longrightarrow> distinct xs \<Longrightarrow> xs \<noteq> [] \<Longrightarrow> seg (nx(last xs := r)) p xs r"
proof (induction xs arbitrary: p)
  case (Cons x xs)
  then show ?case by (cases xs) auto
qed simp

subsection \<open>Appending and unlinking\<close>

lemma path_last:
  assumes "path nx p xs" "xs \<noteq> []"
  shows "nx (last xs) = None"
  using assms
proof (induction xs arbitrary: p)
  case (Cons x xs)
  then show ?case by (cases xs) auto
qed simp

text \<open>Linking a new element behind the last one.\<close>

lemma path_link_last:
  assumes "path nx p xs" "t \<notin> set xs" "nx t = None"
  shows "path (if xs = [] then nx else nx(last xs := Some t)) (if xs = [] then Some t else p) (xs @ [t])"
proof (cases "xs = []")
  case False
  have "seg (nx(last xs := Some t)) p xs (Some t)"
    using assms(1) path_distinct [OF assms(1)] False by (simp add: path_seg seg_redirect)
  moreover have "seg (nx(last xs := Some t)) (Some t) [t] None"
    using assms(2,3) False by auto
  ultimately show ?thesis using False by (auto simp: path_seg seg_append)
qed (use assms in auto)

text \<open>Linking a new element in front of the first one.\<close>

lemma path_link_first:
  "path nx p xs \<Longrightarrow> t \<notin> set xs \<Longrightarrow> path (nx(t := p)) (Some t) (t # xs)"
  by simp

text \<open>Unlinking an element from anywhere.\<close>

lemma path_unlink:
  assumes "path nx p (ys @ x # zs)"
  shows "path (if ys = [] then nx else nx(last ys := nx x)) (if ys = [] then nx x else p) (ys @ zs)"
proof (cases "ys = []")
  case False
  have d: "distinct (ys @ x # zs)" using assms by (rule path_distinct)
  from assms have "seg nx p ys (Some x)" "seg nx (nx x) zs None"
    by (auto simp: path_seg seg_append)
  then have "seg (nx(last ys := nx x)) p ys (nx x)"
    using d False by (auto simp: seg_redirect)
  moreover have "seg (nx(last ys := nx x)) (nx x) zs None"
    using \<open>seg nx (nx x) zs None\<close> d last_in_set [OF False]
    by (subst seg_cong [of zs _ nx]) auto
  ultimately show ?thesis using False by (auto simp: path_seg seg_append)
qed (use assms in auto)

text \<open>The neighbours of an element.\<close>

lemma path_next:
  "path nx p (ys @ x # zs) \<Longrightarrow> nx x = first zs"
  using path_suffix [of nx p ys x zs] by (auto dest: path_first)

lemma path_mem_split:
  assumes "path nx p xs" "x \<in> set xs"
  obtains ys zs where "xs = ys @ x # zs" "x \<notin> set ys" "x \<notin> set zs"
  using split_list [OF assms(2)] path_distinct [OF assms(1)] by auto

lemma remove1_split: "x \<notin> set ys \<Longrightarrow> remove1 x (ys @ x # zs) = ys @ zs"
  by (induction ys) auto

end
