(* ===== verification/Threads.thy ===== *)
theory Threads
  imports Chains
begin

section \<open>Threads and the scheduler's data\<close>

text \<open>
  The data of \<^verbatim>\<open>kernel/include/scheduler.h\<close> and \<^verbatim>\<open>kernel/src/scheduler.c\<close>: the thread control
  block, the per-CPU record, the three ready queues threaded through the control blocks, the sleep
  list, and the primitive list operations, which are shown to refine operations on plain lists of
  threads. A thread is named by the address of its control block. Priorities are numbers, smaller is
  more urgent. Of the frame a switched-out thread leaves on its stack the model keeps the RFLAGS word
  (\<open>saved_rflags\<close>), the one the scheduler reads back. The floating point area, the entry point and
  its argument are not part of the model.
\<close>

subsection \<open>Data\<close>

datatype thread_state =
    THREAD_STATE_RUNNING | THREAD_STATE_READY | THREAD_STATE_BLOCKED | THREAD_STATE_TERMINATED

type_synonym thread_priority = nat

definition THREAD_PRIORITY_HIGH :: thread_priority where "THREAD_PRIORITY_HIGH = 0"
definition THREAD_PRIORITY_NORMAL :: thread_priority where "THREAD_PRIORITY_NORMAL = 1"
definition THREAD_PRIORITY_BACKGROUND :: thread_priority where "THREAD_PRIORITY_BACKGROUND = 2"

definition THREAD_TIME_SLICE_HIGH :: u64 where "THREAD_TIME_SLICE_HIGH = 3"
definition THREAD_TIME_SLICE_NORMAL :: u64 where "THREAD_TIME_SLICE_NORMAL = 5"
definition THREAD_TIME_SLICE_BACKGROUND :: u64 where "THREAD_TIME_SLICE_BACKGROUND = 8"
definition BACKGROUND_STARVATION_THRESHOLD :: u64 where "BACKGROUND_STARVATION_THRESHOLD = 500"
definition NORMAL_STARVATION_THRESHOLD :: u64 where "NORMAL_STARVATION_THRESHOLD = 5000"
definition BACKGROUND_HIGH_RESCUE_THRESHOLD :: u64 where
  "BACKGROUND_HIGH_RESCUE_THRESHOLD = NORMAL_STARVATION_THRESHOLD"

lemmas priority_defs = THREAD_PRIORITY_HIGH_def THREAD_PRIORITY_NORMAL_def THREAD_PRIORITY_BACKGROUND_def

definition THREAD_CPU_NONE :: u32 where "THREAD_CPU_NONE = NOT 0"

record kernel_thread =
  t_id :: u64
  t_state :: thread_state
  base_priority :: thread_priority
  effective_priority :: thread_priority
  queued :: bool
  wakeup_boosted :: bool
  last_selected_priority :: thread_priority
  last_selection_was_wakeup_boost :: bool
  ready_wait_ticks :: u64
  remaining_time_slice :: u64
  default_time_slice :: u64
  preempt_return_rip :: u64
  preempt_return_rflags :: u64
  wakeup_tick :: u64
  sleeping :: bool
  syscall_active :: bool
  syscall_nesting :: u32
  saved_stack_pointer :: u64
  saved_rflags :: u64
  saved_context_valid :: bool
  running_cpu :: u32
  t_cpu_time_ticks :: u64
  context_switch_pending :: bool
  kernel_stack_base :: u64
  kernel_stack_size :: u64
  stack_external :: bool
  waiting_mutex :: ptr
  mutex_wait_next :: ptr
  mutex_wake_pending :: bool
  t_next :: ptr
  t_previous :: ptr
  t_name :: string
  t_process :: ptr

text \<open>A control block after \<open>memset(thread, 0, sizeof *thread)\<close>.\<close>

definition zero_thread :: kernel_thread where
  "zero_thread = \<lparr>t_id = 0, t_state = THREAD_STATE_RUNNING, base_priority = 0, effective_priority = 0,
     queued = False, wakeup_boosted = False, last_selected_priority = 0,
     last_selection_was_wakeup_boost = False, ready_wait_ticks = 0, remaining_time_slice = 0,
     default_time_slice = 0, preempt_return_rip = 0, preempt_return_rflags = 0, wakeup_tick = 0,
     sleeping = False, syscall_active = False, syscall_nesting = 0, saved_stack_pointer = 0,
     saved_rflags = 0, saved_context_valid = False, running_cpu = 0, t_cpu_time_ticks = 0,
     context_switch_pending = False, kernel_stack_base = 0, kernel_stack_size = 0,
     stack_external = False, waiting_mutex = None, mutex_wait_next = None,
     mutex_wake_pending = False, t_next = None, t_previous = None, t_name = [], t_process = None\<rparr>"

record thread_ready_queue =
  rq_head :: ptr
  rq_tail :: ptr
  rq_count :: nat

definition empty_queue :: thread_ready_queue where
  "empty_queue = \<lparr>rq_head = None, rq_tail = None, rq_count = 0\<rparr>"

record cpu_local =
  cpu_present :: bool
  cpu_bsp :: bool
  cpu_online :: bool
  cpu_current_thread :: ptr
  cpu_idle_thread :: ptr
  preemption_pending :: bool
  context_switching :: bool
  kernel_thread_runs :: u64
  accounted_ticks :: u64
  busy_ticks :: u64

record scheduler_statistics =
  context_switches :: u64
  timer_preemptions :: u64
  voluntary_yields :: u64
  stat_blocks :: u64
  stat_wakeups :: u64
  stat_sleeping :: u64
  stat_blocked :: u64
  peak_runnable :: u64
  idle_runtime_ticks :: u64
  dispatches :: "u64 list"

text \<open>
  The scheduler's globals. \<open>thread_blocks\<close> are the control blocks that are allocated, which bounds
  every walk over linked threads.
\<close>

record scheduler =
  threads :: "addr \<Rightarrow> kernel_thread"
  cpus :: "cpu_local list"
  ready_queues :: "thread_ready_queue list"
  sleeping_threads :: ptr
  next_thread_id :: u64
  scheduler_tick_count :: u64
  scheduler_stats :: scheduler_statistics
  bootstrap_thread :: addr
  thread_blocks :: "addr list"

definition upd_thread :: "addr \<Rightarrow> (kernel_thread \<Rightarrow> kernel_thread) \<Rightarrow> scheduler \<Rightarrow> scheduler" where
  "upd_thread a f s = s\<lparr>threads := (threads s)(a := f (threads s a))\<rparr>"

definition upd_queue ::
    "nat \<Rightarrow> (thread_ready_queue \<Rightarrow> thread_ready_queue) \<Rightarrow> scheduler \<Rightarrow> scheduler" where
  "upd_queue p f s = s\<lparr>ready_queues := (ready_queues s)[p := f (ready_queues s ! p)]\<rparr>"

definition upd_cpu :: "nat \<Rightarrow> (cpu_local \<Rightarrow> cpu_local) \<Rightarrow> scheduler \<Rightarrow> scheduler" where
  "upd_cpu c f s = s\<lparr>cpus := (cpus s)[c := f (cpus s ! c)]\<rparr>"

definition upd_stats :: "(scheduler_statistics \<Rightarrow> scheduler_statistics) \<Rightarrow> scheduler \<Rightarrow> scheduler" where
  "upd_stats f s = s\<lparr>scheduler_stats := f (scheduler_stats s)\<rparr>"

text \<open>The CPU-local variables the source names by macros, for the executing CPU \<open>c\<close>.\<close>

abbreviation current_thread :: "nat \<Rightarrow> scheduler \<Rightarrow> ptr" where
  "current_thread c s \<equiv> cpu_current_thread (cpus s ! c)"

abbreviation idle_thread :: "nat \<Rightarrow> scheduler \<Rightarrow> ptr" where
  "idle_thread c s \<equiv> cpu_idle_thread (cpus s ! c)"

lemma upd_sel [simp]:
  "threads (upd_thread a f s) = (threads s)(a := f (threads s a))"
  "cpus (upd_thread a f s) = cpus s"
  "ready_queues (upd_thread a f s) = ready_queues s"
  "sleeping_threads (upd_thread a f s) = sleeping_threads s"
  "next_thread_id (upd_thread a f s) = next_thread_id s"
  "bootstrap_thread (upd_thread a f s) = bootstrap_thread s"
  "thread_blocks (upd_thread a f s) = thread_blocks s"
  "scheduler_tick_count (upd_thread a f s) = scheduler_tick_count s"
  "threads (upd_queue p g s) = threads s"
  "cpus (upd_queue p g s) = cpus s"
  "ready_queues (upd_queue p g s) = (ready_queues s)[p := g (ready_queues s ! p)]"
  "sleeping_threads (upd_queue p g s) = sleeping_threads s"
  "next_thread_id (upd_queue p g s) = next_thread_id s"
  "bootstrap_thread (upd_queue p g s) = bootstrap_thread s"
  "thread_blocks (upd_queue p g s) = thread_blocks s"
  "scheduler_tick_count (upd_queue p g s) = scheduler_tick_count s"
  "threads (upd_cpu c h s) = threads s"
  "cpus (upd_cpu c h s) = (cpus s)[c := h (cpus s ! c)]"
  "ready_queues (upd_cpu c h s) = ready_queues s"
  "sleeping_threads (upd_cpu c h s) = sleeping_threads s"
  "next_thread_id (upd_cpu c h s) = next_thread_id s"
  "bootstrap_thread (upd_cpu c h s) = bootstrap_thread s"
  "thread_blocks (upd_cpu c h s) = thread_blocks s"
  "scheduler_tick_count (upd_cpu c h s) = scheduler_tick_count s"
  "threads (upd_stats k s) = threads s"
  "cpus (upd_stats k s) = cpus s"
  "ready_queues (upd_stats k s) = ready_queues s"
  "sleeping_threads (upd_stats k s) = sleeping_threads s"
  "next_thread_id (upd_stats k s) = next_thread_id s"
  "bootstrap_thread (upd_stats k s) = bootstrap_thread s"
  "thread_blocks (upd_stats k s) = thread_blocks s"
  "scheduler_tick_count (upd_stats k s) = scheduler_tick_count s"
  by (simp_all add: upd_thread_def upd_queue_def upd_cpu_def upd_stats_def)

subsection \<open>List primitives\<close>

definition thread_priority_valid :: "thread_priority \<Rightarrow> bool" where
  "thread_priority_valid p \<longleftrightarrow> THREAD_PRIORITY_HIGH \<le> p \<and> p \<le> THREAD_PRIORITY_BACKGROUND"

lemma thread_priority_valid_iff [simp]: "thread_priority_valid p \<longleftrightarrow> p < 3"
  by (auto simp: thread_priority_valid_def priority_defs)

text \<open>Linking a thread behind the tail of a ready queue, the body of \<^verbatim>\<open>scheduler_enqueue_locked\<close>.\<close>

definition queue_append :: "scheduler \<Rightarrow> addr \<Rightarrow> scheduler" where
  "queue_append s t =
     (let p = effective_priority (threads s t);
          tail = rq_tail (ready_queues s ! p);
          s1 = upd_thread t (\<lambda>x. x\<lparr>ready_wait_ticks := 0, t_previous := tail, t_next := None,
                 queued := True\<rparr>) s;
          s2 = (case tail of Some z \<Rightarrow> upd_thread z (\<lambda>x. x\<lparr>t_next := Some t\<rparr>) s1
                | None \<Rightarrow> upd_queue p (\<lambda>q. q\<lparr>rq_head := Some t\<rparr>) s1)
      in upd_queue p (\<lambda>q. q\<lparr>rq_tail := Some t, rq_count := rq_count q + 1\<rparr>) s2)"

definition scheduler_remove_queued_locked :: "scheduler \<Rightarrow> addr \<Rightarrow> scheduler" where
  "scheduler_remove_queued_locked s t =
     (let p = effective_priority (threads s t) in
      if \<not> queued (threads s t) \<or> \<not> thread_priority_valid p then s
      else let
          s1 = (case t_previous (threads s t) of
                  Some a \<Rightarrow> upd_thread a (\<lambda>x. x\<lparr>t_next := t_next (threads s t)\<rparr>) s
                | None \<Rightarrow> upd_queue p (\<lambda>q. q\<lparr>rq_head := t_next (threads s t)\<rparr>) s);
          s2 = (case t_next (threads s1 t) of
                  Some b \<Rightarrow> upd_thread b (\<lambda>x. x\<lparr>t_previous := t_previous (threads s1 t)\<rparr>) s1
                | None \<Rightarrow> upd_queue p (\<lambda>q. q\<lparr>rq_tail := t_previous (threads s1 t)\<rparr>) s1);
          s3 = upd_queue p (\<lambda>q. q\<lparr>rq_count := rq_count q - 1\<rparr>) s2
        in upd_thread t (\<lambda>x. x\<lparr>t_next := None, t_previous := None, queued := False\<rparr>) s3)"

text \<open>
  The cursor of \<^verbatim>\<open>sleeping_remove\<close> is the address of a link: the list head (\<open>None\<close>) or the
  \<open>next\<close> field of a thread.
\<close>

definition link_at :: "scheduler \<Rightarrow> ptr \<Rightarrow> ptr" where
  "link_at s cursor = (case cursor of None \<Rightarrow> sleeping_threads s | Some a \<Rightarrow> t_next (threads s a))"

definition set_link :: "scheduler \<Rightarrow> ptr \<Rightarrow> ptr \<Rightarrow> scheduler" where
  "set_link s cursor v = (case cursor of None \<Rightarrow> s\<lparr>sleeping_threads := v\<rparr>
     | Some a \<Rightarrow> upd_thread a (\<lambda>x. x\<lparr>t_next := v\<rparr>) s)"

fun sleeping_unlink :: "nat \<Rightarrow> scheduler \<Rightarrow> ptr \<Rightarrow> addr \<Rightarrow> scheduler" where
  "sleeping_unlink 0 s cursor t = s"
| "sleeping_unlink (Suc n) s cursor t = (case link_at s cursor of None \<Rightarrow> s
     | Some a \<Rightarrow> if a = t then set_link s cursor (t_next (threads s t))
         else sleeping_unlink n s (Some a) t)"

definition sleeping_remove :: "scheduler \<Rightarrow> addr \<Rightarrow> scheduler" where
  "sleeping_remove s t =
     (if \<not> sleeping (threads s t) then s
      else upd_thread t (\<lambda>x. x\<lparr>t_next := None, sleeping := False, wakeup_tick := 0\<rparr>)
        (sleeping_unlink (length (thread_blocks s)) s None t))"

text \<open>Pushing a thread on the sleep list, the three assignments of \<^verbatim>\<open>scheduler_sleep\<close>.\<close>

definition sleeping_push :: "scheduler \<Rightarrow> addr \<Rightarrow> scheduler" where
  "sleeping_push s t = (upd_thread t (\<lambda>x. x\<lparr>t_next := sleeping_threads s, sleeping := True\<rparr>) s)
     \<lparr>sleeping_threads := Some t\<rparr>"

subsection \<open>What the lists hold\<close>

abbreviation nxt :: "scheduler \<Rightarrow> addr \<Rightarrow> ptr" where "nxt s \<equiv> \<lambda>a. t_next (threads s a)"
abbreviation prv :: "scheduler \<Rightarrow> addr \<Rightarrow> ptr" where "prv s \<equiv> \<lambda>a. t_previous (threads s a)"

text \<open>A ready queue as a doubly linked list with these elements.\<close>

definition ready_repr :: "scheduler \<Rightarrow> nat \<Rightarrow> addr list \<Rightarrow> bool" where
  "ready_repr s p xs \<longleftrightarrow> path (nxt s) (rq_head (ready_queues s ! p)) xs \<and>
     path (prv s) (rq_tail (ready_queues s ! p)) (rev xs) \<and>
     rq_count (ready_queues s ! p) = length xs"

lemma ready_reprD:
  assumes "ready_repr s p xs"
  shows "rq_head (ready_queues s ! p) = first xs" "rq_tail (ready_queues s ! p) = first (rev xs)"
    "distinct xs"
  using assms by (auto simp: ready_repr_def dest: path_first path_distinct)

lemma ready_repr_cong:
  assumes "\<And>a. a \<in> set xs \<Longrightarrow> nxt s' a = nxt s a \<and> prv s' a = prv s a"
    and "ready_queues s' ! p = ready_queues s ! p"
  shows "ready_repr s' p xs = ready_repr s p xs"
  using path_cong [of xs "nxt s'" "nxt s"] path_cong [of "rev xs" "prv s'" "prv s"] assms
  by (simp add: ready_repr_def)

lemma first_rev: "first (rev xs) = (if xs = [] then None else Some (last xs))"
  by (cases xs rule: rev_cases) auto

lemma nxt_upd [simp]: "nxt (upd_thread a f s) = (nxt s)(a := t_next (f (threads s a)))"
  by auto

lemma prv_upd [simp]: "prv (upd_thread a f s) = (prv s)(a := t_previous (f (threads s a)))"
  by auto

text \<open>Appending.\<close>

lemma queue_append_threads:
  assumes "ready_repr s (effective_priority (threads s t)) xs" "t \<notin> set xs"
  shows "nxt (queue_append s t) = (if xs = [] then (nxt s)(t := None)
      else (nxt s)(t := None, last xs := Some t))"
    and "prv (queue_append s t) = (prv s)(t := first (rev xs))"
  using assms ready_reprD [OF assms(1)]
  by (auto simp: queue_append_def Let_def fun_eq_iff first_rev)

lemma queue_append_repr:
  assumes "ready_repr s p xs" "t \<notin> set xs" "p = effective_priority (threads s t)"
    and "p < length (ready_queues s)"
  shows "ready_repr (queue_append s t) p (xs @ [t])"
proof -
  let ?s = "queue_append s t"
  note th = queue_append_threads [OF assms(1) [unfolded assms(3)] assms(2)]
  have q: "ready_queues ?s ! p = \<lparr>rq_head = first (xs @ [t]), rq_tail = Some t, rq_count = length xs + 1\<rparr>"
    using assms ready_reprD [OF assms(1)]
    by (auto simp: queue_append_def Let_def first_rev first_append ready_repr_def split: option.splits)
  have "path (nxt ?s) (first (xs @ [t])) (xs @ [t])"
  proof -
    have "path ((nxt s)(t := None)) (first xs) xs"
      using assms(1,2) ready_reprD(1) [OF assms(1)] by (simp add: ready_repr_def)
    from path_link_last [OF this assms(2)] show ?thesis
      using th(1) by (auto simp: first_append)
  qed
  moreover have "path (prv ?s) (Some t) (t # rev xs)"
    using assms(1,2) ready_reprD(2) [OF assms(1)] th(2) by (simp add: ready_repr_def)
  ultimately show ?thesis using q by (simp add: ready_repr_def)
qed

text \<open>Unlinking from a ready queue.\<close>

lemma ready_repr_links:
  assumes "ready_repr s p (ys @ t # zs)"
  shows "nxt s t = first zs" "prv s t = first (rev ys)"
  using assms path_next [of "nxt s" _ ys t zs] path_next [of "prv s" _ "rev zs" t "rev ys"]
  by (auto simp: ready_repr_def)

lemma remove_queued_threads:
  assumes "ready_repr s p (ys @ t # zs)" "queued (threads s t)" "effective_priority (threads s t) = p"
    and "p < 3"
  shows "nxt (scheduler_remove_queued_locked s t) =
      (if ys = [] then nxt s else (nxt s)(last ys := first zs))(t := None)"
    and "prv (scheduler_remove_queued_locked s t) =
      (if zs = [] then prv s else (prv s)(hd zs := first (rev ys)))(t := None)"
    and "length (ready_queues s) = 3 \<Longrightarrow> ready_queues (scheduler_remove_queued_locked s t) ! p =
      \<lparr>rq_head = first (ys @ zs), rq_tail = first (rev (ys @ zs)), rq_count = length (ys @ zs)\<rparr>"
proof -
  note links = ready_repr_links [OF assms(1)]
  have d: "distinct (ys @ t # zs)" by (rule ready_reprD(3) [OF assms(1)])
  have ly: "last ys \<noteq> t" if "ys \<noteq> []" using d last_in_set [OF that] by auto
  have hz: "hd zs \<noteq> t" if "zs \<noteq> []" using d hd_in_set [OF that] by auto
  have fz: "first zs = (if zs = [] then None else Some (hd zs))" by (cases zs) auto
  show "nxt (scheduler_remove_queued_locked s t) =
      (if ys = [] then nxt s else (nxt s)(last ys := first zs))(t := None)"
    using links assms ly hz fz
    by (auto simp: scheduler_remove_queued_locked_def Let_def fun_eq_iff first_rev)
  show "prv (scheduler_remove_queued_locked s t) =
      (if zs = [] then prv s else (prv s)(hd zs := first (rev ys)))(t := None)"
    using links assms ly hz fz
    by (auto simp: scheduler_remove_queued_locked_def Let_def fun_eq_iff first_rev)
  assume "length (ready_queues s) = 3"
  then show "ready_queues (scheduler_remove_queued_locked s t) ! p =
      \<lparr>rq_head = first (ys @ zs), rq_tail = first (rev (ys @ zs)), rq_count = length (ys @ zs)\<rparr>"
    using links assms ly hz fz ready_reprD [OF assms(1)]
    by (auto simp: scheduler_remove_queued_locked_def Let_def first_rev first_append ready_repr_def)
qed

lemma remove_queued_repr:
  assumes "ready_repr s p xs" "t \<in> set xs" "queued (threads s t)"
    and "effective_priority (threads s t) = p" "p < 3" "length (ready_queues s) = 3"
  shows "ready_repr (scheduler_remove_queued_locked s t) p (remove1 t xs)"
proof -
  from assms(1) have "path (nxt s) (first xs) xs"
    using ready_reprD(1) by (auto simp: ready_repr_def)
  then obtain ys zs where xs: "xs = ys @ t # zs" "t \<notin> set ys" "t \<notin> set zs"
    by (rule path_mem_split [OF _ assms(2)])
  note repr = assms(1) [unfolded xs(1)]
  note th = remove_queued_threads [OF repr assms(3,4,5)]
  note links = ready_repr_links [OF repr]
  let ?s = "scheduler_remove_queued_locked s t"
  have "path (if ys = [] then nxt s else (nxt s)(last ys := first zs)) (first (ys @ zs)) (ys @ zs)"
    using path_unlink [of "nxt s" "first (ys @ t # zs)" ys t zs] repr ready_reprD(1) [OF repr] links
    by (cases ys) (auto simp: ready_repr_def)
  then have n: "path (nxt ?s) (first (ys @ zs)) (ys @ zs)"
    unfolding th(1) using xs(2,3) by simp
  have "path (if zs = [] then prv s else (prv s)(hd zs := first (rev ys))) (first (rev (ys @ zs)))
      (rev zs @ rev ys)"
    using path_unlink [of "prv s" "first (rev (ys @ t # zs))" "rev zs" t "rev ys"] repr
      ready_reprD(2) [OF repr] links
    by (cases zs) (auto simp: ready_repr_def last_rev first_append)
  then have "path (prv ?s) (first (rev (ys @ zs))) (rev (ys @ zs))"
    unfolding th(2) using xs(2,3) by simp
  with n th(3) [OF assms(6)] show ?thesis
    by (simp add: ready_repr_def xs remove1_split)
qed

text \<open>What the primitives leave alone.\<close>

lemma queue_append_other:
  assumes "ready_repr s (effective_priority (threads s t)) xs" "t \<notin> set xs"
    and "a \<noteq> t" "a \<notin> set xs"
  shows "nxt (queue_append s t) a = nxt s a \<and> prv (queue_append s t) a = prv s a"
proof -
  have "a \<noteq> last xs" if "xs \<noteq> []" using assms(4) last_in_set [OF that] by auto
  then show ?thesis
    using queue_append_threads [OF assms(1,2)] assms(3) by (cases "xs = []") (auto simp: fun_eq_iff)
qed

lemma remove_queued_other:
  assumes "ready_repr s p xs" "t \<in> set xs" "queued (threads s t)"
    and "effective_priority (threads s t) = p" "p < 3" "a \<notin> set xs"
  shows "nxt (scheduler_remove_queued_locked s t) a = nxt s a \<and>
    prv (scheduler_remove_queued_locked s t) a = prv s a"
proof -
  obtain ys zs where xs: "xs = ys @ t # zs" using split_list [OF assms(2)] by blast
  have "a \<noteq> last ys" if "ys \<noteq> []" using assms(6) xs last_in_set [OF that] by auto
  moreover have "a \<noteq> hd zs" if "zs \<noteq> []" using assms(6) xs hd_in_set [OF that] by auto
  ultimately show ?thesis
    using remove_queued_threads(1,2) [OF assms(1) [unfolded xs] assms(3-5)] assms(6) xs
    by (auto simp: fun_eq_iff)
qed

lemma queue_append_queues:
  "p \<noteq> effective_priority (threads s t) \<Longrightarrow> ready_queues (queue_append s t) ! p = ready_queues s ! p"
  "length (ready_queues (queue_append s t)) = length (ready_queues s)"
  by (auto simp: queue_append_def Let_def split: option.splits)

lemma remove_queued_queues:
  "p \<noteq> effective_priority (threads s t) \<Longrightarrow>
    ready_queues (scheduler_remove_queued_locked s t) ! p = ready_queues s ! p"
  "length (ready_queues (scheduler_remove_queued_locked s t)) = length (ready_queues s)"
  by (auto simp: scheduler_remove_queued_locked_def Let_def split: option.splits)

text \<open>The sleep list.\<close>

lemma sleeping_unlink_spec:
  assumes "path (nxt s) (link_at s cursor) (ys @ t # zs)" "length ys < n" "t \<notin> set ys"
    and "\<forall>a. cursor = Some a \<longrightarrow> a \<notin> set (ys @ t # zs)"
  shows "sleeping_unlink n s cursor t =
    set_link s (if ys = [] then cursor else Some (last ys)) (nxt s t)"
  using assms
proof (induction ys arbitrary: n cursor)
  case Nil
  then show ?case by (cases n) auto
next
  case (Cons y ys)
  from Cons.prems obtain m where n: "n = Suc m" by (cases n) auto
  have p: "path (nxt s) (nxt s y) (ys @ t # zs)" "link_at s cursor = Some y"
    using Cons.prems(1) by auto
  have d: "y \<notin> set (ys @ t # zs)" using path_distinct [OF Cons.prems(1)] by simp
  have "sleeping_unlink m s (Some y) t = set_link s (if ys = [] then Some y else Some (last ys)) (nxt s t)"
    using Cons.IH [of "Some y" m] p Cons.prems(2,3) n d by (simp add: link_at_def)
  then show ?case using n p(2) Cons.prems(3) by auto
qed

text \<open>What the primitives do to the other fields.\<close>

lemma queue_append_fields [simp]:
  "t_state (threads (queue_append s t) a) = t_state (threads s a)"
  "base_priority (threads (queue_append s t) a) = base_priority (threads s a)"
  "effective_priority (threads (queue_append s t) a) = effective_priority (threads s a)"
  "wakeup_boosted (threads (queue_append s t) a) = wakeup_boosted (threads s a)"
  "saved_stack_pointer (threads (queue_append s t) a) = saved_stack_pointer (threads s a)"
  "saved_rflags (threads (queue_append s t) a) = saved_rflags (threads s a)"
  "saved_context_valid (threads (queue_append s t) a) = saved_context_valid (threads s a)"
  "running_cpu (threads (queue_append s t) a) = running_cpu (threads s a)"
  "context_switch_pending (threads (queue_append s t) a) = context_switch_pending (threads s a)"
  "kernel_stack_base (threads (queue_append s t) a) = kernel_stack_base (threads s a)"
  "kernel_stack_size (threads (queue_append s t) a) = kernel_stack_size (threads s a)"
  "stack_external (threads (queue_append s t) a) = stack_external (threads s a)"
  "waiting_mutex (threads (queue_append s t) a) = waiting_mutex (threads s a)"
  "mutex_wake_pending (threads (queue_append s t) a) = mutex_wake_pending (threads s a)"
  "sleeping (threads (queue_append s t) a) = sleeping (threads s a)"
  "wakeup_tick (threads (queue_append s t) a) = wakeup_tick (threads s a)"
  "queued (threads (queue_append s t) a) \<longleftrightarrow> a = t \<or> queued (threads s a)"
  "sleeping_threads (queue_append s t) = sleeping_threads s"
  "cpus (queue_append s t) = cpus s"
  "thread_blocks (queue_append s t) = thread_blocks s"
  "bootstrap_thread (queue_append s t) = bootstrap_thread s"
  "scheduler_tick_count (queue_append s t) = scheduler_tick_count s"
  by (auto simp: queue_append_def Let_def split: option.splits)

lemma remove_queued_fields [simp]:
  "t_state (threads (scheduler_remove_queued_locked s t) a) = t_state (threads s a)"
  "base_priority (threads (scheduler_remove_queued_locked s t) a) = base_priority (threads s a)"
  "effective_priority (threads (scheduler_remove_queued_locked s t) a) = effective_priority (threads s a)"
  "wakeup_boosted (threads (scheduler_remove_queued_locked s t) a) = wakeup_boosted (threads s a)"
  "saved_stack_pointer (threads (scheduler_remove_queued_locked s t) a) = saved_stack_pointer (threads s a)"
  "saved_rflags (threads (scheduler_remove_queued_locked s t) a) = saved_rflags (threads s a)"
  "saved_context_valid (threads (scheduler_remove_queued_locked s t) a) = saved_context_valid (threads s a)"
  "running_cpu (threads (scheduler_remove_queued_locked s t) a) = running_cpu (threads s a)"
  "context_switch_pending (threads (scheduler_remove_queued_locked s t) a) = context_switch_pending (threads s a)"
  "kernel_stack_base (threads (scheduler_remove_queued_locked s t) a) = kernel_stack_base (threads s a)"
  "kernel_stack_size (threads (scheduler_remove_queued_locked s t) a) = kernel_stack_size (threads s a)"
  "stack_external (threads (scheduler_remove_queued_locked s t) a) = stack_external (threads s a)"
  "waiting_mutex (threads (scheduler_remove_queued_locked s t) a) = waiting_mutex (threads s a)"
  "mutex_wake_pending (threads (scheduler_remove_queued_locked s t) a) = mutex_wake_pending (threads s a)"
  "sleeping (threads (scheduler_remove_queued_locked s t) a) = sleeping (threads s a)"
  "wakeup_tick (threads (scheduler_remove_queued_locked s t) a) = wakeup_tick (threads s a)"
  "queued (threads (scheduler_remove_queued_locked s t) a) \<longleftrightarrow>
    queued (threads s a) \<and> (a = t \<longrightarrow> \<not> thread_priority_valid (effective_priority (threads s t)))"
  "sleeping_threads (scheduler_remove_queued_locked s t) = sleeping_threads s"
  "cpus (scheduler_remove_queued_locked s t) = cpus s"
  "thread_blocks (scheduler_remove_queued_locked s t) = thread_blocks s"
  "bootstrap_thread (scheduler_remove_queued_locked s t) = bootstrap_thread s"
  "scheduler_tick_count (scheduler_remove_queued_locked s t) = scheduler_tick_count s"
  by (auto simp: scheduler_remove_queued_locked_def Let_def split: option.splits)

lemma set_link_fields [simp]:
  "t_state (threads (set_link s cursor v) a) = t_state (threads s a)"
  "base_priority (threads (set_link s cursor v) a) = base_priority (threads s a)"
  "effective_priority (threads (set_link s cursor v) a) = effective_priority (threads s a)"
  "wakeup_boosted (threads (set_link s cursor v) a) = wakeup_boosted (threads s a)"
  "saved_stack_pointer (threads (set_link s cursor v) a) = saved_stack_pointer (threads s a)"
  "saved_rflags (threads (set_link s cursor v) a) = saved_rflags (threads s a)"
  "saved_context_valid (threads (set_link s cursor v) a) = saved_context_valid (threads s a)"
  "running_cpu (threads (set_link s cursor v) a) = running_cpu (threads s a)"
  "context_switch_pending (threads (set_link s cursor v) a) = context_switch_pending (threads s a)"
  "kernel_stack_base (threads (set_link s cursor v) a) = kernel_stack_base (threads s a)"
  "kernel_stack_size (threads (set_link s cursor v) a) = kernel_stack_size (threads s a)"
  "stack_external (threads (set_link s cursor v) a) = stack_external (threads s a)"
  "waiting_mutex (threads (set_link s cursor v) a) = waiting_mutex (threads s a)"
  "mutex_wake_pending (threads (set_link s cursor v) a) = mutex_wake_pending (threads s a)"
  "sleeping (threads (set_link s cursor v) a) = sleeping (threads s a)"
  "wakeup_tick (threads (set_link s cursor v) a) = wakeup_tick (threads s a)"
  "queued (threads (set_link s cursor v) a) = queued (threads s a)"
  "t_previous (threads (set_link s cursor v) a) = t_previous (threads s a)"
  "ready_queues (set_link s cursor v) = ready_queues s"
  "cpus (set_link s cursor v) = cpus s"
  "thread_blocks (set_link s cursor v) = thread_blocks s"
  "bootstrap_thread (set_link s cursor v) = bootstrap_thread s"
  "scheduler_tick_count (set_link s cursor v) = scheduler_tick_count s"
  by (auto simp: set_link_def fun_eq_iff split: option.splits)

lemma sleeping_unlink_link: "\<exists>h v. sleeping_unlink n s cursor t = s \<or> sleeping_unlink n s cursor t = set_link s h v"
  by (induction n s cursor t rule: sleeping_unlink.induct) (auto split: option.splits)

lemma sleeping_unlink_fields [simp]:
  "t_state (threads (sleeping_unlink n s cursor t) a) = t_state (threads s a)"
  "base_priority (threads (sleeping_unlink n s cursor t) a) = base_priority (threads s a)"
  "effective_priority (threads (sleeping_unlink n s cursor t) a) = effective_priority (threads s a)"
  "wakeup_boosted (threads (sleeping_unlink n s cursor t) a) = wakeup_boosted (threads s a)"
  "saved_stack_pointer (threads (sleeping_unlink n s cursor t) a) = saved_stack_pointer (threads s a)"
  "saved_rflags (threads (sleeping_unlink n s cursor t) a) = saved_rflags (threads s a)"
  "saved_context_valid (threads (sleeping_unlink n s cursor t) a) = saved_context_valid (threads s a)"
  "running_cpu (threads (sleeping_unlink n s cursor t) a) = running_cpu (threads s a)"
  "context_switch_pending (threads (sleeping_unlink n s cursor t) a) = context_switch_pending (threads s a)"
  "kernel_stack_base (threads (sleeping_unlink n s cursor t) a) = kernel_stack_base (threads s a)"
  "kernel_stack_size (threads (sleeping_unlink n s cursor t) a) = kernel_stack_size (threads s a)"
  "stack_external (threads (sleeping_unlink n s cursor t) a) = stack_external (threads s a)"
  "waiting_mutex (threads (sleeping_unlink n s cursor t) a) = waiting_mutex (threads s a)"
  "mutex_wake_pending (threads (sleeping_unlink n s cursor t) a) = mutex_wake_pending (threads s a)"
  "sleeping (threads (sleeping_unlink n s cursor t) a) = sleeping (threads s a)"
  "wakeup_tick (threads (sleeping_unlink n s cursor t) a) = wakeup_tick (threads s a)"
  "queued (threads (sleeping_unlink n s cursor t) a) = queued (threads s a)"
  "t_previous (threads (sleeping_unlink n s cursor t) a) = t_previous (threads s a)"
  "ready_queues (sleeping_unlink n s cursor t) = ready_queues s"
  "cpus (sleeping_unlink n s cursor t) = cpus s"
  "thread_blocks (sleeping_unlink n s cursor t) = thread_blocks s"
  "bootstrap_thread (sleeping_unlink n s cursor t) = bootstrap_thread s"
  "scheduler_tick_count (sleeping_unlink n s cursor t) = scheduler_tick_count s"
  using sleeping_unlink_link [of n s cursor t] by (auto simp del: fun_upd_apply)

lemma sleeping_remove_fields [simp]:
  "t_state (threads (sleeping_remove s t) a) = t_state (threads s a)"
  "base_priority (threads (sleeping_remove s t) a) = base_priority (threads s a)"
  "effective_priority (threads (sleeping_remove s t) a) = effective_priority (threads s a)"
  "wakeup_boosted (threads (sleeping_remove s t) a) = wakeup_boosted (threads s a)"
  "saved_stack_pointer (threads (sleeping_remove s t) a) = saved_stack_pointer (threads s a)"
  "saved_rflags (threads (sleeping_remove s t) a) = saved_rflags (threads s a)"
  "saved_context_valid (threads (sleeping_remove s t) a) = saved_context_valid (threads s a)"
  "running_cpu (threads (sleeping_remove s t) a) = running_cpu (threads s a)"
  "context_switch_pending (threads (sleeping_remove s t) a) = context_switch_pending (threads s a)"
  "kernel_stack_base (threads (sleeping_remove s t) a) = kernel_stack_base (threads s a)"
  "kernel_stack_size (threads (sleeping_remove s t) a) = kernel_stack_size (threads s a)"
  "stack_external (threads (sleeping_remove s t) a) = stack_external (threads s a)"
  "waiting_mutex (threads (sleeping_remove s t) a) = waiting_mutex (threads s a)"
  "mutex_wake_pending (threads (sleeping_remove s t) a) = mutex_wake_pending (threads s a)"
  "queued (threads (sleeping_remove s t) a) = queued (threads s a)"
  "sleeping (threads (sleeping_remove s t) a) \<longleftrightarrow> a \<noteq> t \<and> sleeping (threads s a)"
  "a \<noteq> t \<Longrightarrow> wakeup_tick (threads (sleeping_remove s t) a) = wakeup_tick (threads s a)"
  "t_previous (threads (sleeping_remove s t) a) = t_previous (threads s a)"
  "ready_queues (sleeping_remove s t) = ready_queues s"
  "cpus (sleeping_remove s t) = cpus s"
  "thread_blocks (sleeping_remove s t) = thread_blocks s"
  "bootstrap_thread (sleeping_remove s t) = bootstrap_thread s"
  "scheduler_tick_count (sleeping_remove s t) = scheduler_tick_count s"
  by (auto simp: sleeping_remove_def)

lemma sleeping_push_fields [simp]:
  "t_state (threads (sleeping_push s t) a) = t_state (threads s a)"
  "base_priority (threads (sleeping_push s t) a) = base_priority (threads s a)"
  "effective_priority (threads (sleeping_push s t) a) = effective_priority (threads s a)"
  "wakeup_boosted (threads (sleeping_push s t) a) = wakeup_boosted (threads s a)"
  "saved_stack_pointer (threads (sleeping_push s t) a) = saved_stack_pointer (threads s a)"
  "saved_rflags (threads (sleeping_push s t) a) = saved_rflags (threads s a)"
  "saved_context_valid (threads (sleeping_push s t) a) = saved_context_valid (threads s a)"
  "running_cpu (threads (sleeping_push s t) a) = running_cpu (threads s a)"
  "context_switch_pending (threads (sleeping_push s t) a) = context_switch_pending (threads s a)"
  "kernel_stack_base (threads (sleeping_push s t) a) = kernel_stack_base (threads s a)"
  "kernel_stack_size (threads (sleeping_push s t) a) = kernel_stack_size (threads s a)"
  "stack_external (threads (sleeping_push s t) a) = stack_external (threads s a)"
  "waiting_mutex (threads (sleeping_push s t) a) = waiting_mutex (threads s a)"
  "mutex_wake_pending (threads (sleeping_push s t) a) = mutex_wake_pending (threads s a)"
  "queued (threads (sleeping_push s t) a) = queued (threads s a)"
  "wakeup_tick (threads (sleeping_push s t) a) = wakeup_tick (threads s a)"
  "sleeping (threads (sleeping_push s t) a) \<longleftrightarrow> a = t \<or> sleeping (threads s a)"
  "sleeping_threads (sleeping_push s t) = Some t"
  "t_previous (threads (sleeping_push s t) a) = t_previous (threads s a)"
  "t_next (threads (sleeping_push s t) a) = (if a = t then sleeping_threads s else t_next (threads s a))"
  "ready_queues (sleeping_push s t) = ready_queues s"
  "cpus (sleeping_push s t) = cpus s"
  "thread_blocks (sleeping_push s t) = thread_blocks s"
  "bootstrap_thread (sleeping_push s t) = bootstrap_thread s"
  "scheduler_tick_count (sleeping_push s t) = scheduler_tick_count s"
  by (auto simp: sleeping_push_def fun_eq_iff)

subsection \<open>The list invariant\<close>

text \<open>
  The ready queues hold the lists \<open>rq 0\<close>, \<open>rq 1\<close>, \<open>rq 2\<close> and the sleep list holds \<open>sl\<close>: the links
  spell them out, and the flags of a thread say which list it is on.
\<close>

definition lists_wf :: "scheduler \<Rightarrow> (nat \<Rightarrow> addr list) \<Rightarrow> addr list \<Rightarrow> bool" where
  "lists_wf s rq sl \<longleftrightarrow> length (ready_queues s) = 3 \<and> (\<forall>p<3. ready_repr s p (rq p)) \<and>
     path (nxt s) (sleeping_threads s) sl \<and>
     (\<forall>t. queued (threads s t) \<longleftrightarrow> (\<exists>p<3. t \<in> set (rq p))) \<and>
     (\<forall>p<3. \<forall>t\<in>set (rq p). effective_priority (threads s t) = p) \<and>
     (\<forall>t. sleeping (threads s t) \<longleftrightarrow> t \<in> set sl) \<and>
     (\<forall>t. \<not> (queued (threads s t) \<and> sleeping (threads s t))) \<and> set sl \<subseteq> set (thread_blocks s)"

lemma lists_wfD:
  assumes "lists_wf s rq sl"
  shows "length (ready_queues s) = 3" "p < 3 \<Longrightarrow> ready_repr s p (rq p)"
    "path (nxt s) (sleeping_threads s) sl"
    "queued (threads s t) \<longleftrightarrow> (\<exists>p<3. t \<in> set (rq p))"
    "p < 3 \<Longrightarrow> t \<in> set (rq p) \<Longrightarrow> effective_priority (threads s t) = p"
    "sleeping (threads s t) \<longleftrightarrow> t \<in> set sl"
    "queued (threads s t) \<Longrightarrow> \<not> sleeping (threads s t)"
    "set sl \<subseteq> set (thread_blocks s)"
  using assms unfolding lists_wf_def by blast+

lemma lists_wfI:
  assumes "length (ready_queues s) = 3" "\<And>p. p < 3 \<Longrightarrow> ready_repr s p (rq p)"
    and "path (nxt s) (sleeping_threads s) sl"
    and "\<And>t. queued (threads s t) \<longleftrightarrow> (\<exists>p<3. t \<in> set (rq p))"
    and "\<And>p t. p < 3 \<Longrightarrow> t \<in> set (rq p) \<Longrightarrow> effective_priority (threads s t) = p"
    and "\<And>t. sleeping (threads s t) \<longleftrightarrow> t \<in> set sl"
    and "\<And>p t. p < 3 \<Longrightarrow> t \<in> set (rq p) \<Longrightarrow> t \<notin> set sl"
    and "set sl \<subseteq> set (thread_blocks s)"
  shows "lists_wf s rq sl"
  unfolding lists_wf_def using assms by blast

lemma lists_wf_apart: "lists_wf s rq sl \<Longrightarrow> p < 3 \<Longrightarrow> t \<in> set (rq p) \<Longrightarrow> t \<notin> set sl"
  using lists_wfD(4,6,7) by blast

lemma lists_wf_queued:
  assumes "lists_wf s rq sl" "queued (threads s t)"
  shows "effective_priority (threads s t) < 3" "t \<in> set (rq (effective_priority (threads s t)))"
  using lists_wfD(4,5) [OF assms(1)] assms(2) by auto

lemma lists_wf_mem:
  assumes "lists_wf s rq sl" "p < 3"
  shows "t \<in> set (rq p) \<longleftrightarrow> queued (threads s t) \<and> effective_priority (threads s t) = p"
  using lists_wfD(4,5) [OF assms(1)] assms(2) by auto

lemma lists_wf_length: "lists_wf s rq sl \<Longrightarrow> length sl \<le> length (thread_blocks s)"
  using path_distinct [OF lists_wfD(3)] lists_wfD(8)
  by (metis card_length card_mono distinct_card finite_set order_trans)

lemma ready_repr_eq:
  assumes "ready_repr s p xs" "ready_queues s' ! p = ready_queues s ! p"
    and "\<And>a. a \<in> set xs \<Longrightarrow> nxt s' a = nxt s a \<and> prv s' a = prv s a"
  shows "ready_repr s' p xs"
  using ready_repr_cong [OF assms(3,2)] assms(1) by simp

lemma path_eq:
  assumes "path nx p xs" "\<And>a. a \<in> set xs \<Longrightarrow> ny a = nx a"
  shows "path ny p xs"
  using path_cong [of xs ny nx p] assms by simp

lemma queue_append_wf:
  assumes wf: "lists_wf s rq sl" and t: "\<not> queued (threads s t)" "\<not> sleeping (threads s t)"
    and p: "effective_priority (threads s t) = p" "p < 3"
  shows "lists_wf (queue_append s t) (rq(p := rq p @ [t])) sl"
proof -
  note mem = lists_wf_mem [OF wf]
  have nt: "t \<notin> set (rq p)" using mem [OF p(2)] t by simp
  note repr = lists_wfD(2) [OF wf p(2)]
  note other = queue_append_other [OF repr [folded p(1)] nt [folded p(1)]]
  have "ready_repr (queue_append s t) p (rq p @ [t])"
    by (rule queue_append_repr [OF repr nt p(1) [symmetric]]) (use lists_wfD(1) [OF wf] p in simp)
  moreover have "ready_repr (queue_append s t) q (rq q)" if q: "q < 3" "q \<noteq> p" for q
  proof (rule ready_repr_eq [OF lists_wfD(2) [OF wf q(1)]])
    fix a assume "a \<in> set (rq q)"
    then have "a \<noteq> t" "a \<notin> set (rq p)" using mem [OF q(1)] mem [OF p(2)] t q by auto
    then show "nxt (queue_append s t) a = nxt s a \<and> prv (queue_append s t) a = prv s a"
      using other p(1) by simp
  qed (use q p in \<open>simp add: queue_append_queues\<close>)
  moreover have "path (nxt (queue_append s t)) (sleeping_threads s) sl"
  proof (rule path_eq [OF lists_wfD(3) [OF wf]])
    fix a assume "a \<in> set sl"
    then have "a \<noteq> t" "a \<notin> set (rq p)" using lists_wfD(6,7) [OF wf] mem [OF p(2)] t by auto
    then show "nxt (queue_append s t) a = nxt s a" using other p(1) by simp
  qed
  ultimately have repr': "\<forall>q<3. ready_repr (queue_append s t) q ((rq(p := rq p @ [t])) q)"
    and path': "path (nxt (queue_append s t)) (sleeping_threads (queue_append s t)) sl"
    by auto
  show ?thesis
  proof (rule lists_wfI)
    show "length (ready_queues (queue_append s t)) = 3"
      using lists_wfD(1) [OF wf] by (simp add: queue_append_queues)
    show "queued (threads (queue_append s t) a) \<longleftrightarrow> (\<exists>q<3. a \<in> set ((rq(p := rq p @ [t])) q))" for a
      using lists_wfD(4) [OF wf, of a] p(2) by auto
    show "effective_priority (threads (queue_append s t) a) = q"
      if "q < 3" "a \<in> set ((rq(p := rq p @ [t])) q)" for q a
      using that mem p by (auto split: if_splits)
    show "a \<notin> set sl" if "q < 3" "a \<in> set ((rq(p := rq p @ [t])) q)" for q a
      using that lists_wf_apart [OF wf] lists_wfD(6) [OF wf] t(2) by (auto split: if_splits)
  qed (use repr' path' lists_wfD(6,8) [OF wf] in auto)
qed

lemma remove_queued_wf:
  assumes wf: "lists_wf s rq sl" and t: "queued (threads s t)"
    and p: "effective_priority (threads s t) = p"
  shows "lists_wf (scheduler_remove_queued_locked s t) (rq(p := remove1 t (rq p))) sl"
proof -
  let ?s = "scheduler_remove_queued_locked s t"
  note mem = lists_wf_mem [OF wf]
  have p3: "p < 3" and tm: "t \<in> set (rq p)" using lists_wf_queued [OF wf t] p by auto
  note repr = lists_wfD(2) [OF wf p3]
  note other = remove_queued_other [OF repr tm t p p3]
  have d: "distinct (rq p)" by (rule ready_reprD(3) [OF repr])
  have "ready_repr (scheduler_remove_queued_locked s t) p (remove1 t (rq p))"
    by (rule remove_queued_repr [OF repr tm t p p3 lists_wfD(1) [OF wf]])
  moreover have "ready_repr (scheduler_remove_queued_locked s t) q (rq q)" if "q < 3" "q \<noteq> p" for q
    by (rule ready_repr_eq [OF lists_wfD(2) [OF wf that(1)]])
      (use mem [OF that(1)] mem [OF p3] that p other in \<open>auto simp: remove_queued_queues\<close>)
  moreover have "path (nxt (scheduler_remove_queued_locked s t)) (sleeping_threads s) sl"
    by (rule path_eq [OF lists_wfD(3) [OF wf]])
      (use lists_wfD(6,7) [OF wf] mem [OF p3] other in auto)
  ultimately have repr': "\<forall>q<3. ready_repr ?s q ((rq(p := remove1 t (rq p))) q)"
    and path': "path (nxt ?s) (sleeping_threads ?s) sl"
    by auto
  show ?thesis
  proof (rule lists_wfI)
    show "length (ready_queues ?s) = 3"
      using lists_wfD(1) [OF wf] by (simp add: remove_queued_queues)
    show "queued (threads ?s a) \<longleftrightarrow> (\<exists>q<3. a \<in> set ((rq(p := remove1 t (rq p))) q))" for a
      using lists_wfD(4) [OF wf, of a] mem p p3 d by auto
    show "effective_priority (threads ?s a) = q"
      if "q < 3" "a \<in> set ((rq(p := remove1 t (rq p))) q)" for q a
      using that mem d by (auto split: if_splits)
    show "a \<notin> set sl" if "q < 3" "a \<in> set ((rq(p := remove1 t (rq p))) q)" for q a
      using that lists_wf_apart [OF wf] d by (auto split: if_splits)
  qed (use repr' path' lists_wfD(6,8) [OF wf] in auto)
qed

lemma sleeping_push_wf:
  assumes wf: "lists_wf s rq sl" and t: "\<not> queued (threads s t)" "\<not> sleeping (threads s t)"
    and b: "t \<in> set (thread_blocks s)"
  shows "lists_wf (sleeping_push s t) rq (t # sl)"
proof -
  have "ready_repr (sleeping_push s t) q (rq q)" if "q < 3" for q
    by (rule ready_repr_eq [OF lists_wfD(2) [OF wf that]])
      (use lists_wf_mem [OF wf that] t in auto)
  moreover have "path (nxt (sleeping_push s t)) (Some t) (t # sl)"
    using path_link_first [OF lists_wfD(3) [OF wf], of t] lists_wfD(6) [OF wf] t
    by (simp add: fun_upd_def)
  ultimately show ?thesis
    using lists_wfD(1,4,5,6,8) [OF wf] lists_wf_apart [OF wf] t b
    by (intro lists_wfI) (simp_all, blast+)
qed

lemma sleeping_remove_wf:
  assumes wf: "lists_wf s rq sl" and t: "sleeping (threads s t)"
  shows "lists_wf (sleeping_remove s t) rq (remove1 t sl)"
proof -
  note path = lists_wfD(3) [OF wf]
  have "t \<in> set sl" using lists_wfD(6) [OF wf] t by simp
  then obtain ys zs where sl: "sl = ys @ t # zs" "t \<notin> set ys" "t \<notin> set zs"
    by (rule path_mem_split [OF path])
  define s1 where "s1 = set_link s (if ys = [] then None else Some (last ys)) (nxt s t)"
  have "sleeping_unlink (length (thread_blocks s)) s None t = s1"
    unfolding s1_def
    by (rule sleeping_unlink_spec [of s None ys t zs])
      (use path sl lists_wf_length [OF wf] in \<open>auto simp: link_at_def\<close>)
  then have sr: "sleeping_remove s t = upd_thread t (\<lambda>x. x\<lparr>t_next := None, sleeping := False, wakeup_tick := 0\<rparr>) s1"
    using t by (simp add: sleeping_remove_def)
  have n1: "nxt s1 = (if ys = [] then nxt s else (nxt s)(last ys := nxt s t))"
    by (auto simp: s1_def set_link_def)
  have h1: "sleeping_threads s1 = (if ys = [] then nxt s t else sleeping_threads s)"
    by (simp add: s1_def set_link_def)
  have "path (nxt s1) (sleeping_threads s1) (ys @ zs)"
    using path_unlink [OF path [unfolded sl(1)]] n1 h1 by simp
  then have "path (nxt (sleeping_remove s t)) (sleeping_threads (sleeping_remove s t)) (ys @ zs)"
    unfolding sr using sl(2,3) by (subst nxt_upd) simp
  moreover have "ready_repr (sleeping_remove s t) q (rq q)" if "q < 3" for q
  proof (rule ready_repr_eq [OF lists_wfD(2) [OF wf that]])
    fix a assume "a \<in> set (rq q)"
    then have "a \<notin> set sl" using lists_wf_mem [OF wf that] lists_wfD(6,7) [OF wf] by auto
    then have "a \<noteq> t" "ys \<noteq> [] \<longrightarrow> a \<noteq> last ys" using sl(1) last_in_set [of ys] by auto
    then have "nxt (sleeping_remove s t) a = nxt s a"
      using fun_cong [OF n1, of a] by (auto simp: sr)
    then show "nxt (sleeping_remove s t) a = nxt s a \<and> prv (sleeping_remove s t) a = prv s a" by simp
  qed simp
  moreover have "remove1 t sl = ys @ zs" using sl by (simp add: remove1_split)
  ultimately show ?thesis
    using lists_wfD(1,4,5,6,8) [OF wf] lists_wf_apart [OF wf] sl
    by (intro lists_wfI) (simp_all, blast+)
qed

end
