(* ===== verification/Scheduler.thy ===== *)
theory Scheduler
  imports Threads
begin

section \<open>The scheduler\<close>

text \<open>
  The operations of \<^verbatim>\<open>kernel/src/scheduler.c\<close>. Each runs under the scheduler lock, so each is one
  transition of the \<^typ>\<open>scheduler\<close> record; \<open>c\<close> is the index of the executing CPU. A context switch
  takes three transitions, as in the source: the dispatch that chooses the incoming thread, the
  publication of the saved outgoing frame (\<^verbatim>\<open>scheduler_context_switch_saved\<close>, still on the outgoing
  stack), and the completion on the incoming stack. An operation that begins a switch returns
  \<open>Switch out in\<close>. Address-space activation and the FPU area are outside the model.
\<close>

subsection \<open>Threads and their saved contexts\<close>

definition thread_priority_state_valid :: "kernel_thread \<Rightarrow> bool" where
  "thread_priority_state_valid th \<longleftrightarrow>
     thread_priority_valid (base_priority th) \<and> thread_priority_valid (effective_priority th) \<and>
     effective_priority th \<le> base_priority th \<and>
     \<not> (wakeup_boosted th \<and> (base_priority th \<noteq> THREAD_PRIORITY_BACKGROUND \<or>
        effective_priority th \<noteq> THREAD_PRIORITY_NORMAL))"

definition thread_default_time_slice :: "thread_priority \<Rightarrow> u64" where
  "thread_default_time_slice p =
     (if p = THREAD_PRIORITY_HIGH then THREAD_TIME_SLICE_HIGH
      else if p = THREAD_PRIORITY_NORMAL then THREAD_TIME_SLICE_NORMAL
      else if p = THREAD_PRIORITY_BACKGROUND then THREAD_TIME_SLICE_BACKGROUND else 0)"

definition thread_saved_stack_valid :: "nat \<Rightarrow> scheduler \<Rightarrow> addr \<Rightarrow> bool" where
  "thread_saved_stack_valid c s t =
     (let th = threads s t; stack_end = kernel_stack_base th + kernel_stack_size th in
      if saved_stack_pointer th = 0 then stack_external th \<and> current_thread c s = Some t
      else if kernel_stack_base th = 0 \<or> kernel_stack_size th = 0 then False
      else if stack_end \<le> kernel_stack_base th \<or> stack_end - kernel_stack_base th < 64 then False
      else saved_stack_pointer th \<ge> kernel_stack_base th \<and>
        saved_stack_pointer th \<le> stack_end - 64)"

definition thread_context_ready :: "nat \<Rightarrow> scheduler \<Rightarrow> addr \<Rightarrow> bool" where
  "thread_context_ready c s t \<longleftrightarrow>
     saved_context_valid (threads s t) \<and> thread_saved_stack_valid c s t"

definition SCHEDULER_UNSAFE_CONTEXT_FLAGS :: u64 where
  "SCHEDULER_UNSAFE_CONTEXT_FLAGS =
     push_bit 8 1 OR push_bit 10 1 OR push_bit 12 3 OR push_bit 14 1 OR push_bit 17 1 OR
     push_bit 18 1 OR push_bit 19 3"

text \<open>The check of the saved RFLAGS word, the seventh of the frame; a failure panics.\<close>

definition scheduler_validate_saved_context :: "nat \<Rightarrow> scheduler \<Rightarrow> addr \<Rightarrow> bool" where
  "scheduler_validate_saved_context c s t =
     (if \<not> thread_context_ready c s t then True
      else let flags = saved_rflags (threads s t) in
        flags AND push_bit 1 1 \<noteq> 0 \<and> flags AND SCHEDULER_UNSAFE_CONTEXT_FLAGS = 0)"

text \<open>
  A new stack holds, from low to high addresses, six zeroed registers, RFLAGS with the reserved bit
  and the interrupt flag, and the address of the entry trampoline.
\<close>

definition thread_prepare_context :: "scheduler \<Rightarrow> addr \<Rightarrow> scheduler option" where
  "thread_prepare_context s t =
     (let th = threads s t; base = kernel_stack_base th; size = kernel_stack_size th;
          top = (base + size) AND NOT 0x0F
      in if base = 0 \<or> size < 64 then None
         else if top < base + 72 then None
         else Some (upd_thread t (\<lambda>x. x\<lparr>saved_stack_pointer := top - 72,
           saved_rflags := push_bit 1 1 OR push_bit 9 1, saved_context_valid := True\<rparr>) s))"

subsection \<open>Validation\<close>

definition cpu_state_valid :: "scheduler \<Rightarrow> nat \<Rightarrow> bool" where
  "cpu_state_valid s i =
     (let cpu = cpus s ! i in
      if \<not> cpu_online cpu then True
      else (if \<not> context_switching cpu
            then (case cpu_current_thread cpu of None \<Rightarrow> False
              | Some t \<Rightarrow> t_state (threads s t) = THREAD_STATE_RUNNING \<and>
                  running_cpu (threads s t) = of_nat i \<and> \<not> queued (threads s t))
            else (case cpu_current_thread cpu of None \<Rightarrow> True
              | Some t \<Rightarrow> running_cpu (threads s t) = of_nat i \<and> \<not> queued (threads s t))) \<and>
           (case cpu_idle_thread cpu of None \<Rightarrow> False
              | Some t \<Rightarrow> \<not> queued (threads s t) \<and>
                  \<not> (running_cpu (threads s t) = THREAD_CPU_NONE \<and>
                     t_state (threads s t) = THREAD_STATE_RUNNING)))"

text \<open>
  The two-pointer cycle search over the sleep list. The step bound is the number of control blocks;
  a list that ends is never longer, so running out means the list does not end.
\<close>

fun list_ends :: "(addr \<Rightarrow> ptr) \<Rightarrow> nat \<Rightarrow> ptr \<Rightarrow> ptr \<Rightarrow> bool" where
  "list_ends nx 0 slow fast = False"
| "list_ends nx (Suc n) slow fast = (case fast of None \<Rightarrow> True
     | Some f \<Rightarrow> (case nx f of None \<Rightarrow> True
       | Some g \<Rightarrow>
           let slow' = (case slow of None \<Rightarrow> None | Some a \<Rightarrow> nx a); fast' = nx g
           in if slow' = fast' then False else list_ends nx n slow' fast'))"

text \<open>The walk over one ready queue; \<open>n\<close> is what is left of the queue's count.\<close>

fun queue_check :: "scheduler \<Rightarrow> ptr \<Rightarrow> nat \<Rightarrow> nat \<Rightarrow> ptr \<Rightarrow> ptr \<Rightarrow> (ptr \<times> nat) option" where
  "queue_check s idle p n previous None = Some (previous, n)"
| "queue_check s idle p 0 previous (Some t) = None"
| "queue_check s idle p (Suc n) previous (Some t) =
     (let th = threads s t in
      if \<not> queued th \<or> t_state th \<noteq> THREAD_STATE_READY \<or> effective_priority th \<noteq> p \<or>
         \<not> thread_priority_state_valid th \<or> sleeping th \<or> running_cpu th \<noteq> THREAD_CPU_NONE \<or>
         Some t = idle \<or> t_previous th \<noteq> previous
      then None else queue_check s idle p n (Some t) (t_next th))"

definition queue_valid :: "scheduler \<Rightarrow> ptr \<Rightarrow> nat \<Rightarrow> bool" where
  "queue_valid s idle p =
     (let q = ready_queues s ! p in
      case queue_check s idle p (rq_count q) None (rq_head q) of None \<Rightarrow> False
      | Some (previous, left) \<Rightarrow> left = 0 \<and> rq_tail q = previous \<and>
          \<not> (rq_head q = None \<and> rq_tail q \<noteq> None) \<and> \<not> (rq_head q \<noteq> None \<and> rq_tail q = None))"

definition queue_members :: "scheduler \<Rightarrow> nat \<Rightarrow> addr list" where
  "queue_members s p = chain (nxt s) (rq_count (ready_queues s ! p)) (rq_head (ready_queues s ! p))"

definition queues_apart :: "scheduler \<Rightarrow> bool" where
  "queues_apart s \<longleftrightarrow> list_all (\<lambda>p. list_all (\<lambda>t. list_all (\<lambda>q. t \<notin> set (queue_members s q))
     [Suc p..<3]) (queue_members s p)) [0..<3]"

definition sleepers_valid :: "scheduler \<Rightarrow> ptr \<Rightarrow> bool" where
  "sleepers_valid s idle \<longleftrightarrow> list_all (\<lambda>t. let th = threads s t in
       t_state th = THREAD_STATE_BLOCKED \<and> \<not> queued th \<and> thread_priority_state_valid th \<and>
       sleeping th \<and> running_cpu th = THREAD_CPU_NONE \<and> Some t \<noteq> idle \<and>
       list_all (\<lambda>p. t \<notin> set (queue_members s p)) [0..<3])
     (chain (nxt s) (length (thread_blocks s)) (sleeping_threads s))"

definition scheduler_validate_locked :: "nat \<Rightarrow> scheduler \<Rightarrow> bool" where
  "scheduler_validate_locked c s \<longleftrightarrow>
     (case current_thread c s of None \<Rightarrow> True
      | Some t \<Rightarrow> \<not> queued (threads s t) \<and> thread_priority_state_valid (threads s t)) \<and>
     (case idle_thread c s of None \<Rightarrow> True
      | Some t \<Rightarrow> \<not> queued (threads s t) \<and>
          base_priority (threads s t) = THREAD_PRIORITY_BACKGROUND \<and>
          effective_priority (threads s t) = THREAD_PRIORITY_BACKGROUND) \<and>
     list_all (cpu_state_valid s) [0..<length (cpus s)] \<and>
     list_ends (nxt s) (Suc (length (thread_blocks s))) (sleeping_threads s) (sleeping_threads s) \<and>
     list_all (queue_valid s (idle_thread c s)) [0..<3] \<and>
     queues_apart s \<and> sleepers_valid s (idle_thread c s)"

subsection \<open>Ready queues\<close>

definition scheduler_update_runnable_peak :: "nat \<Rightarrow> scheduler \<Rightarrow> scheduler" where
  "scheduler_update_runnable_peak c s =
     (let ready = of_nat (rq_count (ready_queues s ! THREAD_PRIORITY_HIGH) +
            rq_count (ready_queues s ! THREAD_PRIORITY_NORMAL) +
            rq_count (ready_queues s ! THREAD_PRIORITY_BACKGROUND));
          runnable = (case current_thread c s of None \<Rightarrow> ready
            | Some t \<Rightarrow> if Some t \<noteq> idle_thread c s \<and> t_state (threads s t) = THREAD_STATE_RUNNING
                then ready + 1 else ready)
      in if runnable > peak_runnable (scheduler_stats s)
         then upd_stats (\<lambda>x. x\<lparr>peak_runnable := runnable\<rparr>) s else s)"

definition scheduler_enqueue_locked :: "nat \<Rightarrow> scheduler \<Rightarrow> addr \<Rightarrow> bool \<times> scheduler" where
  "scheduler_enqueue_locked c s t =
     (let th = threads s t in
      if t_state th \<noteq> THREAD_STATE_READY \<or> queued th \<or> running_cpu th \<noteq> THREAD_CPU_NONE \<or>
         \<not> thread_priority_valid (effective_priority th) then (False, s)
      else let s1 = queue_append s t in
        if \<not> scheduler_validate_locked c s1 then (False, scheduler_remove_queued_locked s1 t)
        else (True, scheduler_update_runnable_peak c s1))"

definition scheduler_enqueue :: "nat \<Rightarrow> scheduler \<Rightarrow> ptr \<Rightarrow> bool \<times> scheduler" where
  "scheduler_enqueue c s p = (case p of None \<Rightarrow> (False, s) | Some t \<Rightarrow> scheduler_enqueue_locked c s t)"

definition scheduler_thread_eligible :: "nat \<Rightarrow> scheduler \<Rightarrow> addr \<Rightarrow> bool" where
  "scheduler_thread_eligible c s t \<longleftrightarrow> t \<noteq> bootstrap_thread s \<or> cpu_bsp (cpus s ! c)"

definition selectable :: "nat \<Rightarrow> scheduler \<Rightarrow> addr \<Rightarrow> bool" where
  "selectable c s t \<longleftrightarrow>
     \<not> (t_state (threads s t) \<noteq> THREAD_STATE_READY \<or> running_cpu (threads s t) \<noteq> THREAD_CPU_NONE \<or>
        \<not> scheduler_thread_eligible c s t) \<and>
     thread_context_ready c s t"

text \<open>The nested loops of the selection: the first selectable thread in queue order, with its queue.\<close>

fun select_from :: "nat \<Rightarrow> scheduler \<Rightarrow> nat list \<Rightarrow> (nat \<times> addr) option" where
  "select_from c s [] = None"
| "select_from c s (p # ps) = (case find (selectable c s) (queue_members s p) of
     Some t \<Rightarrow> Some (p, t) | None \<Rightarrow> select_from c s ps)"

definition count_dispatch :: "nat \<Rightarrow> scheduler \<Rightarrow> scheduler" where
  "count_dispatch p = upd_stats (\<lambda>x. x\<lparr>dispatches := (dispatches x)[p := dispatches x ! p + 1]\<rparr>)"

definition uncount_idle_dispatch :: "scheduler \<Rightarrow> scheduler" where
  "uncount_idle_dispatch = upd_stats (\<lambda>x.
     if dispatches x ! THREAD_PRIORITY_BACKGROUND \<noteq> 0
     then x\<lparr>dispatches := (dispatches x)[THREAD_PRIORITY_BACKGROUND :=
            dispatches x ! THREAD_PRIORITY_BACKGROUND - 1]\<rparr> else x)"

text \<open>Taking the selected thread off its queue; a temporary boost ends with its selection.\<close>

definition take_selected :: "nat \<Rightarrow> addr \<Rightarrow> scheduler \<Rightarrow> scheduler" where
  "take_selected p t s = upd_thread t (\<lambda>x. x\<lparr>last_selected_priority := effective_priority x,
       last_selection_was_wakeup_boost := wakeup_boosted x, effective_priority := base_priority x,
       wakeup_boosted := False, ready_wait_ticks := 0\<rparr>)
     (count_dispatch p (scheduler_remove_queued_locked s t))"

definition idle_selectable :: "nat \<Rightarrow> scheduler \<Rightarrow> bool" where
  "idle_selectable c s = (case idle_thread c s of None \<Rightarrow> False
     | Some t \<Rightarrow> t_state (threads s t) = THREAD_STATE_READY \<and> \<not> queued (threads s t) \<and>
         thread_context_ready c s t \<and>
         (running_cpu (threads s t) = THREAD_CPU_NONE \<or> running_cpu (threads s t) = of_nat c))"

definition scheduler_select_next_locked :: "nat \<Rightarrow> scheduler \<Rightarrow> ptr \<times> scheduler" where
  "scheduler_select_next_locked c s =
     (if \<not> scheduler_validate_locked c s then (None, s)
      else (case select_from c s [0..<3] of
          Some (p, t) \<Rightarrow> (Some t, take_selected p t s)
        | None \<Rightarrow> if idle_selectable c s
            then (idle_thread c s, count_dispatch THREAD_PRIORITY_BACKGROUND s) else (None, s)))"

subsection \<open>Aging\<close>

text \<open>Moving a queued thread to a more urgent queue, back to the old one if that fails.\<close>

definition promote :: "nat \<Rightarrow> scheduler \<Rightarrow> addr \<Rightarrow> (kernel_thread \<Rightarrow> kernel_thread) \<Rightarrow> scheduler" where
  "promote c s t f =
     (let old = effective_priority (threads s t) in
      case scheduler_enqueue_locked c (upd_thread t f (scheduler_remove_queued_locked s t)) t of
        (True, s1) \<Rightarrow> s1
      | (False, s1) \<Rightarrow>
          snd (scheduler_enqueue_locked c (upd_thread t (\<lambda>x. x\<lparr>effective_priority := old\<rparr>) s1) t))"

definition age_thread :: "nat \<Rightarrow> scheduler \<Rightarrow> addr \<Rightarrow> bool \<times> scheduler" where
  "age_thread c s0 t =
     (let s = upd_thread t (\<lambda>x. if ready_wait_ticks x \<noteq> NOT 0
              then x\<lparr>ready_wait_ticks := ready_wait_ticks x + 1\<rparr> else x) s0;
          th = threads s t
      in if effective_priority th \<noteq> base_priority th then
           (if base_priority th = THREAD_PRIORITY_BACKGROUND \<and>
               effective_priority th = THREAD_PRIORITY_NORMAL \<and>
               ready_wait_ticks th \<ge> (if wakeup_boosted th then BACKGROUND_STARVATION_THRESHOLD
                 else BACKGROUND_HIGH_RESCUE_THRESHOLD)
            then (True, promote c s t (\<lambda>x. x\<lparr>effective_priority := THREAD_PRIORITY_HIGH,
                   wakeup_boosted := False, ready_wait_ticks := 0\<rparr>))
            else if base_priority th \<noteq> THREAD_PRIORITY_BACKGROUND \<or>
                    effective_priority th \<noteq> THREAD_PRIORITY_NORMAL
            then (False, upd_thread t (\<lambda>x. x\<lparr>ready_wait_ticks := 0\<rparr>) s)
            else (False, s))
         else if (base_priority th = THREAD_PRIORITY_BACKGROUND \<and>
                  ready_wait_ticks th \<ge> BACKGROUND_STARVATION_THRESHOLD) \<or>
                 (base_priority th = THREAD_PRIORITY_NORMAL \<and>
                  ready_wait_ticks th \<ge> NORMAL_STARVATION_THRESHOLD)
         then (True, promote c s t (\<lambda>x. x\<lparr>effective_priority := effective_priority x - 1,
                ready_wait_ticks := 0\<rparr>))
         else (False, s))"

text \<open>The walk reads the next link before it moves the thread. The bound is the number of blocks.\<close>

fun age_walk :: "nat \<Rightarrow> nat \<Rightarrow> scheduler \<Rightarrow> bool \<Rightarrow> ptr \<Rightarrow> bool \<times> scheduler" where
  "age_walk c 0 s promoted p = (promoted, s)"
| "age_walk c (Suc n) s promoted p = (case p of None \<Rightarrow> (promoted, s)
     | Some t \<Rightarrow> (case age_thread c s t of (pr, s') \<Rightarrow>
         age_walk c n s' (promoted \<or> pr) (t_next (threads s t))))"

definition scheduler_age_ready_threads_locked :: "nat \<Rightarrow> scheduler \<Rightarrow> bool \<times> scheduler" where
  "scheduler_age_ready_threads_locked c s =
     (let n = length (thread_blocks s) in
      case age_walk c n s False (rq_head (ready_queues s ! THREAD_PRIORITY_NORMAL)) of (pr, s1) \<Rightarrow>
        age_walk c n s1 pr (rq_head (ready_queues s1 ! THREAD_PRIORITY_BACKGROUND)))"

subsection \<open>Dispatch\<close>

datatype scheduler_dispatch_action =
    SCHEDULER_DISPATCH_REQUEUE | SCHEDULER_DISPATCH_BLOCK | SCHEDULER_DISPATCH_TERMINATE

text \<open>
  What a dispatch decides: refuse, keep the current thread, or hand the CPU from one thread to
  another. \<open>Panicked\<close> is the kernel's panic.
\<close>

datatype dispatch = Refused | Stay | Handoff addr addr | Panicked

definition bootstrap_available :: "nat \<Rightarrow> scheduler \<Rightarrow> addr \<Rightarrow> bool" where
  "bootstrap_available c s out \<longleftrightarrow>
     (let b = bootstrap_thread s in cpu_bsp (cpus s ! c) \<and> out \<noteq> b \<and>
        t_state (threads s b) = THREAD_STATE_READY \<and>
        running_cpu (threads s b) = THREAD_CPU_NONE \<and> \<not> queued (threads s b))"

text \<open>The three corrections of the selected target, in source order.\<close>

definition choose_target ::
    "nat \<Rightarrow> scheduler_dispatch_action \<Rightarrow> addr \<Rightarrow> ptr \<times> scheduler \<Rightarrow> ptr \<times> scheduler" where
  "choose_target c act out sel =
     (case sel of (t0, s0) \<Rightarrow>
      case (if t0 = idle_thread c s0 \<and> bootstrap_available c s0 out
            then (Some (bootstrap_thread s0), uncount_idle_dispatch s0) else (t0, s0)) of (t1, s1) \<Rightarrow>
      let t2 = (if t1 = idle_thread c s1 \<and> act = SCHEDULER_DISPATCH_TERMINATE \<and>
                  bootstrap_available c s1 out \<and> stat_blocked (scheduler_stats s1) = 0
                then Some (bootstrap_thread s1) else t1) in
      if t2 = idle_thread c s1 \<and> act = SCHEDULER_DISPATCH_REQUEUE \<and> Some out \<noteq> idle_thread c s1
      then (Some out, uncount_idle_dispatch s1) else (t2, s1))"

text \<open>Making a thread the running thread of this CPU.\<close>

definition make_running :: "nat \<Rightarrow> addr \<Rightarrow> scheduler \<Rightarrow> scheduler" where
  "make_running c t s = upd_cpu c (\<lambda>x. x\<lparr>cpu_current_thread := Some t\<rparr>)
     (upd_thread t (\<lambda>x. x\<lparr>t_state := THREAD_STATE_RUNNING, running_cpu := of_nat c\<rparr>) s)"

definition scheduler_prepare_dispatch_locked ::
    "nat \<Rightarrow> scheduler \<Rightarrow> scheduler_dispatch_action \<Rightarrow> dispatch \<times> scheduler" where
  "scheduler_prepare_dispatch_locked c s act =
     (case current_thread c s of None \<Rightarrow> (Refused, s)
      | Some out \<Rightarrow>
        let th = threads s out; requeue = (act = SCHEDULER_DISPATCH_REQUEUE) in
        if (requeue \<and> t_state th \<noteq> THREAD_STATE_RUNNING) \<or>
           (act = SCHEDULER_DISPATCH_BLOCK \<and> t_state th \<noteq> THREAD_STATE_BLOCKED) \<or>
           (act = SCHEDULER_DISPATCH_TERMINATE \<and> t_state th \<noteq> THREAD_STATE_TERMINATED) \<or>
           queued th \<or> \<not> thread_saved_stack_valid c s out then (Refused, s)
        else
          let s1 = upd_cpu c (\<lambda>x. x\<lparr>context_switching := True\<rparr>) s;
              s2 = (if requeue then upd_thread out (\<lambda>x. x\<lparr>t_state := THREAD_STATE_READY\<rparr>) s1
                else upd_cpu c (\<lambda>x. x\<lparr>cpu_current_thread := None\<rparr>)
                  (upd_thread out (\<lambda>x. x\<lparr>running_cpu := THREAD_CPU_NONE\<rparr>) s1))
          in case choose_target c act out (scheduler_select_next_locked c s2) of
            (None, s3) \<Rightarrow>
              (Refused, upd_cpu c (\<lambda>x. x\<lparr>cpu_current_thread := Some out, context_switching := False\<rparr>)
                (upd_thread out (\<lambda>x. if requeue then x\<lparr>t_state := THREAD_STATE_RUNNING\<rparr>
                   else x\<lparr>running_cpu := of_nat c\<rparr>) s3))
          | (Some t, s3) \<Rightarrow>
              if t = out
              then (Stay, upd_cpu c (\<lambda>x. x\<lparr>context_switching := False\<rparr>) (make_running c t s3))
              else if \<not> thread_context_ready c s3 t then (Panicked, s3)
              else (Handoff out t, make_running c t s3))"

text \<open>
  The outcome of an operation that may switch: it returned a truth value, or the CPU is now switching
  from one thread to another (the call returns true when the outgoing thread is resumed).
\<close>

datatype outcome = Returned bool | Switch addr addr | Panic

definition scheduler_handoff :: "nat \<Rightarrow> addr \<Rightarrow> addr \<Rightarrow> scheduler \<Rightarrow> outcome \<times> scheduler" where
  "scheduler_handoff c out t s =
     (if \<not> scheduler_validate_saved_context c s t then (Panic, s)
      else (Switch out t, upd_stats (\<lambda>x. x\<lparr>context_switches := context_switches x + 1\<rparr>)
        (upd_thread out (\<lambda>x. x\<lparr>context_switch_pending := True\<rparr>) s)))"

text \<open>The common tail of the dispatching operations; \<open>undo\<close> is what a refusal restores.\<close>

definition finish_dispatch ::
    "nat \<Rightarrow> (scheduler \<Rightarrow> scheduler) \<Rightarrow> dispatch \<times> scheduler \<Rightarrow> outcome \<times> scheduler" where
  "finish_dispatch c undo r = (case r of
       (Refused, s) \<Rightarrow> (Returned False, undo s)
     | (Stay, s) \<Rightarrow> (Returned True, s)
     | (Handoff out t, s) \<Rightarrow> scheduler_handoff c out t s
     | (Panicked, s) \<Rightarrow> (Panic, s))"

definition scheduler_reschedule :: "nat \<Rightarrow> scheduler \<Rightarrow> outcome \<times> scheduler" where
  "scheduler_reschedule c s = finish_dispatch c (\<lambda>s. s)
     (scheduler_prepare_dispatch_locked c s SCHEDULER_DISPATCH_REQUEUE)"

definition scheduler_yield :: "nat \<Rightarrow> scheduler \<Rightarrow> outcome \<times> scheduler" where
  "scheduler_yield c s =
     scheduler_reschedule c (upd_stats (\<lambda>x. x\<lparr>voluntary_yields := voluntary_yields x + 1\<rparr>) s)"

definition restore_current :: "nat \<Rightarrow> addr \<Rightarrow> scheduler \<Rightarrow> scheduler" where
  "restore_current c t s = upd_cpu c (\<lambda>x. x\<lparr>cpu_current_thread := Some t\<rparr>)
     (upd_thread t (\<lambda>x. x\<lparr>t_state := THREAD_STATE_RUNNING, running_cpu := of_nat c\<rparr>) s)"

definition scheduler_block :: "nat \<Rightarrow> scheduler \<Rightarrow> outcome \<times> scheduler" where
  "scheduler_block c s = (case current_thread c s of None \<Rightarrow> (Returned False, s)
     | Some t \<Rightarrow>
       if mutex_wake_pending (threads s t)
       then (Returned True, upd_thread t (\<lambda>x. x\<lparr>mutex_wake_pending := False\<rparr>) s)
       else if Some t = idle_thread c s \<or> t_state (threads s t) \<noteq> THREAD_STATE_RUNNING \<or>
               queued (threads s t) then (Returned False, s)
       else let s1 = upd_stats (\<lambda>x. x\<lparr>stat_blocks := stat_blocks x + 1, stat_blocked := stat_blocked x + 1\<rparr>)
              (upd_thread t (\<lambda>x. x\<lparr>t_state := THREAD_STATE_BLOCKED\<rparr>) s)
         in finish_dispatch c
           (\<lambda>s. upd_stats (\<lambda>x. x\<lparr>stat_blocks := stat_blocks x - 1, stat_blocked := stat_blocked x - 1\<rparr>)
             (restore_current c t s))
           (scheduler_prepare_dispatch_locked c s1 SCHEDULER_DISPATCH_BLOCK))"

definition scheduler_terminate :: "nat \<Rightarrow> scheduler \<Rightarrow> outcome \<times> scheduler" where
  "scheduler_terminate c s = (case current_thread c s of None \<Rightarrow> (Returned False, s)
     | Some t \<Rightarrow>
       if Some t = idle_thread c s \<or> t_state (threads s t) \<noteq> THREAD_STATE_RUNNING \<or>
          queued (threads s t) then (Returned False, s)
       else finish_dispatch c (restore_current c t)
         (scheduler_prepare_dispatch_locked c
           (upd_thread t (\<lambda>x. x\<lparr>t_state := THREAD_STATE_TERMINATED\<rparr>) s) SCHEDULER_DISPATCH_TERMINATE))"

definition uncount_sleeping :: "scheduler \<Rightarrow> scheduler" where
  "uncount_sleeping = upd_stats (\<lambda>x. if stat_sleeping x \<noteq> 0 then x\<lparr>stat_sleeping := stat_sleeping x - 1\<rparr> else x)"

definition uncount_blocked :: "scheduler \<Rightarrow> scheduler" where
  "uncount_blocked = upd_stats (\<lambda>x. if stat_blocked x \<noteq> 0 then x\<lparr>stat_blocked := stat_blocked x - 1\<rparr> else x)"

definition scheduler_sleep :: "nat \<Rightarrow> scheduler \<Rightarrow> u64 \<Rightarrow> outcome \<times> scheduler" where
  "scheduler_sleep c s ticks =
     (if ticks = 0 then (Returned True, s)
      else (case current_thread c s of None \<Rightarrow> (Returned False, s)
        | Some t \<Rightarrow>
          if Some t = idle_thread c s \<or> t_state (threads s t) \<noteq> THREAD_STATE_RUNNING \<or>
             queued (threads s t) \<or> sleeping (threads s t) then (Returned False, s)
          else let
              now = scheduler_tick_count s;
              wake = (if now > NOT 0 - ticks then NOT 0 else now + ticks);
              s1 = sleeping_push (upd_thread t (\<lambda>x. x\<lparr>wakeup_tick := wake\<rparr>) s) t;
              s2 = upd_stats (\<lambda>x. x\<lparr>stat_sleeping := stat_sleeping x + 1,
                     stat_blocks := stat_blocks x + 1, stat_blocked := stat_blocked x + 1\<rparr>)
                   (upd_thread t (\<lambda>x. x\<lparr>t_state := THREAD_STATE_BLOCKED\<rparr>) s1)
            in finish_dispatch c
              (\<lambda>s. upd_stats (\<lambda>x. x\<lparr>stat_blocks := stat_blocks x - 1, stat_blocked := stat_blocked x - 1\<rparr>)
                 (upd_cpu c (\<lambda>x. x\<lparr>cpu_current_thread := Some t\<rparr>)
                   (upd_thread t (\<lambda>x. x\<lparr>t_state := THREAD_STATE_RUNNING\<rparr>)
                     (uncount_sleeping (sleeping_remove s t)))))
              (scheduler_prepare_dispatch_locked c s2 SCHEDULER_DISPATCH_BLOCK)))"

subsection \<open>Waking\<close>

text \<open>The priority a woken thread gets: a background thread is boosted once.\<close>

definition wake_priority :: "kernel_thread \<Rightarrow> kernel_thread" where
  "wake_priority x = x\<lparr>effective_priority := (if base_priority x = THREAD_PRIORITY_BACKGROUND
       then THREAD_PRIORITY_NORMAL else base_priority x),
     wakeup_boosted := (base_priority x = THREAD_PRIORITY_BACKGROUND),
     t_state := THREAD_STATE_READY, running_cpu := THREAD_CPU_NONE\<rparr>"

definition count_wakeup :: "scheduler \<Rightarrow> scheduler" where
  "count_wakeup = upd_stats (\<lambda>x. x\<lparr>stat_wakeups := stat_wakeups x + 1\<rparr>)"

definition scheduler_unblock :: "nat \<Rightarrow> scheduler \<Rightarrow> ptr \<Rightarrow> bool \<times> scheduler" where
  "scheduler_unblock c s p = (case p of None \<Rightarrow> (False, s)
     | Some t \<Rightarrow>
       if Some t = idle_thread c s \<or> t_state (threads s t) \<noteq> THREAD_STATE_BLOCKED \<or>
          queued (threads s t) then (False, s)
       else let th = threads s t;
            s1 = upd_thread t wake_priority (sleeping_remove s t)
         in case scheduler_enqueue_locked c s1 t of
           (False, s2) \<Rightarrow>
             let s3 = upd_thread t (\<lambda>x. x\<lparr>t_state := THREAD_STATE_BLOCKED,
                   wakeup_boosted := wakeup_boosted th, effective_priority := effective_priority th\<rparr>) s2
             in (False, if sleeping th
               then sleeping_push (upd_thread t (\<lambda>x. x\<lparr>wakeup_tick := wakeup_tick th\<rparr>) s3) t else s3)
         | (True, s2) \<Rightarrow>
             let s3 = count_wakeup ((if sleeping th then uncount_sleeping else (\<lambda>s. s)) (uncount_blocked s2))
             in (True, if current_thread c s3 = idle_thread c s3
               then upd_cpu c (\<lambda>x. x\<lparr>preemption_pending := True\<rparr>) s3 else s3))"

text \<open>One sleeper of the global tick, and the loop over the sleep list.\<close>

definition tick_sleeper :: "nat \<Rightarrow> scheduler \<Rightarrow> addr \<Rightarrow> bool \<times> scheduler" where
  "tick_sleeper c s t =
     (if wakeup_tick (threads s t) \<le> scheduler_tick_count s
      then (case scheduler_enqueue_locked c
             (upd_thread t wake_priority (uncount_sleeping (sleeping_remove s t))) t of
          (True, s1) \<Rightarrow> (True, count_wakeup (uncount_blocked s1))
        | (False, s1) \<Rightarrow>
            (False, sleeping_push (upd_thread t (\<lambda>x. x\<lparr>t_state := THREAD_STATE_BLOCKED\<rparr>) s1) t))
      else (False, s))"

fun tick_walk :: "nat \<Rightarrow> nat \<Rightarrow> scheduler \<Rightarrow> bool \<Rightarrow> ptr \<Rightarrow> bool \<times> scheduler" where
  "tick_walk c 0 s woke p = (woke, s)"
| "tick_walk c (Suc n) s woke p = (case p of None \<Rightarrow> (woke, s)
     | Some t \<Rightarrow> (case tick_sleeper c s t of (w, s') \<Rightarrow>
         tick_walk c n s' (woke \<or> w) (t_next (threads s t))))"

definition set_preemption :: "nat \<Rightarrow> bool \<Rightarrow> scheduler \<Rightarrow> scheduler" where
  "set_preemption c b s = (if b then upd_cpu c (\<lambda>x. x\<lparr>preemption_pending := True\<rparr>) s else s)"

definition scheduler_global_tick :: "nat \<Rightarrow> scheduler \<Rightarrow> bool \<times> scheduler" where
  "scheduler_global_tick c s =
     (if \<not> cpu_bsp (cpus s ! c) then (False, s)
      else let s0 = (if scheduler_tick_count s \<noteq> NOT 0
                then s\<lparr>scheduler_tick_count := scheduler_tick_count s + 1\<rparr> else s)
        in case tick_walk c (length (thread_blocks s0)) s0 False (sleeping_threads s0) of (woke, s1) \<Rightarrow>
          let s2 = set_preemption c (woke \<and> (case current_thread c s1 of None \<Rightarrow> False
                | Some t \<Rightarrow> Some t = idle_thread c s1 \<or>
                    (idle_thread c s1 \<noteq> None \<and>
                     effective_priority (threads s1 t) > THREAD_PRIORITY_HIGH))) s1
          in case scheduler_age_ready_threads_locked c s2 of (promoted, s3) \<Rightarrow>
            (woke \<or> promoted,
             set_preemption c (promoted \<and> current_thread c s2 = idle_thread c s3) s3))"

subsection \<open>Timer\<close>

definition scheduler_has_eligible_ready_locked :: "nat \<Rightarrow> scheduler \<Rightarrow> bool" where
  "scheduler_has_eligible_ready_locked c s \<longleftrightarrow> list_ex (\<lambda>p. list_ex (\<lambda>t.
       t_state (threads s t) = THREAD_STATE_READY \<and> running_cpu (threads s t) = THREAD_CPU_NONE \<and>
       scheduler_thread_eligible c s t) (queue_members s p)) [0..<3]"

definition account_tick :: "nat \<Rightarrow> scheduler \<Rightarrow> scheduler" where
  "account_tick c s =
     (let s1 = upd_cpu c (\<lambda>x. x\<lparr>accounted_ticks := accounted_ticks x + 1\<rparr>) s in
      case current_thread c s of None \<Rightarrow> s1
      | Some t \<Rightarrow>
          if Some t \<noteq> idle_thread c s \<and> t_state (threads s t) = THREAD_STATE_RUNNING
          then upd_thread t (\<lambda>x. x\<lparr>t_cpu_time_ticks := t_cpu_time_ticks x + 1\<rparr>)
            (upd_cpu c (\<lambda>x. x\<lparr>busy_ticks := busy_ticks x + 1\<rparr>) s1)
          else s1)"

definition scheduler_timer_tick :: "nat \<Rightarrow> scheduler \<Rightarrow> bool \<times> scheduler" where
  "scheduler_timer_tick c s0 =
     (let s = account_tick c s0; cur = current_thread c s in
      if context_switching (cpus s ! c) then (False, s)
      else let s1 = (if cur = idle_thread c s
               then set_preemption c (scheduler_has_eligible_ready_locked c s)
                 (upd_stats (\<lambda>x. x\<lparr>idle_runtime_ticks := idle_runtime_ticks x + 1\<rparr>) s) else s)
        in case cur of None \<Rightarrow> (preemption_pending (cpus s1 ! c), s1)
        | Some t \<Rightarrow>
            if t_state (threads s1 t) \<noteq> THREAD_STATE_RUNNING \<or> queued (threads s1 t) \<or>
               default_time_slice (threads s1 t) = 0 then (preemption_pending (cpus s1 ! c), s1)
            else let
                s2 = upd_thread t (\<lambda>x. if remaining_time_slice x > 0
                  then x\<lparr>remaining_time_slice := remaining_time_slice x - 1\<rparr> else x) s1;
                s3 = (if remaining_time_slice (threads s2 t) = 0
                  then set_preemption c True (upd_thread t (\<lambda>x. x\<lparr>remaining_time_slice := default_time_slice x\<rparr>) s2)
                  else s2)
              in (preemption_pending (cpus s3 ! c), s3))"

text \<open>
  The decision at the end of an interrupt. \<open>from_user\<close> says whether the interrupted frame carries a
  privilege change; otherwise the frame is redirected to the return trampoline, which reschedules.
\<close>

datatype preemption = No_Preemption | Resched outcome | Redirected

definition scheduler_prepare_preemption ::
    "nat \<Rightarrow> scheduler \<Rightarrow> bool \<Rightarrow> u64 \<Rightarrow> u64 \<Rightarrow> preemption \<times> scheduler" where
  "scheduler_prepare_preemption c s from_user rip rflags =
     (case current_thread c s of None \<Rightarrow> (No_Preemption, s)
      | Some t \<Rightarrow>
        if context_switching (cpus s ! c) \<or> \<not> preemption_pending (cpus s ! c) \<or>
           t_state (threads s t) \<noteq> THREAD_STATE_RUNNING \<or> queued (threads s t) \<or>
           \<not> thread_saved_stack_valid c s t then (No_Preemption, s)
        else let s1 = upd_cpu c (\<lambda>x. x\<lparr>preemption_pending := False\<rparr>) s in
          if syscall_active (threads s t) then (No_Preemption, s1)
          else let s2 = upd_stats (\<lambda>x. x\<lparr>timer_preemptions := timer_preemptions x + 1\<rparr>) s1 in
            if from_user
            then (case scheduler_reschedule c s2 of (r, s3) \<Rightarrow> (Resched r, s3))
            else (Redirected, upd_thread t (\<lambda>x. x\<lparr>preempt_return_rip := rip,
                   preempt_return_rflags := rflags\<rparr>) s2))"

definition scheduler_preempt_from_trampoline :: "nat \<Rightarrow> scheduler \<Rightarrow> outcome \<times> u64 \<times> scheduler" where
  "scheduler_preempt_from_trampoline c s =
     (case current_thread c s of None \<Rightarrow> (Returned False, 0, s)
      | Some t \<Rightarrow>
        if t_state (threads s t) \<noteq> THREAD_STATE_RUNNING \<or> preempt_return_rip (threads s t) = 0
        then (Returned False, 0, s)
        else (case scheduler_reschedule c s of (r, s1) \<Rightarrow> (r, preempt_return_rip (threads s t), s1)))"

definition scheduler_syscall_enter :: "nat \<Rightarrow> scheduler \<Rightarrow> scheduler" where
  "scheduler_syscall_enter c s = (case current_thread c s of None \<Rightarrow> s
     | Some t \<Rightarrow> upd_thread t (\<lambda>x. x\<lparr>syscall_nesting := (if syscall_nesting x \<noteq> NOT 0
         then syscall_nesting x + 1 else syscall_nesting x), syscall_active := True\<rparr>) s)"

text \<open>\<open>irq\<close> is the interrupt flag the machine reports; \<open>None\<close> is the panic.\<close>

definition scheduler_syscall_leave :: "nat \<Rightarrow> bool \<Rightarrow> scheduler \<Rightarrow> scheduler option" where
  "scheduler_syscall_leave c irq s = (case current_thread c s of None \<Rightarrow> Some s
     | Some t \<Rightarrow>
       if syscall_nesting (threads s t) = 1 \<and> syscall_active (threads s t) \<and> irq then None
       else if syscall_nesting (threads s t) \<noteq> 0
       then Some (upd_thread t (\<lambda>x. x\<lparr>syscall_nesting := syscall_nesting x - 1,
              syscall_active := (syscall_nesting x - 1 \<noteq> 0)\<rparr>) s)
       else Some s)"

subsection \<open>Context switch completion\<close>

text \<open>
  The assembly stores the outgoing stack pointer \<open>rsp\<close> and the flags of the outgoing thread, then
  calls the helper. \<open>None\<close> is the panic of a failed publication.
\<close>

definition scheduler_context_switch_saved ::
    "nat \<Rightarrow> addr \<Rightarrow> u64 \<Rightarrow> u64 \<Rightarrow> u64 \<Rightarrow> scheduler \<Rightarrow> scheduler option" where
  "scheduler_context_switch_saved c out rsp flags incoming s0 =
     (let s = upd_thread out (\<lambda>x. x\<lparr>saved_stack_pointer := rsp, saved_rflags := flags,
                 saved_context_valid := True\<rparr>) s0;
          s1 = upd_thread out (\<lambda>x. x\<lparr>running_cpu := THREAD_CPU_NONE\<rparr>) s;
          published = (if t_state (threads s out) = THREAD_STATE_READY \<and> \<not> queued (threads s out) \<and>
                 out \<noteq> bootstrap_thread s \<and> Some out \<noteq> idle_thread c s
               then scheduler_enqueue_locked c s1 out else (True, s1))
      in case published of
        (False, _) \<Rightarrow> None
      | (True, s2) \<Rightarrow>
          let s3 = (case current_thread c s2 of None \<Rightarrow> s2
                | Some t \<Rightarrow> if saved_stack_pointer (threads s2 t) = incoming
                    then upd_thread t (\<lambda>x. x\<lparr>saved_context_valid := False\<rparr>) s2 else s2)
          in Some (upd_cpu c (\<lambda>x. x\<lparr>context_switching := False\<rparr>) s3))"

definition scheduler_context_switch_complete :: "addr \<Rightarrow> scheduler \<Rightarrow> scheduler" where
  "scheduler_context_switch_complete out = upd_thread out (\<lambda>x. x\<lparr>context_switch_pending := False\<rparr>)"

definition thread_switch_to :: "nat \<Rightarrow> scheduler \<Rightarrow> ptr \<Rightarrow> outcome \<times> scheduler" where
  "thread_switch_to c s target = (case target of None \<Rightarrow> (Returned False, s)
     | Some t \<Rightarrow>
       if Some t = current_thread c s \<or> t_state (threads s t) \<noteq> THREAD_STATE_READY \<or>
          running_cpu (threads s t) \<noteq> THREAD_CPU_NONE \<or> \<not> scheduler_thread_eligible c s t \<or>
          \<not> thread_context_ready c s t then (Returned False, s)
       else if t \<noteq> bootstrap_thread s \<and> \<not> queued (threads s t) then (Returned False, s)
       else (case current_thread c s of None \<Rightarrow> (Returned False, s)
         | Some out \<Rightarrow>
           if t_state (threads s out) \<noteq> THREAD_STATE_RUNNING \<or> queued (threads s out) \<or>
              \<not> thread_saved_stack_valid c s out then (Returned False, s)
           else let
               s1 = upd_thread t (\<lambda>x. x\<lparr>effective_priority := base_priority x, ready_wait_ticks := 0\<rparr>)
                 (scheduler_remove_queued_locked s t);
               s2 = upd_thread out (\<lambda>x. x\<lparr>t_state := THREAD_STATE_READY\<rparr>) s1
             in scheduler_handoff c out t
               (make_running c t (upd_cpu c (\<lambda>x. x\<lparr>context_switching := True\<rparr>) s2))))"

subsection \<open>Thread lifecycle\<close>

definition is_idle_thread :: "scheduler \<Rightarrow> addr \<Rightarrow> bool" where
  "is_idle_thread s t \<longleftrightarrow> list_ex (\<lambda>cpu. cpu_idle_thread cpu = Some t) (cpus s)"

text \<open>
  \<open>block\<close> and \<open>stack\<close> are what \<^verbatim>\<open>kmalloc\<close> returned for the control block and the stack (zero is
  the null pointer). A failed creation gives its memory back.
\<close>

definition THREAD_KERNEL_STACK_SIZE :: u64 where "THREAD_KERNEL_STACK_SIZE = 64 * 1024"

definition new_thread :: "string \<Rightarrow> thread_priority \<Rightarrow> u64 \<Rightarrow> kernel_thread" where
  "new_thread name p stack = zero_thread\<lparr>kernel_stack_base := stack, running_cpu := THREAD_CPU_NONE,
     t_state := THREAD_STATE_READY, effective_priority := p, base_priority := p,
     default_time_slice := thread_default_time_slice p,
     remaining_time_slice := thread_default_time_slice p,
     kernel_stack_size := THREAD_KERNEL_STACK_SIZE, t_name := take 31 name\<rparr>"

definition create_thread_block ::
    "nat \<Rightarrow> scheduler \<Rightarrow> string option \<Rightarrow> thread_priority \<Rightarrow> ptr \<Rightarrow> u64 \<Rightarrow>
     (addr \<times> scheduler) option" where
  "create_thread_block c s name p block stack =
     (case (name, block) of (Some n, Some t) \<Rightarrow>
        if current_thread c s = None \<or> \<not> thread_priority_valid p \<or> stack = 0 then None
        else (case thread_prepare_context (upd_thread t (\<lambda>_. new_thread n p stack) s) t of
            None \<Rightarrow> None
          | Some s1 \<Rightarrow> if next_thread_id s1 = 0 then None
              else Some (t, (upd_thread t (\<lambda>x. x\<lparr>t_id := next_thread_id s1\<rparr>) s1)
                \<lparr>next_thread_id := next_thread_id s1 + 1, thread_blocks := t # thread_blocks s1\<rparr>))
      | _ \<Rightarrow> None)"

definition thread_create_with_priority ::
    "nat \<Rightarrow> scheduler \<Rightarrow> string option \<Rightarrow> thread_priority \<Rightarrow> ptr \<Rightarrow> u64 \<Rightarrow> ptr \<times> scheduler" where
  "thread_create_with_priority c s name p block stack =
     (case create_thread_block c s name p block stack of None \<Rightarrow> (None, s)
      | Some (t, s1) \<Rightarrow> (case scheduler_enqueue_locked c s1 t of
          (True, s2) \<Rightarrow> (Some t, s2)
        | (False, s2) \<Rightarrow> (None, s2\<lparr>thread_blocks := remove1 t (thread_blocks s2)\<rparr>)))"

definition thread_create_suspended_with_priority ::
    "nat \<Rightarrow> scheduler \<Rightarrow> string option \<Rightarrow> thread_priority \<Rightarrow> ptr \<Rightarrow> u64 \<Rightarrow> ptr \<times> scheduler" where
  "thread_create_suspended_with_priority c s name p block stack =
     (case create_thread_block c s name p block stack of None \<Rightarrow> (None, s)
      | Some (t, s1) \<Rightarrow> (Some t, s1))"

text \<open>
  The parts of \<^verbatim>\<open>thread_destroy\<close> and \<^verbatim>\<open>scheduler_terminate_thread\<close> under the scheduler lock; the
  cancellation of a mutex wait that follows is in the mutex component.
\<close>

definition thread_destroy_locked :: "scheduler \<Rightarrow> addr \<Rightarrow> scheduler option" where
  "thread_destroy_locked s t =
     (if t = bootstrap_thread s \<or> sleeping (threads s t) \<or>
         running_cpu (threads s t) \<noteq> THREAD_CPU_NONE \<or> context_switch_pending (threads s t) \<or>
         (t_state (threads s t) \<noteq> THREAD_STATE_READY \<and> t_state (threads s t) \<noteq> THREAD_STATE_TERMINATED)
      then None
      else if is_idle_thread s t then None
      else Some (scheduler_remove_queued_locked s t))"

definition terminate_thread_locked :: "scheduler \<Rightarrow> addr \<Rightarrow> scheduler option" where
  "terminate_thread_locked s t =
     (if t_state (threads s t) = THREAD_STATE_TERMINATED \<or> running_cpu (threads s t) \<noteq> THREAD_CPU_NONE
      then None
      else if is_idle_thread s t then None
      else let
          s1 = (if queued (threads s t) then scheduler_remove_queued_locked s t else s);
          s2 = (if sleeping (threads s1 t) then uncount_sleeping (sleeping_remove s1 t) else s1);
          s3 = (if t_state (threads s2 t) = THREAD_STATE_BLOCKED then uncount_blocked s2 else s2)
        in Some (upd_thread t (\<lambda>x. x\<lparr>t_state := THREAD_STATE_TERMINATED\<rparr>) s3))"

definition scheduler_thread_is_running :: "scheduler \<Rightarrow> ptr \<Rightarrow> bool" where
  "scheduler_thread_is_running s p = (case p of None \<Rightarrow> False
     | Some t \<Rightarrow> running_cpu (threads s t) \<noteq> THREAD_CPU_NONE \<or> context_switch_pending (threads s t))"

subsection \<open>Starting the scheduler and the CPUs\<close>

definition zero_statistics :: scheduler_statistics where
  "zero_statistics = \<lparr>context_switches = 0, timer_preemptions = 0, voluntary_yields = 0, stat_blocks = 0,
     stat_wakeups = 0, stat_sleeping = 0, stat_blocked = 0, peak_runnable = 0, idle_runtime_ticks = 0,
     dispatches = [0, 0, 0]\<rparr>"

text \<open>The bootstrap thread runs on the stack the boot code set up; \<open>bottom\<close> and \<open>sz\<close> bound it.\<close>

definition bootstrap_block :: "nat \<Rightarrow> u64 \<Rightarrow> u64 \<Rightarrow> kernel_thread" where
  "bootstrap_block c bottom sz = zero_thread\<lparr>t_id := 1, t_state := THREAD_STATE_RUNNING,
     effective_priority := THREAD_PRIORITY_NORMAL, base_priority := THREAD_PRIORITY_NORMAL,
     default_time_slice := thread_default_time_slice THREAD_PRIORITY_NORMAL,
     remaining_time_slice := thread_default_time_slice THREAD_PRIORITY_NORMAL,
     saved_stack_pointer := 0, saved_context_valid := False, running_cpu := of_nat c,
     stack_external := True, kernel_stack_base := bottom, kernel_stack_size := sz,
     t_name := ''bootstrap''\<rparr>"

definition scheduler_reset :: "nat \<Rightarrow> scheduler \<Rightarrow> u64 \<Rightarrow> u64 \<Rightarrow> scheduler" where
  "scheduler_reset c s bottom sz =
     upd_thread (bootstrap_thread s) (\<lambda>_. bootstrap_block c bottom sz)
       (upd_cpu c (\<lambda>x. x\<lparr>cpu_idle_thread := None, preemption_pending := False, context_switching := False,
            cpu_current_thread := Some (bootstrap_thread s)\<rparr>)
         (s\<lparr>ready_queues := replicate 3 empty_queue, next_thread_id := 2, scheduler_tick_count := 0,
            sleeping_threads := None, scheduler_stats := zero_statistics,
            thread_blocks := [bootstrap_thread s]\<rparr>))"

definition scheduler_init :: "nat \<Rightarrow> scheduler \<Rightarrow> u64 \<Rightarrow> u64 \<Rightarrow> ptr \<Rightarrow> u64 \<Rightarrow> bool \<times> scheduler" where
  "scheduler_init c s bottom sz block stack =
     (case thread_create_with_priority c (scheduler_reset c s bottom sz) (Some ''idle'')
             THREAD_PRIORITY_BACKGROUND block stack of
        (None, s1) \<Rightarrow> (False, upd_cpu c (\<lambda>x. x\<lparr>cpu_idle_thread := None, cpu_current_thread := None\<rparr>) s1)
      | (Some t, s1) \<Rightarrow> (True, upd_thread t (\<lambda>x. x\<lparr>t_state := THREAD_STATE_READY,
            running_cpu := THREAD_CPU_NONE\<rparr>)
          (scheduler_remove_queued_locked (upd_cpu c (\<lambda>x. x\<lparr>cpu_idle_thread := Some t\<rparr>) s1) t)))"

definition idle_block :: "u64 \<Rightarrow> u64 \<Rightarrow> kernel_thread" where
  "idle_block base sz = zero_thread\<lparr>t_state := THREAD_STATE_READY,
     base_priority := THREAD_PRIORITY_BACKGROUND, effective_priority := THREAD_PRIORITY_BACKGROUND,
     default_time_slice := thread_default_time_slice THREAD_PRIORITY_BACKGROUND,
     remaining_time_slice := thread_default_time_slice THREAD_PRIORITY_BACKGROUND,
     kernel_stack_base := base, kernel_stack_size := sz, stack_external := True, t_name := ''idle'',
     running_cpu := THREAD_CPU_NONE\<rparr>"

definition scheduler_prepare_idle_cpu ::
    "scheduler \<Rightarrow> nat \<Rightarrow> u64 \<Rightarrow> u64 \<Rightarrow> ptr \<Rightarrow> bool \<times> scheduler" where
  "scheduler_prepare_idle_cpu s i base sz block =
     (let cpu = cpus s ! i in
      if \<not> i < length (cpus s) \<or> \<not> cpu_present cpu \<or> cpu_bsp cpu \<or> cpu_idle_thread cpu \<noteq> None \<or>
         base = 0 \<or> sz < 64 then (False, s)
      else (case block of None \<Rightarrow> (False, s)
        | Some t \<Rightarrow> (case thread_prepare_context (upd_thread t (\<lambda>_. idle_block base sz) s) t of
            None \<Rightarrow> (False, s)
          | Some s1 \<Rightarrow> if next_thread_id s1 = 0 then (False, s)
              else (True, (upd_cpu i (\<lambda>x. x\<lparr>cpu_idle_thread := Some t\<rparr>)
                  (upd_thread t (\<lambda>x. x\<lparr>t_id := next_thread_id s1\<rparr>) s1))
                \<lparr>next_thread_id := next_thread_id s1 + 1, thread_blocks := t # thread_blocks s1\<rparr>))))"

text \<open>On success the CPU enters the idle thread's prepared frame and never returns to the caller.\<close>

definition scheduler_start_cpu :: "nat \<Rightarrow> scheduler \<Rightarrow> bool \<times> scheduler" where
  "scheduler_start_cpu c s =
     (let cpu = cpus s ! c in
      if cpu_bsp cpu \<or> cpu_current_thread cpu \<noteq> None then (False, s)
      else (case cpu_idle_thread cpu of None \<Rightarrow> (False, s)
        | Some t \<Rightarrow>
          if t_state (threads s t) \<noteq> THREAD_STATE_READY \<or> queued (threads s t) \<or>
             running_cpu (threads s t) \<noteq> THREAD_CPU_NONE \<or> \<not> thread_context_ready c s t then (False, s)
          else (True, upd_thread t (\<lambda>x. x\<lparr>saved_context_valid := False\<rparr>)
            (upd_cpu c (\<lambda>x. x\<lparr>cpu_current_thread := Some t,
                cpu_online := cpu_online x \<or> cpu_present x, kernel_thread_runs := 0\<rparr>)
              (upd_thread t (\<lambda>x. x\<lparr>t_state := THREAD_STATE_RUNNING, running_cpu := of_nat c\<rparr>) s)))))"

end
