(* ===== verification/Scheduler_Inv.thy ===== *)
theory Scheduler_Inv
  imports Scheduler
begin

section \<open>The scheduler's invariant\<close>

text \<open>
  The well-formedness of the scheduler state that every operation keeps: the ready queues and the
  sleep list are proper linked lists whose members have the matching state, every CPU runs the
  thread that says it runs there, and the idle threads are never queued. The kernel's own validator
  accepts every such state, so no operation is ever refused by it.
\<close>

subsection \<open>The validator accepts well-formed lists\<close>

lemma path_nth_next: "path nx p xs \<Longrightarrow> i < length xs \<Longrightarrow> nx (xs ! i) = first (drop (Suc i) xs)"
  using path_next [of nx p "take i xs" "xs ! i" "drop (Suc i) xs"] by (simp add: id_take_nth_drop [symmetric])

lemma first_drop: "first (drop i xs) = (if i < length xs then Some (xs ! i) else None)"
  by (simp add: first_def Cons_nth_drop_Suc [symmetric])

lemma list_ends_path:
  assumes "path nx p xs" "length xs < n + 2 * i"
  shows "0 < n \<Longrightarrow> list_ends nx n (first (drop i xs)) (first (drop (2 * i) xs))"
  using assms(2)
proof (induction n arbitrary: i)
  case (Suc n)
  note d = path_distinct [OF assms(1)]
  show ?case
  proof (cases "2 * i + 1 < length xs")
    case True
    have "nx (xs ! i) = first (drop (Suc i) xs)"
      using path_nth_next [OF assms(1), of i] True by simp
    moreover have "nx (xs ! (2 * i)) = Some (xs ! (2 * i + 1))"
      using path_nth_next [OF assms(1), of "2 * i"] True by (simp add: first_drop)
    moreover have "nx (xs ! (2 * i + 1)) = first (drop (2 * Suc i) xs)"
      using path_nth_next [OF assms(1), of "2 * i + 1"] True by simp
    moreover have "first (drop (Suc i) xs) \<noteq> first (drop (2 * Suc i) xs)"
      using True d by (auto simp: first_drop nth_eq_iff_index_eq)
    moreover have "list_ends nx n (first (drop (Suc i) xs)) (first (drop (2 * Suc i) xs))"
      using Suc.IH [of "Suc i"] Suc.prems True by auto
    ultimately show ?thesis using True by (simp add: first_drop)
  next
    case False
    have "nx (xs ! (2 * i)) = None" if "2 * i < length xs"
      using path_nth_next [OF assms(1) that] False by (simp add: first_drop)
    then show ?thesis by (simp add: first_drop)
  qed
qed simp

text \<open>What the validator asks of a queued thread.\<close>

definition queued_ok :: "scheduler \<Rightarrow> addr \<Rightarrow> bool" where
  "queued_ok s t \<longleftrightarrow> t_state (threads s t) = THREAD_STATE_READY \<and>
     thread_priority_state_valid (threads s t) \<and> \<not> sleeping (threads s t) \<and>
     running_cpu (threads s t) = THREAD_CPU_NONE"

lemma queue_check_repr:
  assumes "ready_repr s p (ys @ zs)"
    and "\<And>t. t \<in> set (ys @ zs) \<Longrightarrow> queued (threads s t) \<and> queued_ok s t \<and>
      effective_priority (threads s t) = p \<and> Some t \<noteq> idle"
  shows "queue_check s idle p (length zs) (first (rev ys)) (first zs) = Some (first (rev (ys @ zs)), 0)"
  using assms
proof (induction zs arbitrary: ys)
  case (Cons z zs)
  have "queue_check s idle p (length zs) (first (rev (ys @ [z]))) (first zs) =
      Some (first (rev ((ys @ [z]) @ zs)), 0)"
    by (rule Cons.IH) (use Cons.prems in auto)
  moreover have "t_next (threads s z) = first zs" "t_previous (threads s z) = first (rev ys)"
    using ready_repr_links [OF Cons.prems(1)] by auto
  ultimately show ?case
    using Cons.prems(2) [of z] by (auto simp: queued_ok_def Let_def)
qed simp

lemma queue_valid_repr:
  assumes "ready_repr s p xs"
    and "\<And>t. t \<in> set xs \<Longrightarrow> queued (threads s t) \<and> queued_ok s t \<and>
      effective_priority (threads s t) = p \<and> Some t \<noteq> idle"
  shows "queue_valid s idle p"
  using queue_check_repr [of s p "[]" xs idle] assms ready_reprD(1,2) [OF assms(1)]
  by (auto simp: queue_valid_def Let_def ready_repr_def first_rev)

lemma queue_members_repr: "ready_repr s p xs \<Longrightarrow> queue_members s p = xs"
  unfolding queue_members_def ready_repr_def by (auto intro: path_chain)

lemma lists_wf_members: "lists_wf s rq sl \<Longrightarrow> p < 3 \<Longrightarrow> queue_members s p = rq p"
  by (blast intro: queue_members_repr lists_wfD(2))

subsection \<open>The invariant\<close>

definition sleeper_ok :: "scheduler \<Rightarrow> addr \<Rightarrow> bool" where
  "sleeper_ok s t \<longleftrightarrow> t_state (threads s t) = THREAD_STATE_BLOCKED \<and>
     running_cpu (threads s t) = THREAD_CPU_NONE"

text \<open>
  A CPU's current thread: running, except in the middle of a dispatch, where it may be absent or
  already marked ready.
\<close>

definition current_ok :: "scheduler \<Rightarrow> nat \<Rightarrow> bool" where
  "current_ok s i = (let cpu = cpus s ! i in
     case cpu_current_thread cpu of None \<Rightarrow> context_switching cpu \<or> \<not> cpu_online cpu
     | Some t \<Rightarrow> t \<in> set (thread_blocks s) \<and> running_cpu (threads s t) = of_nat i \<and>
         (t_state (threads s t) = THREAD_STATE_RUNNING \<or>
          (context_switching cpu \<and> t_state (threads s t) = THREAD_STATE_READY)))"

definition idle_ok :: "scheduler \<Rightarrow> nat \<Rightarrow> bool" where
  "idle_ok s i = (let cpu = cpus s ! i in
     case cpu_idle_thread cpu of None \<Rightarrow> \<not> cpu_online cpu
     | Some t \<Rightarrow> t \<in> set (thread_blocks s) \<and> \<not> queued (threads s t) \<and>
         base_priority (threads s t) = THREAD_PRIORITY_BACKGROUND \<and>
         effective_priority (threads s t) = THREAD_PRIORITY_BACKGROUND \<and>
         (t_state (threads s t) = THREAD_STATE_READY \<or>
          (t_state (threads s t) = THREAD_STATE_RUNNING \<and>
           running_cpu (threads s t) \<noteq> THREAD_CPU_NONE)))"

text \<open>What holds of every allocated thread: valid priorities, and no CPU while blocked.\<close>

definition thread_ok :: "kernel_thread \<Rightarrow> bool" where
  "thread_ok th \<longleftrightarrow> thread_priority_state_valid th \<and>
     (t_state th = THREAD_STATE_BLOCKED \<longrightarrow> running_cpu th = THREAD_CPU_NONE)"

lemma thread_okD: "thread_ok th \<Longrightarrow> thread_priority_state_valid th"
  by (simp add: thread_ok_def)

definition sched_ok :: "scheduler \<Rightarrow> (nat \<Rightarrow> addr list) \<Rightarrow> addr list \<Rightarrow> bool" where
  "sched_ok s rq sl \<longleftrightarrow> lists_wf s rq sl \<and> length (cpus s) < 2 ^ 32 - 1 \<and>
     (\<forall>t\<in>set (thread_blocks s). thread_ok (threads s t)) \<and>
     (\<forall>t. queued (threads s t) \<longrightarrow> queued_ok s t \<and> t \<in> set (thread_blocks s)) \<and>
     (\<forall>t. sleeping (threads s t) \<longrightarrow> sleeper_ok s t) \<and>
     (\<forall>i<length (cpus s). current_ok s i \<and> idle_ok s i)"

lemma sched_okD:
  assumes "sched_ok s rq sl"
  shows "lists_wf s rq sl" "length (cpus s) < 2 ^ 32 - 1"
    "t \<in> set (thread_blocks s) \<Longrightarrow> thread_ok (threads s t)"
    "queued (threads s t) \<Longrightarrow> queued_ok s t" "queued (threads s t) \<Longrightarrow> t \<in> set (thread_blocks s)"
    "sleeping (threads s t) \<Longrightarrow> sleeper_ok s t"
    "i < length (cpus s) \<Longrightarrow> current_ok s i" "i < length (cpus s) \<Longrightarrow> idle_ok s i"
  using assms unfolding sched_ok_def by blast+

lemma sched_okI:
  assumes "lists_wf s rq sl" "length (cpus s) < 2 ^ 32 - 1"
    and "\<And>t. t \<in> set (thread_blocks s) \<Longrightarrow> thread_ok (threads s t)"
    and "\<And>t. queued (threads s t) \<Longrightarrow> queued_ok s t \<and> t \<in> set (thread_blocks s)"
    and "\<And>t. sleeping (threads s t) \<Longrightarrow> sleeper_ok s t"
    and "\<And>i. i < length (cpus s) \<Longrightarrow> current_ok s i"
    and "\<And>i. i < length (cpus s) \<Longrightarrow> idle_ok s i"
  shows "sched_ok s rq sl"
  unfolding sched_ok_def using assms by blast

lemma of_nat_cpu_not_none: "i < 2 ^ 32 - 1 \<Longrightarrow> (of_nat i :: u32) \<noteq> THREAD_CPU_NONE"
proof
  assume i: "i < 2 ^ 32 - 1" and "(of_nat i :: u32) = THREAD_CPU_NONE"
  moreover have "THREAD_CPU_NONE = 0xFFFFFFFF" by (simp add: THREAD_CPU_NONE_def)
  ultimately have "unat (of_nat i :: u32) = unat (0xFFFFFFFF :: u32)" by simp
  with i show False by (simp add: unat_of_nat)
qed

lemma of_nat_cpu_inj: "i < 2 ^ 32 - 1 \<Longrightarrow> j < 2 ^ 32 - 1 \<Longrightarrow> (of_nat i :: u32) = of_nat j \<longleftrightarrow> i = j"
  by (simp add: word_unat_eq_iff unat_of_nat)

text \<open>Threads with a state of their own: neither current nor idle anywhere.\<close>

lemma current_running_cpu:
  assumes "sched_ok s rq sl" "i < length (cpus s)" "cpu_current_thread (cpus s ! i) = Some t"
  shows "running_cpu (threads s t) = of_nat i" "running_cpu (threads s t) \<noteq> THREAD_CPU_NONE"
    "t \<in> set (thread_blocks s)" "\<not> queued (threads s t)" "\<not> sleeping (threads s t)"
proof -
  have c: "running_cpu (threads s t) = of_nat i" "t \<in> set (thread_blocks s)"
    using sched_okD(7) [OF assms(1,2)] assms(3) by (auto simp: current_ok_def Let_def)
  then show r: "running_cpu (threads s t) \<noteq> THREAD_CPU_NONE"
    using of_nat_cpu_not_none [of i] assms(2) sched_okD(2) [OF assms(1)] by simp
  show "\<not> queued (threads s t)" using sched_okD(4) [OF assms(1)] r by (auto simp: queued_ok_def)
  show "\<not> sleeping (threads s t)" using sched_okD(6) [OF assms(1)] r by (auto simp: sleeper_ok_def)
qed (use sched_okD(7) [OF assms(1,2)] assms(3) in \<open>auto simp: current_ok_def Let_def\<close>)

lemma idle_thread_ok:
  assumes "sched_ok s rq sl" "i < length (cpus s)" "cpu_idle_thread (cpus s ! i) = Some t"
  shows "t \<in> set (thread_blocks s)" "\<not> queued (threads s t)" "\<not> sleeping (threads s t)"
    "t_state (threads s t) \<noteq> THREAD_STATE_BLOCKED" "t_state (threads s t) \<noteq> THREAD_STATE_TERMINATED"
    "base_priority (threads s t) = THREAD_PRIORITY_BACKGROUND"
    "effective_priority (threads s t) = THREAD_PRIORITY_BACKGROUND"
  using sched_okD(8) [OF assms(1,2)] sched_okD(6) [OF assms(1), of t] assms(3)
  by (auto simp: idle_ok_def sleeper_ok_def Let_def)

lemma scheduler_validate_ok:
  assumes ok: "sched_ok s rq sl" and c: "c < length (cpus s)"
  shows "scheduler_validate_locked c s"
proof -
  note wf = sched_okD(1) [OF ok]
  note mem = lists_wf_mem [OF wf]
  have idle: "\<not> queued (threads s t)" if "idle_thread c s = Some t" for t
    using sched_okD(8) [OF ok c] that by (auto simp: idle_ok_def Let_def)
  have "cpu_state_valid s i" if i: "i < length (cpus s)" for i
    using sched_okD(7,8) [OF ok i] current_running_cpu [OF ok i]
    by (auto simp: cpu_state_valid_def current_ok_def idle_ok_def Let_def split: option.splits)
  moreover have "list_ends (nxt s) (Suc (length (thread_blocks s))) (sleeping_threads s) (sleeping_threads s)"
    using list_ends_path [OF lists_wfD(3) [OF wf], of "Suc (length (thread_blocks s))" 0]
      lists_wf_length [OF wf] path_first [OF lists_wfD(3) [OF wf]] by simp
  moreover have "queue_valid s (idle_thread c s) p" if "p < 3" for p
    by (rule queue_valid_repr [OF lists_wfD(2) [OF wf that]])
      (use mem [OF that] sched_okD(4) [OF ok] idle in auto)
  moreover have "queues_apart s"
    using lists_wf_members [OF wf] mem by (auto simp: queues_apart_def list_all_iff)
  moreover have "sleepers_valid s (idle_thread c s)"
    unfolding sleepers_valid_def path_chain [OF lists_wfD(3) [OF wf] lists_wf_length [OF wf]]
    using lists_wf_members [OF wf] lists_wf_apart [OF wf] lists_wfD(6,7,8) [OF wf] sched_okD(3,6) [OF ok]
      idle_thread_ok(3) [OF ok c]
    by (auto simp: list_all_iff sleeper_ok_def Let_def thread_ok_def)
  moreover have "case current_thread c s of None \<Rightarrow> True
      | Some t \<Rightarrow> \<not> queued (threads s t) \<and> thread_priority_state_valid (threads s t)"
    using current_running_cpu [OF ok c] sched_okD(3) [OF ok] by (auto simp: thread_ok_def split: option.splits)
  moreover have "case idle_thread c s of None \<Rightarrow> True
      | Some t \<Rightarrow> \<not> queued (threads s t) \<and> base_priority (threads s t) = THREAD_PRIORITY_BACKGROUND \<and>
          effective_priority (threads s t) = THREAD_PRIORITY_BACKGROUND"
    using sched_okD(8) [OF ok c] by (auto simp: idle_ok_def Let_def split: option.splits)
  ultimately show ?thesis
    by (simp add: scheduler_validate_locked_def list_all_iff)
qed

subsection \<open>Frame lemmas\<close>

lemma sched_ok_cong:
  assumes "threads s' = threads s" "cpus s' = cpus s" "ready_queues s' = ready_queues s"
    "sleeping_threads s' = sleeping_threads s" "thread_blocks s' = thread_blocks s"
  shows "sched_ok s' rq sl = sched_ok s rq sl"
  unfolding sched_ok_def lists_wf_def ready_repr_def queued_ok_def sleeper_ok_def current_ok_def
    idle_ok_def assms ..

lemma sched_ok_stats [simp]: "sched_ok (upd_stats f s) rq sl = sched_ok s rq sl"
  by (rule sched_ok_cong) simp_all

lemma sched_ok_ignores [simp]:
  "sched_ok (s\<lparr>scheduler_tick_count := n\<rparr>) rq sl = sched_ok s rq sl"
  by (rule sched_ok_cong; simp)

lemma sched_ok_peak [simp]: "sched_ok (scheduler_update_runnable_peak c s) rq sl = sched_ok s rq sl"
  by (simp add: scheduler_update_runnable_peak_def Let_def)

text \<open>The statistics helpers change nothing but the statistics.\<close>

lemma stats_frame [simp]:
  "threads (scheduler_update_runnable_peak c s) = threads s"
  "cpus (scheduler_update_runnable_peak c s) = cpus s"
  "thread_blocks (scheduler_update_runnable_peak c s) = thread_blocks s"
  "bootstrap_thread (scheduler_update_runnable_peak c s) = bootstrap_thread s"
  "ready_queues (scheduler_update_runnable_peak c s) = ready_queues s"
  "sleeping_threads (scheduler_update_runnable_peak c s) = sleeping_threads s"
  "scheduler_tick_count (scheduler_update_runnable_peak c s) = scheduler_tick_count s"
  by (simp_all add: scheduler_update_runnable_peak_def Let_def)

text \<open>Changing fields of a thread that no list and no CPU depends on.\<close>

definition links_kept :: "kernel_thread \<Rightarrow> kernel_thread \<Rightarrow> bool" where
  "links_kept x y \<longleftrightarrow> t_next y = t_next x \<and> t_previous y = t_previous x \<and> queued y = queued x \<and>
     sleeping y = sleeping x"

lemma lists_wf_upd_thread:
  assumes "lists_wf s rq sl" "links_kept (threads s t) (f (threads s t))"
    and "queued (threads s t) \<Longrightarrow> effective_priority (f (threads s t)) = effective_priority (threads s t)"
  shows "lists_wf (upd_thread t f s) rq sl"
proof -
  have n: "nxt (upd_thread t f s) = nxt s" "prv (upd_thread t f s) = prv s"
    using assms(2) by (auto simp: links_kept_def)
  have "ready_repr (upd_thread t f s) p xs = ready_repr s p xs" for p xs
    unfolding ready_repr_def n by simp
  moreover have q: "queued (threads (upd_thread t f s) a) = queued (threads s a)"
    "sleeping (threads (upd_thread t f s) a) = sleeping (threads s a)" for a
    using assms(2) by (auto simp: links_kept_def)
  moreover have "effective_priority (threads (upd_thread t f s) a) = effective_priority (threads s a)"
    if "queued (threads s a)" for a
    using that assms(3) by auto
  moreover have "queued (threads s a)" if "p < 3" "a \<in> set (rq p)" for p a
    using lists_wfD(4) [OF assms(1)] that by blast
  ultimately show ?thesis
    using lists_wfD(1,2,3,5,8) [OF assms(1)] lists_wf_apart [OF assms(1)]
    by (intro lists_wfI) (simp_all add: n lists_wfD(4,6) [OF assms(1)] del: upd_sel(1) nxt_upd prv_upd)
qed

definition free_thread :: "scheduler \<Rightarrow> addr \<Rightarrow> bool" where
  "free_thread s t \<longleftrightarrow> \<not> queued (threads s t) \<and> \<not> sleeping (threads s t) \<and>
     (\<forall>i<length (cpus s). cpu_current_thread (cpus s ! i) \<noteq> Some t \<and>
        cpu_idle_thread (cpus s ! i) \<noteq> Some t)"

lemma sched_ok_upd_free:
  assumes ok: "sched_ok s rq sl" and free: "free_thread s t"
    and f: "links_kept (threads s t) (f (threads s t))"
    and p: "t \<in> set (thread_blocks s) \<Longrightarrow> thread_ok (f (threads s t))"
  shows "sched_ok (upd_thread t f s) rq sl"
proof (rule sched_okI)
  show "lists_wf (upd_thread t f s) rq sl"
    using lists_wf_upd_thread [of s rq sl t f] sched_okD(1) [OF ok] f free by (simp add: free_thread_def)
  have fq: "\<not> queued (f (threads s t))" "\<not> sleeping (f (threads s t))"
    using f free by (auto simp: links_kept_def free_thread_def)
  show "length (cpus (upd_thread t f s)) < 2 ^ 32 - 1" using sched_okD(2) [OF ok] by simp
  show "thread_ok (threads (upd_thread t f s) a)"
    if "a \<in> set (thread_blocks (upd_thread t f s))" for a
    using that p sched_okD(3) [OF ok] by (cases "a = t") auto
  show "queued_ok (upd_thread t f s) a \<and> a \<in> set (thread_blocks (upd_thread t f s))"
    if "queued (threads (upd_thread t f s) a)" for a
    using that fq sched_okD(4,5) [OF ok, of a] by (auto simp: queued_ok_def split: if_splits)
  show "sleeper_ok (upd_thread t f s) a" if "sleeping (threads (upd_thread t f s) a)" for a
    using that fq sched_okD(6) [OF ok, of a] by (auto simp: sleeper_ok_def split: if_splits)
  fix i assume i: "i < length (cpus (upd_thread t f s))"
  then show "current_ok (upd_thread t f s) i" "idle_ok (upd_thread t f s) i"
    using sched_okD(7,8) [OF ok, of i] free
    by (auto simp: current_ok_def idle_ok_def free_thread_def Let_def split: option.splits)
qed

text \<open>Changing fields the invariant does not mention.\<close>

definition sched_view :: "kernel_thread \<Rightarrow> kernel_thread \<Rightarrow> bool" where
  "sched_view x y \<longleftrightarrow> links_kept x y \<and> t_state y = t_state x \<and> base_priority y = base_priority x \<and>
     effective_priority y = effective_priority x \<and> wakeup_boosted y = wakeup_boosted x \<and>
     running_cpu y = running_cpu x"

lemma sched_ok_upd_view:
  assumes ok: "sched_ok s rq sl" and f: "sched_view (threads s t) (f (threads s t))"
  shows "sched_ok (upd_thread t f s) rq sl"
proof -
  have view: "t_state (threads (upd_thread t f s) a) = t_state (threads s a)"
    "running_cpu (threads (upd_thread t f s) a) = running_cpu (threads s a)"
    "queued (threads (upd_thread t f s) a) = queued (threads s a)"
    "sleeping (threads (upd_thread t f s) a) = sleeping (threads s a)"
    "effective_priority (threads (upd_thread t f s) a) = effective_priority (threads s a)"
    "base_priority (threads (upd_thread t f s) a) = base_priority (threads s a)"
    "thread_priority_state_valid (threads (upd_thread t f s) a) = thread_priority_state_valid (threads s a)" for a
    using f by (auto simp: sched_view_def links_kept_def thread_priority_state_valid_def)
  have wf: "lists_wf (upd_thread t f s) rq sl"
    by (rule lists_wf_upd_thread [OF sched_okD(1) [OF ok]])
      (use f in \<open>auto simp: sched_view_def\<close>)
  show ?thesis
    using ok wf
    unfolding sched_ok_def queued_ok_def sleeper_ok_def current_ok_def idle_ok_def
      thread_ok_def view upd_sel(2,7)
    by blast
qed

lemma free_of_state:
  assumes "sched_ok s rq sl" "\<not> queued (threads s t)" "\<not> sleeping (threads s t)"
    and "t_state (threads s t) \<noteq> THREAD_STATE_RUNNING"
    and "t_state (threads s t) = THREAD_STATE_READY \<Longrightarrow> running_cpu (threads s t) = THREAD_CPU_NONE \<and>
      \<not> is_idle_thread s t"
  shows "free_thread s t"
  unfolding free_thread_def
proof (intro conjI allI impI)
  fix i assume i: "i < length (cpus s)"
  show "cpu_current_thread (cpus s ! i) \<noteq> Some t"
    using current_running_cpu [OF assms(1) i] sched_okD(7) [OF assms(1) i] assms(4,5)
    by (auto simp: current_ok_def Let_def)
  show "cpu_idle_thread (cpus s ! i) \<noteq> Some t"
    using sched_okD(8) [OF assms(1) i] assms(4,5) nth_mem [OF i]
    by (auto simp: idle_ok_def Let_def is_idle_thread_def list_ex_iff)
qed (use assms in auto)

subsection \<open>The list operations keep the invariant\<close>

lemma current_ok_cong:
  assumes "cpus s' = cpus s" "thread_blocks s' = thread_blocks s"
    and "\<And>t. t_state (threads s' t) = t_state (threads s t)"
    and "\<And>t. running_cpu (threads s' t) = running_cpu (threads s t)"
  shows "current_ok s' i = current_ok s i"
  unfolding current_ok_def assms ..

lemma idle_ok_cong:
  assumes "cpus s' = cpus s" "thread_blocks s' = thread_blocks s"
    and "\<And>t. t_state (threads s' t) = t_state (threads s t)"
    and "\<And>t. running_cpu (threads s' t) = running_cpu (threads s t)"
    and "\<And>t. base_priority (threads s' t) = base_priority (threads s t)"
    and "\<And>t. effective_priority (threads s' t) = effective_priority (threads s t)"
    and "\<And>t. cpu_idle_thread (cpus s ! i) = Some t \<Longrightarrow> queued (threads s' t) \<Longrightarrow> queued (threads s t)"
    and "idle_ok s i"
  shows "idle_ok s' i"
  using assms(7,8) unfolding idle_ok_def assms(1-6) Let_def by (auto split: option.splits)

text \<open>One lemma for the four list operations: they change links and list flags only.\<close>

lemma sched_ok_lists:
  assumes ok: "sched_ok s rq sl" and wf: "lists_wf s' rq' sl'"
    and frame: "cpus s' = cpus s" "thread_blocks s' = thread_blocks s"
      "\<And>t. t_state (threads s' t) = t_state (threads s t)"
      "\<And>t. running_cpu (threads s' t) = running_cpu (threads s t)"
      "\<And>t. base_priority (threads s' t) = base_priority (threads s t)"
      "\<And>t. effective_priority (threads s' t) = effective_priority (threads s t)"
      "\<And>t. wakeup_boosted (threads s' t) = wakeup_boosted (threads s t)"
    and q: "\<And>a. queued (threads s' a) \<Longrightarrow> \<not> queued (threads s a) \<Longrightarrow>
      t_state (threads s a) = THREAD_STATE_READY \<and> running_cpu (threads s a) = THREAD_CPU_NONE \<and>
      a \<in> set (thread_blocks s) \<and> free_thread s a"
    and sl: "\<And>a. sleeping (threads s' a) \<Longrightarrow> \<not> sleeping (threads s a) \<Longrightarrow> sleeper_ok s a"
  shows "sched_ok s' rq' sl'"
proof (rule sched_okI [OF wf])
  have pv: "thread_priority_state_valid (threads s' t) = thread_priority_state_valid (threads s t)" for t
    by (simp add: thread_priority_state_valid_def frame)
  show "length (cpus s') < 2 ^ 32 - 1" using sched_okD(2) [OF ok] frame by simp
  show "thread_ok (threads s' t)" if "t \<in> set (thread_blocks s')" for t
    using sched_okD(3) [OF ok] that frame pv by (simp add: thread_ok_def)
  show "queued_ok s' t \<and> t \<in> set (thread_blocks s')" if "queued (threads s' t)" for t
    using that q [of t] sched_okD(3,4,5) [OF ok, of t] lists_wfD(7) [OF wf that] frame pv
    by (auto simp: queued_ok_def thread_ok_def)
  show "sleeper_ok s' t" if "sleeping (threads s' t)" for t
    using that sl [of t] sched_okD(6) [OF ok, of t] frame by (auto simp: sleeper_ok_def)
  fix i assume i: "i < length (cpus s')"
  then show "current_ok s' i"
    using sched_okD(7) [OF ok, of i] current_ok_cong [OF frame(1-4)] frame(1) by simp
  show "idle_ok s' i"
    by (rule idle_ok_cong [OF frame(1-6) _ sched_okD(8) [OF ok]])
      (use i frame(1) q in \<open>auto simp: free_thread_def\<close>)
qed

lemma enqueue_ok:
  assumes ok: "sched_ok s rq sl" and c: "c < length (cpus s)"
    and t: "t \<in> set (thread_blocks s)" "free_thread s t"
      "t_state (threads s t) = THREAD_STATE_READY" "running_cpu (threads s t) = THREAD_CPU_NONE"
    and p: "effective_priority (threads s t) = p"
  shows "scheduler_enqueue_locked c s t = (True, scheduler_update_runnable_peak c (queue_append s t))"
    and "sched_ok (queue_append s t) (rq(p := rq p @ [t])) sl" and "p < 3"
proof -
  show p3: "p < 3"
    using sched_okD(3) [OF ok t(1)] p by (simp add: thread_ok_def thread_priority_state_valid_def)
  have nq: "\<not> queued (threads s t)" "\<not> sleeping (threads s t)" using t(2) by (auto simp: free_thread_def)
  show ok': "sched_ok (queue_append s t) (rq(p := rq p @ [t])) sl"
    by (rule sched_ok_lists [OF ok queue_append_wf [OF sched_okD(1) [OF ok] nq p p3]]) (use t in auto)
  show "scheduler_enqueue_locked c s t = (True, scheduler_update_runnable_peak c (queue_append s t))"
    using scheduler_validate_ok [OF ok', of c] c t nq p p3
    by (simp add: scheduler_enqueue_locked_def Let_def)
qed

lemma remove_queued_ok:
  assumes ok: "sched_ok s rq sl" and t: "queued (threads s t)" "effective_priority (threads s t) = p"
  shows "sched_ok (scheduler_remove_queued_locked s t) (rq(p := remove1 t (rq p))) sl"
  by (rule sched_ok_lists [OF ok remove_queued_wf [OF sched_okD(1) [OF ok] t]]) auto

lemma sleeping_remove_ok:
  assumes ok: "sched_ok s rq sl" and t: "sleeping (threads s t)"
  shows "sched_ok (sleeping_remove s t) rq (remove1 t sl)"
  by (rule sched_ok_lists [OF ok sleeping_remove_wf [OF sched_okD(1) [OF ok] t]]) auto

lemma sleeping_remove_idle: "\<not> sleeping (threads s t) \<Longrightarrow> sleeping_remove s t = s"
  by (simp add: sleeping_remove_def)

lemma sleeping_push_ok:
  assumes ok: "sched_ok s rq sl"
    and t: "\<not> queued (threads s t)" "\<not> sleeping (threads s t)" "t \<in> set (thread_blocks s)" "sleeper_ok s t"
  shows "sched_ok (sleeping_push s t) rq (t # sl)"
  by (rule sched_ok_lists [OF ok sleeping_push_wf [OF sched_okD(1) [OF ok] t(1-3)]]) (use t in auto)

text \<open>The invariant without naming the lists.\<close>

definition sched_good :: "scheduler \<Rightarrow> bool" where
  "sched_good s \<longleftrightarrow> (\<exists>rq sl. sched_ok s rq sl)"

lemma sched_goodI: "sched_ok s rq sl \<Longrightarrow> sched_good s"
  unfolding sched_good_def by blast

lemma sched_good_validates: "sched_good s \<Longrightarrow> c < length (cpus s) \<Longrightarrow> scheduler_validate_locked c s"
  unfolding sched_good_def using scheduler_validate_ok by blast

subsection \<open>Operations that leave the CPUs alone\<close>

text \<open>
  What an operation keeps when it neither dispatches nor switches: which thread each CPU runs, and
  for every thread its CPU, its saved context and, while it is on a CPU, its state.
\<close>

definition cpu_view :: "cpu_local \<Rightarrow> cpu_local \<Rightarrow> bool" where
  "cpu_view x y \<longleftrightarrow> cpu_current_thread y = cpu_current_thread x \<and> cpu_idle_thread y = cpu_idle_thread x \<and>
     cpu_online y = cpu_online x \<and> context_switching y = context_switching x \<and> cpu_bsp y = cpu_bsp x"

definition stack_view :: "kernel_thread \<Rightarrow> kernel_thread \<Rightarrow> bool" where
  "stack_view x y \<longleftrightarrow> running_cpu y = running_cpu x \<and> saved_context_valid y = saved_context_valid x \<and>
     saved_stack_pointer y = saved_stack_pointer x \<and> saved_rflags y = saved_rflags x \<and> kernel_stack_base y = kernel_stack_base x \<and>
     kernel_stack_size y = kernel_stack_size x \<and> stack_external y = stack_external x \<and>
     context_switch_pending y = context_switch_pending x \<and>
     (running_cpu x \<noteq> THREAD_CPU_NONE \<longrightarrow> t_state y = t_state x \<and> queued y = queued x)"

definition quiet :: "scheduler \<Rightarrow> scheduler \<Rightarrow> bool" where
  "quiet s s' \<longleftrightarrow> length (cpus s') = length (cpus s) \<and>
     (\<forall>i<length (cpus s). cpu_view (cpus s ! i) (cpus s' ! i)) \<and>
     thread_blocks s' = thread_blocks s \<and> bootstrap_thread s' = bootstrap_thread s \<and>
     (\<forall>t. stack_view (threads s t) (threads s' t))"

lemma cpu_view_refl [simp]: "cpu_view x x"
  by (simp add: cpu_view_def)

lemma cpu_view_trans: "cpu_view x y \<Longrightarrow> cpu_view y z \<Longrightarrow> cpu_view x z"
  by (simp add: cpu_view_def)

lemma stack_view_trans: "stack_view x y \<Longrightarrow> stack_view y z \<Longrightarrow> stack_view x z"
  by (simp add: stack_view_def)

lemma quiet_refl [simp]: "quiet s s"
  by (simp add: quiet_def stack_view_def)

lemma quiet_trans:
  assumes "quiet s s1" "quiet s1 s2"
  shows "quiet s s2"
proof -
  have "cpu_view (cpus s ! i) (cpus s2 ! i)" if "i < length (cpus s)" for i
    using assms that cpu_view_trans [of "cpus s ! i" "cpus s1 ! i" "cpus s2 ! i"] by (simp add: quiet_def)
  moreover have "stack_view (threads s t) (threads s2 t)" for t
    using assms stack_view_trans [of "threads s t" "threads s1 t" "threads s2 t"] by (simp add: quiet_def)
  ultimately show ?thesis using assms by (simp add: quiet_def)
qed

lemma quietI:
  assumes "cpus s' = cpus s" "thread_blocks s' = thread_blocks s" "bootstrap_thread s' = bootstrap_thread s"
    and "\<And>t. stack_view (threads s t) (threads s' t)"
  shows "quiet s s'"
  using assms by (simp add: quiet_def)

lemma quiet_upd_thread:
  "stack_view (threads s t) (f (threads s t)) \<Longrightarrow> quiet s (upd_thread t f s)"
  by (rule quietI) (auto simp: stack_view_def)

lemma quiet_upd_cpu:
  "(c < length (cpus s) \<Longrightarrow> cpu_view (cpus s ! c) (f (cpus s ! c))) \<Longrightarrow> quiet s (upd_cpu c f s)"
  by (cases "c < length (cpus s)") (auto simp: quiet_def nth_list_update stack_view_def)

lemma quiet_stats [simp]: "quiet s (upd_stats f s') = quiet s s'"
  by (simp add: quiet_def)

lemma quiet_peak [simp]: "quiet s (scheduler_update_runnable_peak c s)"
  by (rule quietI) (auto simp: stack_view_def)

lemma quiet_append: "running_cpu (threads s t) = THREAD_CPU_NONE \<Longrightarrow> quiet s (queue_append s t)"
  by (rule quietI) (auto simp: stack_view_def)

lemma quiet_remove: "running_cpu (threads s t) = THREAD_CPU_NONE \<Longrightarrow> quiet s (scheduler_remove_queued_locked s t)"
  by (rule quietI) (auto simp: stack_view_def)

lemma quiet_sleeping_remove [simp]: "quiet s (sleeping_remove s t)"
  by (rule quietI) (auto simp: stack_view_def)

lemma sched_ok_cpu_view:
  assumes ok: "sched_ok s rq sl" and len: "length (cpus s') = length (cpus s)"
    and view: "\<And>i. i < length (cpus s) \<Longrightarrow> cpu_view (cpus s ! i) (cpus s' ! i)"
    and same: "threads s' = threads s" "ready_queues s' = ready_queues s"
      "sleeping_threads s' = sleeping_threads s" "thread_blocks s' = thread_blocks s"
  shows "sched_ok s' rq sl"
proof (rule sched_okI)
  show "lists_wf s' rq sl"
    using sched_okD(1) [OF ok] unfolding lists_wf_def ready_repr_def same .
  show "length (cpus s') < 2 ^ 32 - 1" unfolding len by (rule sched_okD(2) [OF ok])
  show "thread_ok (threads s' t)" if "t \<in> set (thread_blocks s')" for t
    using that unfolding same by (rule sched_okD(3) [OF ok])
  show "queued_ok s' t \<and> t \<in> set (thread_blocks s')" if "queued (threads s' t)" for t
    using that sched_okD(4,5) [OF ok] unfolding queued_ok_def same by blast
  show "sleeper_ok s' t" if "sleeping (threads s' t)" for t
    using that sched_okD(6) [OF ok] unfolding sleeper_ok_def same by blast
  fix i assume "i < length (cpus s')"
  then have i: "i < length (cpus s)" unfolding len .
  have v: "cpu_current_thread (cpus s' ! i) = cpu_current_thread (cpus s ! i)"
    "cpu_idle_thread (cpus s' ! i) = cpu_idle_thread (cpus s ! i)"
    "cpu_online (cpus s' ! i) = cpu_online (cpus s ! i)"
    "context_switching (cpus s' ! i) = context_switching (cpus s ! i)"
    using view [OF i] by (auto simp: cpu_view_def)
  show "current_ok s' i" using sched_okD(7) [OF ok i] unfolding current_ok_def Let_def same v .
  show "idle_ok s' i" using sched_okD(8) [OF ok i] unfolding idle_ok_def Let_def same v .
qed

lemma sched_good_upd_cpu:
  assumes "sched_good s" "c < length (cpus s) \<Longrightarrow> cpu_view (cpus s ! c) (f (cpus s ! c))"
  shows "sched_good (upd_cpu c f s)"
proof -
  obtain rq sl where ok: "sched_ok s rq sl" using assms(1) by (auto simp: sched_good_def)
  have "cpu_view (cpus s ! i) (cpus (upd_cpu c f s) ! i)" if "i < length (cpus s)" for i
    using that assms(2) by (cases "i = c") simp_all
  then show ?thesis by (intro sched_goodI [OF sched_ok_cpu_view [OF ok]]) simp_all
qed

text \<open>A ready thread that is neither queued nor on a CPU; no operation below leaves a new one behind.\<close>

definition parked :: "scheduler \<Rightarrow> addr \<Rightarrow> bool" where
  "parked s t \<longleftrightarrow> t_state (threads s t) = THREAD_STATE_READY \<and>
     running_cpu (threads s t) = THREAD_CPU_NONE \<and> \<not> queued (threads s t)"

text \<open>All together: the operation keeps the invariant, leaves the CPUs alone and parks nobody.\<close>

definition keeps :: "scheduler \<Rightarrow> scheduler \<Rightarrow> bool" where
  "keeps s s' \<longleftrightarrow> sched_good s' \<and> quiet s s' \<and> (\<forall>t. parked s' t \<longrightarrow> parked s t)"

lemma keeps_trans: "keeps s s1 \<Longrightarrow> keeps s1 s2 \<Longrightarrow> keeps s s2"
  unfolding keeps_def using quiet_trans by blast

lemma keepsD: "keeps s s' \<Longrightarrow> sched_good s'" "keeps s s' \<Longrightarrow> quiet s s'"
  "keeps s s' \<Longrightarrow> parked s' t \<Longrightarrow> parked s t"
  "keeps s s' \<Longrightarrow> length (cpus s') = length (cpus s)" "keeps s s' \<Longrightarrow> thread_blocks s' = thread_blocks s"
  by (auto simp: keeps_def quiet_def)

lemma keepsI: "sched_ok s' rq sl \<Longrightarrow> quiet s s' \<Longrightarrow> (\<And>t. parked s' t \<Longrightarrow> parked s t) \<Longrightarrow> keeps s s'"
  by (auto simp: keeps_def intro: sched_goodI)

lemma parked_other:
  assumes "quiet s s'" "queued (threads s' t) \<or> t_state (threads s' t) \<noteq> THREAD_STATE_READY"
    and "\<And>a. a \<noteq> t \<Longrightarrow> t_state (threads s' a) = t_state (threads s a)"
    and "\<And>a. a \<noteq> t \<Longrightarrow> queued (threads s' a) = queued (threads s a)"
  shows "parked s' a \<Longrightarrow> parked s a"
  using assms by (cases "a = t") (auto simp: parked_def quiet_def stack_view_def)

lemma sched_good_stats [simp]: "sched_good (upd_stats f s) = sched_good s"
  by (simp add: sched_good_def)

lemma keeps_refl: "sched_good s \<Longrightarrow> keeps s s"
  by (simp add: keeps_def)

lemma keeps_stats: "keeps s s' \<Longrightarrow> keeps s (upd_stats f s')"
  by (simp add: keeps_def parked_def)

lemma keeps_preempt: "keeps s s' \<Longrightarrow> keeps s (upd_cpu c (\<lambda>x. x\<lparr>preemption_pending := b\<rparr>) s')"
  unfolding keeps_def parked_def
  by (auto intro!: sched_good_upd_cpu quiet_trans [OF _ quiet_upd_cpu] simp: cpu_view_def)

lemma keeps_set_preemption: "keeps s s' \<Longrightarrow> keeps s (set_preemption c b s')"
  by (simp add: set_preemption_def keeps_preempt)

end
