(* ===== verification/Scheduler_Wake.thy ===== *)
theory Scheduler_Wake
  imports Scheduler_Inv
begin

section \<open>Waking, ticking and aging keep the invariant\<close>

text \<open>
  The operations that move threads between lists without touching what the CPUs run: waking a
  blocked thread, the global tick with its sleepers, the aging of ready threads, and termination and
  destruction of threads that are not on a CPU. Waking a blocked thread always succeeds, which is
  what the mutex and the message passing code rely on.
\<close>

subsection \<open>Waking one thread\<close>

lemma wake_priority_sel [simp]:
  "t_state (wake_priority x) = THREAD_STATE_READY" "running_cpu (wake_priority x) = THREAD_CPU_NONE"
  "queued (wake_priority x) = queued x" "sleeping (wake_priority x) = sleeping x"
  "t_next (wake_priority x) = t_next x" "t_previous (wake_priority x) = t_previous x"
  "base_priority (wake_priority x) = base_priority x"
  by (simp_all add: wake_priority_def)

lemma wake_priority_valid:
  "thread_priority_state_valid x \<Longrightarrow> thread_ok (wake_priority x)"
  by (auto simp: wake_priority_def thread_ok_def thread_priority_state_valid_def priority_defs)

lemma wake_stack_view: "running_cpu x = THREAD_CPU_NONE \<Longrightarrow> stack_view x (wake_priority x)"
  by (simp add: wake_priority_def stack_view_def)

text \<open>
  A blocked thread taken off the sleep list and marked ready is enqueued behind the queue of its
  wake priority.
\<close>

lemma wake_enqueues:
  assumes ok: "sched_ok s rq sl" and c: "c < length (cpus s)"
    and t: "t \<in> set (thread_blocks s)" "t_state (threads s t) = THREAD_STATE_BLOCKED"
    and s1: "s1 = upd_thread t wake_priority (upd_stats f (sleeping_remove s t))"
  obtains s2 p where "scheduler_enqueue_locked c s1 t = (True, s2)" "keeps s s2"
    "p = effective_priority (threads s1 t)"
    "sched_ok s2 (rq(p := rq p @ [t])) (remove1 t sl)" "p < 3"
    "\<And>a. a \<noteq> t \<Longrightarrow> t_state (threads s2 a) = t_state (threads s a)"
    "t_state (threads s2 t) = THREAD_STATE_READY"
    "\<And>a. a \<noteq> t \<Longrightarrow> wakeup_tick (threads s2 a) = wakeup_tick (threads s a)"
    "scheduler_tick_count s2 = scheduler_tick_count s"
proof -
  have nq: "\<not> queued (threads s t)"
    using sched_okD(4) [OF ok, of t] t(2) by (auto simp: queued_ok_def)
  have run: "running_cpu (threads s t) = THREAD_CPU_NONE"
    using sched_okD(3) [OF ok t(1)] t(2) by (simp add: thread_ok_def)
  have ok0: "sched_ok (upd_stats f (sleeping_remove s t)) rq (remove1 t sl)"
  proof (cases "sleeping (threads s t)")
    case True
    then show ?thesis using sleeping_remove_ok [OF ok] by simp
  next
    case False
    then have "remove1 t sl = sl"
      using lists_wfD(6) [OF sched_okD(1) [OF ok]] by (simp add: remove1_idem)
    then show ?thesis using ok False by (simp add: sleeping_remove_idle)
  qed
  have free: "free_thread (upd_stats f (sleeping_remove s t)) t"
    by (rule free_of_state [OF ok0]) (use nq t in auto)
  have ok1: "sched_ok s1 rq (remove1 t sl)" unfolding s1
    by (rule sched_ok_upd_free [OF ok0 free])
      (use wake_priority_valid thread_okD [OF sched_okD(3) [OF ok0, of t]] in \<open>auto simp: links_kept_def\<close>)
  have free1: "free_thread s1 t" using free by (simp add: s1 free_thread_def)
  define p where "p = effective_priority (threads s1 t)"
  have st: "t_state (threads s1 t) = THREAD_STATE_READY" "running_cpu (threads s1 t) = THREAD_CPU_NONE"
    "t \<in> set (thread_blocks s1)" using t by (auto simp: s1)
  have c1: "c < length (cpus s1)" using c by (simp add: s1)
  note enq = enqueue_ok [OF ok1 c1 st(3) free1 st(1,2) p_def [symmetric]]
  let ?s2 = "scheduler_update_runnable_peak c (queue_append s1 t)"
  have "quiet s s1" unfolding s1
    by (rule quiet_trans [OF _ quiet_upd_thread]) (use run in \<open>auto intro: wake_stack_view\<close>)
  then have "quiet s ?s2"
    by (rule quiet_trans [OF quiet_trans [OF _ quiet_append [OF st(2)]] quiet_peak])
  moreover have "parked s a" if "parked ?s2 a" for a
    by (rule parked_other [OF \<open>quiet s ?s2\<close> _ _ _ that, of t]) (auto simp: s1)
  ultimately have k: "keeps s ?s2" using enq(2) by (intro keepsI) auto
  show ?thesis
    by (rule that [OF enq(1) k p_def _ enq(3)]) (use enq(2) in \<open>auto simp: s1\<close>)
qed

lemma unblock_ok:
  assumes good: "sched_good s" and c: "c < length (cpus s)"
    and t: "t \<in> set (thread_blocks s)" "t_state (threads s t) = THREAD_STATE_BLOCKED"
  obtains s' where "scheduler_unblock c s (Some t) = (True, s')" "keeps s s'"
    "t_state (threads s' t) = THREAD_STATE_READY" "queued (threads s' t)"
    "\<And>a. a \<noteq> t \<Longrightarrow> t_state (threads s' a) = t_state (threads s a)"
proof -
  obtain rq sl where ok: "sched_ok s rq sl" using good by (auto simp: sched_good_def)
  have nq: "\<not> queued (threads s t)"
    using sched_okD(4) [OF ok, of t] t(2) by (auto simp: queued_ok_def)
  have ni: "Some t \<noteq> idle_thread c s" using idle_thread_ok(4) [OF ok c] t(2) by metis
  define s1 where "s1 = upd_thread t wake_priority (sleeping_remove s t)"
  have s1': "s1 = upd_thread t wake_priority (upd_stats (\<lambda>x. x) (sleeping_remove s t))"
    by (simp add: s1_def upd_stats_def)
  obtain s2 p where e: "scheduler_enqueue_locked c s1 t = (True, s2)" "keeps s s2"
    "sched_ok s2 (rq(p := rq p @ [t])) (remove1 t sl)" "p < 3"
    "\<And>a. a \<noteq> t \<Longrightarrow> t_state (threads s2 a) = t_state (threads s a)"
    "t_state (threads s2 t) = THREAD_STATE_READY"
    by (rule wake_enqueues [OF ok c t s1']) blast
  have q: "queued (threads s2 t)"
    using lists_wfD(4) [OF sched_okD(1) [OF e(3)]] e(4) by auto
  define s3 where "s3 = count_wakeup ((if sleeping (threads s t) then uncount_sleeping else (\<lambda>s. s)) (uncount_blocked s2))"
  define s4 where "s4 = (if current_thread c s3 = idle_thread c s3
      then upd_cpu c (\<lambda>x. x\<lparr>preemption_pending := True\<rparr>) s3 else s3)"
  have k3: "keeps s s3"
    using e(2) by (auto simp: s3_def count_wakeup_def uncount_sleeping_def uncount_blocked_def intro!: keeps_stats)
  then have "keeps s s4" by (simp add: s4_def keeps_preempt)
  moreover have "threads s4 = threads s2"
    by (simp add: s4_def s3_def count_wakeup_def uncount_sleeping_def uncount_blocked_def)
  moreover have "scheduler_unblock c s (Some t) = (True, s4)"
    using t nq ni e(1) by (simp add: scheduler_unblock_def Let_def s1_def s3_def s4_def)
  ultimately show ?thesis using that [of s4] e(5,6) q by simp
qed

lemma unblock_refuses:
  "t_state (threads s t) \<noteq> THREAD_STATE_BLOCKED \<Longrightarrow> scheduler_unblock c s (Some t) = (False, s)"
  by (simp add: scheduler_unblock_def)

subsection \<open>The global tick\<close>

lemma tick_sleeper_ok:
  assumes ok: "sched_ok s rq sl" and c: "c < length (cpus s)" and t: "t \<in> set sl"
  obtains s' rq' where "tick_sleeper c s t = (wakeup_tick (threads s t) \<le> scheduler_tick_count s, s')"
    "keeps s s'"
    "sched_ok s' rq' (if wakeup_tick (threads s t) \<le> scheduler_tick_count s then remove1 t sl else sl)"
    "scheduler_tick_count s' = scheduler_tick_count s"
    "\<And>a. a \<noteq> t \<Longrightarrow> wakeup_tick (threads s' a) = wakeup_tick (threads s a)"
    "\<And>a. t_state (threads s' a) = (if a = t \<and> wakeup_tick (threads s t) \<le> scheduler_tick_count s
      then THREAD_STATE_READY else t_state (threads s a))"
proof (cases "wakeup_tick (threads s t) \<le> scheduler_tick_count s")
  case True
  note wf = sched_okD(1) [OF ok]
  have sleep: "sleeping (threads s t)" "t \<in> set (thread_blocks s)"
    using lists_wfD(6,8) [OF wf] t by auto
  have st: "t_state (threads s t) = THREAD_STATE_BLOCKED"
    using sched_okD(6) [OF ok sleep(1)] by (simp add: sleeper_ok_def)
  define s1 where "s1 = upd_thread t wake_priority (uncount_sleeping (sleeping_remove s t))"
  obtain s2 p where e: "scheduler_enqueue_locked c s1 t = (True, s2)" "keeps s s2"
    "sched_ok s2 (rq(p := rq p @ [t])) (remove1 t sl)" "scheduler_tick_count s2 = scheduler_tick_count s"
    "\<And>a. a \<noteq> t \<Longrightarrow> wakeup_tick (threads s2 a) = wakeup_tick (threads s a)"
    "\<And>a. a \<noteq> t \<Longrightarrow> t_state (threads s2 a) = t_state (threads s a)" "t_state (threads s2 t) = THREAD_STATE_READY"
    by (rule wake_enqueues [OF ok c sleep(2) st s1_def [unfolded uncount_sleeping_def]]) blast
  let ?s' = "count_wakeup (uncount_blocked s2)"
  have "tick_sleeper c s t = (True, ?s')"
    using True e(1) by (simp add: tick_sleeper_def s1_def)
  moreover have "keeps s ?s'"
    using e(2) by (auto simp: count_wakeup_def uncount_blocked_def intro!: keeps_stats)
  ultimately show ?thesis
    using that [of ?s' "rq(p := rq p @ [t])"] e True by (simp add: count_wakeup_def uncount_blocked_def)
next
  case False
  then show ?thesis
    using that [of s rq] ok keeps_refl [OF sched_goodI [OF ok]] by (simp add: tick_sleeper_def)
qed

text \<open>
  The loop visits the sleepers as they were when it started: moving one thread does not change the
  links of those behind it. Exactly the sleepers whose time has come leave the list.
\<close>

lemma tick_walk_ok:
  assumes "sched_ok s rq (zs @ us)" "c < length (cpus s)" "length us \<le> n"
  obtains s' rq' where
    "tick_walk c n s w (first us) =
       (w \<or> (\<exists>t\<in>set us. wakeup_tick (threads s t) \<le> scheduler_tick_count s), s')"
    "keeps s s'" "scheduler_tick_count s' = scheduler_tick_count s"
    "sched_ok s' rq' (zs @ filter (\<lambda>t. \<not> wakeup_tick (threads s t) \<le> scheduler_tick_count s) us)"
    "\<And>a. t_state (threads s' a) = (if a \<in> set us \<and> wakeup_tick (threads s a) \<le> scheduler_tick_count s
      then THREAD_STATE_READY else t_state (threads s a))"
  using assms
proof (induction us arbitrary: n s rq zs w thesis)
  case Nil
  show ?case
    using Nil.prems(1) [of s rq] Nil.prems(2) keeps_refl [OF sched_goodI [OF Nil.prems(2)]]
    by (cases n) auto
next
  case (Cons t us)
  from Cons.prems(4) obtain m where n: "n = Suc m" "length us \<le> m" by (cases n) auto
  let ?due = "\<lambda>t. wakeup_tick (threads s t) \<le> scheduler_tick_count s"
  have d: "distinct (zs @ t # us)"
    by (rule path_distinct [OF lists_wfD(3) [OF sched_okD(1) [OF Cons.prems(2)]]])
  obtain s1 rq1 where ts: "tick_sleeper c s t = (?due t, s1)" "keeps s s1"
    "sched_ok s1 rq1 (if ?due t then remove1 t (zs @ t # us) else zs @ t # us)"
    "scheduler_tick_count s1 = scheduler_tick_count s"
    "\<And>a. a \<noteq> t \<Longrightarrow> wakeup_tick (threads s1 a) = wakeup_tick (threads s a)"
    "\<And>a. t_state (threads s1 a) = (if a = t \<and> ?due t then THREAD_STATE_READY else t_state (threads s a))"
    by (rule tick_sleeper_ok [OF Cons.prems(2,3), of t]) auto
  let ?zs = "if ?due t then zs else zs @ [t]"
  have ok1: "sched_ok s1 rq1 (?zs @ us)"
    using ts(3) d by (simp add: remove1_split split: if_splits)
  have same: "wakeup_tick (threads s1 a) = wakeup_tick (threads s a)" if "a \<in> set us" for a
    using that ts(5) [of a] d by auto
  have nx: "t_next (threads s t) = first us"
    using path_next [OF lists_wfD(3) [OF sched_okD(1) [OF Cons.prems(2)]]] by simp
  obtain s2 rq2 where tw: "tick_walk c m s1 (w \<or> ?due t) (first us) =
      ((w \<or> ?due t) \<or> (\<exists>t\<in>set us. wakeup_tick (threads s1 t) \<le> scheduler_tick_count s1), s2)"
    "keeps s1 s2" "scheduler_tick_count s2 = scheduler_tick_count s1"
    "sched_ok s2 rq2 (?zs @ filter (\<lambda>t. \<not> wakeup_tick (threads s1 t) \<le> scheduler_tick_count s1) us)"
    "\<And>a. t_state (threads s2 a) = (if a \<in> set us \<and> wakeup_tick (threads s1 a) \<le> scheduler_tick_count s1
      then THREAD_STATE_READY else t_state (threads s1 a))"
    by (rule Cons.IH [OF _ ok1 _ n(2), where w = "w \<or> ?due t"]) (use Cons.prems(3) keepsD(4) [OF ts(2)] in auto)
  have f: "filter (\<lambda>t. \<not> wakeup_tick (threads s1 t) \<le> scheduler_tick_count s1) us =
      filter (\<lambda>t. \<not> ?due t) us"
    using same ts(4) by (intro filter_cong) auto
  show ?case
  proof (rule Cons.prems(1))
    show "tick_walk c n s w (first (t # us)) = (w \<or> (\<exists>t\<in>set (t # us). ?due t), s2)"
      using tw(1) same ts(1,4) nx n(1) by (auto simp: disj_ac)
    show "keeps s s2" by (rule keeps_trans [OF ts(2) tw(2)])
    show "scheduler_tick_count s2 = scheduler_tick_count s" using tw(3) ts(4) by simp
    show "sched_ok s2 rq2 (zs @ filter (\<lambda>t. \<not> ?due t) (t # us))"
      using tw(4) unfolding f by (simp split: if_splits)
    show "t_state (threads s2 a) = (if a \<in> set (t # us) \<and> ?due a then THREAD_STATE_READY else t_state (threads s a))" for a
      using tw(5) [of a] ts(4) ts(6) [of a] same [of a] d by auto
  qed
qed

subsection \<open>Aging\<close>

lemma queued_not_idle:
  assumes "sched_ok s rq sl" "queued (threads s t)"
  shows "\<not> is_idle_thread s t"
  using idle_thread_ok(2) [OF assms(1)] assms(2)
  by (auto simp: is_idle_thread_def list_ex_iff in_set_conv_nth)

lemma removed_free:
  assumes ok: "sched_ok s rq sl" and t: "queued (threads s t)"
  shows "free_thread (scheduler_remove_queued_locked s t) t"
proof -
  have p3: "effective_priority (threads s t) < 3" by (rule lists_wf_queued(1) [OF sched_okD(1) [OF ok] t])
  have "\<not> is_idle_thread (scheduler_remove_queued_locked s t) t"
    using queued_not_idle [OF ok t] by (simp add: is_idle_thread_def)
  then show ?thesis
    by (intro free_of_state [OF remove_queued_ok [OF ok t refl]])
      (use sched_okD(4) [OF ok t] p3 in \<open>auto simp: queued_ok_def\<close>)
qed

lemma promote_ok:
  assumes ok: "sched_ok s rq sl" and c: "c < length (cpus s)"
    and t: "queued (threads s t)" "effective_priority (threads s t) = p"
    and f: "\<And>x. links_kept x (f x) \<and> stack_view x (f x) \<and> t_state (f x) = t_state x"
    and q: "effective_priority (f (threads (scheduler_remove_queued_locked s t) t)) = q" "q \<noteq> p"
    and fok: "thread_ok (f (threads (scheduler_remove_queued_locked s t) t))"
  shows "keeps s (promote c s t f)"
    and "sched_ok (promote c s t f) (rq(p := remove1 t (rq p), q := rq q @ [t])) sl"
proof -
  let ?r = "scheduler_remove_queued_locked s t"
  let ?s1 = "upd_thread t f ?r"
  have qo: "t_state (threads s t) = THREAD_STATE_READY" "running_cpu (threads s t) = THREAD_CPU_NONE"
    "t \<in> set (thread_blocks s)"
    using sched_okD(4,5) [OF ok t(1)] by (auto simp: queued_ok_def)
  note free = removed_free [OF ok t(1)]
  have ok1: "sched_ok ?s1 (rq(p := remove1 t (rq p))) sl"
    by (rule sched_ok_upd_free [OF remove_queued_ok [OF ok t] free]) (use f fok in auto)
  have free1: "free_thread ?s1 t" using free f by (simp add: free_thread_def links_kept_def)
  have st: "t_state (threads ?s1 t) = THREAD_STATE_READY" "running_cpu (threads ?s1 t) = THREAD_CPU_NONE"
    "effective_priority (threads ?s1 t) = q" "t \<in> set (thread_blocks ?s1)" "c < length (cpus ?s1)"
    using qo f q(1) c by (auto simp: stack_view_def)
  note enq = enqueue_ok [OF ok1 st(5,4) free1 st(1,2,3)]
  have pr: "promote c s t f = scheduler_update_runnable_peak c (queue_append ?s1 t)"
    using enq(1) by (simp add: promote_def Let_def)
  show ok2: "sched_ok (promote c s t f) (rq(p := remove1 t (rq p), q := rq q @ [t])) sl"
    using enq(2) q(2) unfolding pr by simp
  have "quiet s ?s1"
    using quiet_trans [OF quiet_remove [OF qo(2)] quiet_upd_thread] f by blast
  then have qt: "quiet s (promote c s t f)" unfolding pr
    using quiet_trans [OF quiet_trans [OF _ quiet_append [OF st(2)]] quiet_peak] by blast
  have "parked s a" if "parked (promote c s t f) a" for a
    by (rule parked_other [OF qt _ _ _ that, of t]) (auto simp: pr)
  then show "keeps s (promote c s t f)" using ok2 qt by (intro keepsI)
qed

text \<open>One visit: the waiting time advances, and a thread that has waited long enough moves up.\<close>

lemma age_thread_ok:
  assumes ok: "sched_ok s rq sl" and c: "c < length (cpus s)"
    and t: "t \<in> set (rq p)" "p = THREAD_PRIORITY_NORMAL \<or> p = THREAD_PRIORITY_BACKGROUND"
  obtains s' pr rq' where "age_thread c s t = (pr, s')" "keeps s s'" "sched_ok s' rq' sl"
    "rq' p = (if pr then remove1 t (rq p) else rq p)"
proof -
  have p3: "p < 3" using t(2) by (auto simp: priority_defs)
  have q: "queued (threads s t)" "effective_priority (threads s t) = p"
    using lists_wf_mem [OF sched_okD(1) [OF ok] p3] t(1) by auto
  define s0 where "s0 = upd_thread t (\<lambda>x. if ready_wait_ticks x \<noteq> NOT 0
    then x\<lparr>ready_wait_ticks := ready_wait_ticks x + 1\<rparr> else x) s"
  have ok0: "sched_ok s0 rq sl" unfolding s0_def
    by (rule sched_ok_upd_view [OF ok]) (auto simp: sched_view_def links_kept_def)
  have k0: "keeps s s0"
    by (rule keepsI [OF ok0])
      (auto simp: s0_def stack_view_def parked_def intro!: quiet_upd_thread split: if_splits)
  have q0: "queued (threads s0 t)" "effective_priority (threads s0 t) = p" "c < length (cpus s0)"
    using q c by (auto simp: s0_def)
  have valid: "thread_priority_state_valid (threads s0 t)"
    using sched_okD(4) [OF ok0 q0(1)] by (simp add: queued_ok_def)
  note removed = removed_free [OF ok0 q0(1)]
  have run: "t_state (threads s0 t) = THREAD_STATE_READY"
    using sched_okD(4) [OF ok0 q0(1)] by (simp add: queued_ok_def)
  let ?high = "\<lambda>x. x\<lparr>effective_priority := THREAD_PRIORITY_HIGH, wakeup_boosted := False, ready_wait_ticks := 0\<rparr>"
  let ?up = "\<lambda>x. x\<lparr>effective_priority := effective_priority x - 1, ready_wait_ticks := 0\<rparr>"
  let ?reset = "upd_thread t (\<lambda>x. x\<lparr>ready_wait_ticks := 0\<rparr>) s0"
  have okr: "sched_ok ?reset rq sl"
    by (rule sched_ok_upd_view [OF ok0]) (auto simp: sched_view_def links_kept_def)
  have kr: "keeps s ?reset"
    by (rule keeps_trans [OF k0])
      (rule keepsI [OF okr], auto simp: stack_view_def parked_def intro!: quiet_upd_thread split: if_splits)
  have "age_thread c s t = (True, promote c s0 t ?high) \<and>
        base_priority (threads s0 t) = THREAD_PRIORITY_BACKGROUND \<and> p = THREAD_PRIORITY_NORMAL \<or>
      age_thread c s t = (False, ?reset) \<or> age_thread c s t = (False, s0) \<or>
      age_thread c s t = (True, promote c s0 t ?up) \<and>
        effective_priority (threads s0 t) = base_priority (threads s0 t)"
    using q0(2) unfolding age_thread_def Let_def s0_def [symmetric] by simp
  then consider (high) "age_thread c s t = (True, promote c s0 t ?high)"
      "base_priority (threads s0 t) = THREAD_PRIORITY_BACKGROUND" "p = THREAD_PRIORITY_NORMAL"
    | (reset) "age_thread c s t = (False, ?reset)"
    | (same) "age_thread c s t = (False, s0)"
    | (up) "age_thread c s t = (True, promote c s0 t ?up)" "effective_priority (threads s0 t) = base_priority (threads s0 t)"
    by blast
  then show ?thesis
  proof cases
    case high
    have "keeps s0 (promote c s0 t ?high)"
      "sched_ok (promote c s0 t ?high) (rq(p := remove1 t (rq p), 0 := rq 0 @ [t])) sl"
      by (rule promote_ok [OF ok0 q0(3,1,2)];
          use valid run high t in \<open>auto simp: links_kept_def stack_view_def thread_ok_def
            thread_priority_state_valid_def priority_defs\<close>)+
    then show ?thesis using that [OF high(1)] keeps_trans [OF k0] t(2) by (auto simp: priority_defs)
  next
    case up
    have "keeps s0 (promote c s0 t ?up)"
      "sched_ok (promote c s0 t ?up) (rq(p := remove1 t (rq p), (p - 1) := rq (p - 1) @ [t])) sl"
      by (rule promote_ok [OF ok0 q0(3,1,2), where q = "p - 1"];
          use valid run up(2) q0(2) t in \<open>auto simp: links_kept_def stack_view_def thread_ok_def
            thread_priority_state_valid_def priority_defs\<close>)+
    then show ?thesis using that [OF up(1)] keeps_trans [OF k0] t(2) by (auto simp: priority_defs)
  qed (use that okr kr ok0 k0 in auto)
qed

lemma age_walk_ok:
  assumes "sched_ok s rq sl" "c < length (cpus s)" "rq p = zs @ us"
    and "p = THREAD_PRIORITY_NORMAL \<or> p = THREAD_PRIORITY_BACKGROUND"
  shows "keeps s (snd (age_walk c n s pr (first us)))"
  using assms
proof (induction us arbitrary: n s rq zs pr)
  case Nil
  then show ?case using keeps_refl [OF sched_goodI [OF Nil.prems(1)]] by (cases n) auto
next
  case (Cons t us)
  show ?case
  proof (cases n)
    case 0
    then show ?thesis using keeps_refl [OF sched_goodI [OF Cons.prems(1)]] by simp
  next
    case (Suc m)
    have p3: "p < 3" using Cons.prems(4) by (auto simp: priority_defs)
    note repr = lists_wfD(2) [OF sched_okD(1) [OF Cons.prems(1)] p3, unfolded Cons.prems(3)]
    have nx: "t_next (threads s t) = first us" using ready_repr_links(1) [OF repr] by simp
    have d: "distinct (zs @ t # us)" by (rule ready_reprD(3) [OF repr])
    obtain s1 pr1 rq1 where a: "age_thread c s t = (pr1, s1)" "keeps s s1" "sched_ok s1 rq1 sl"
      "rq1 p = (if pr1 then remove1 t (rq p) else rq p)"
      by (rule age_thread_ok [OF Cons.prems(1,2), of t p]) (use Cons.prems in auto)
    have "rq1 p = (if pr1 then zs else zs @ [t]) @ us"
      using a(4) d Cons.prems(3) by (auto simp: remove1_split)
    from Cons.IH [OF a(3) _ this Cons.prems(4)]
    have "keeps s1 (snd (age_walk c m s1 (pr \<or> pr1) (first us)))"
      using Cons.prems(2) keepsD(4) [OF a(2)] by simp
    then show ?thesis using keeps_trans [OF a(2)] a(1) nx Suc by simp
  qed
qed

lemma age_ready_ok:
  assumes good: "sched_good s" and c: "c < length (cpus s)"
  shows "keeps s (snd (scheduler_age_ready_threads_locked c s))"
proof -
  have walk: "keeps s' (snd (age_walk c n s' pr (rq_head (ready_queues s' ! p))))"
    if good': "sched_good s'" and "c < length (cpus s')"
      "p = THREAD_PRIORITY_NORMAL \<or> p = THREAD_PRIORITY_BACKGROUND"
    for s' n pr p
  proof -
    obtain rq sl where ok: "sched_ok s' rq sl" using good' by (auto simp: sched_good_def)
    have "rq_head (ready_queues s' ! p) = first (rq p)"
      using ready_reprD(1) [OF lists_wfD(2) [OF sched_okD(1) [OF ok]]] that(3) by (auto simp: priority_defs)
    then show ?thesis using age_walk_ok [OF ok that(2), of p "[]"] that(3) by simp
  qed
  obtain pr s1 where a: "age_walk c (length (thread_blocks s)) s False
      (rq_head (ready_queues s ! THREAD_PRIORITY_NORMAL)) = (pr, s1)" by fastforce
  have k: "keeps s s1" using walk [OF good c, of THREAD_PRIORITY_NORMAL] a by (metis snd_conv)
  show ?thesis
    using keeps_trans [OF k walk [OF keepsD(1) [OF k], of THREAD_PRIORITY_BACKGROUND]] c keepsD(4) [OF k] a
    by (simp add: scheduler_age_ready_threads_locked_def Let_def)
qed

lemma sched_good_tick [simp]: "sched_good (s\<lparr>scheduler_tick_count := n\<rparr>) = sched_good s"
  by (simp add: sched_good_def)

lemma quiet_tick [simp]: "quiet s (s\<lparr>scheduler_tick_count := n\<rparr>)"
  by (rule quietI) (simp_all add: stack_view_def)

lemma sleeping_first: "sched_ok s rq sl \<Longrightarrow> sleeping_threads s = first sl"
  by (rule path_first [OF lists_wfD(3) [OF sched_okD(1)]])

lemma global_tick_ok:
  assumes good: "sched_good s" and c: "c < length (cpus s)"
  shows "keeps s (snd (scheduler_global_tick c s))"
proof (cases "cpu_bsp (cpus s ! c)")
  case True
  define s0 where "s0 = (if scheduler_tick_count s \<noteq> NOT 0
    then s\<lparr>scheduler_tick_count := scheduler_tick_count s + 1\<rparr> else s)"
  have k0: "keeps s s0" using good by (simp add: s0_def keeps_def parked_def)
  obtain rq sl where ok0: "sched_ok s0 rq sl" using keepsD(1) [OF k0] by (auto simp: sched_good_def)
  have c0: "c < length (cpus s0)" using c keepsD(4) [OF k0] by simp
  obtain woke s1 where tw: "tick_walk c (length (thread_blocks s0)) s0 False (sleeping_threads s0) = (woke, s1)"
    and k1: "keeps s0 s1"
    by (rule tick_walk_ok [of s0 rq "[]" sl c "length (thread_blocks s0)" False])
      (use ok0 c0 lists_wf_length [OF sched_okD(1) [OF ok0]] sleeping_first [OF ok0] in auto)
  define b where "b = (woke \<and> (case current_thread c s1 of None \<Rightarrow> False
                | Some t \<Rightarrow> Some t = idle_thread c s1 \<or>
                    (idle_thread c s1 \<noteq> None \<and>
                     effective_priority (threads s1 t) > THREAD_PRIORITY_HIGH)))"
  define s2 where "s2 = set_preemption c b s1"
  have k2: "keeps s s2"
    unfolding s2_def by (rule keeps_set_preemption [OF keeps_trans [OF k0 k1]])
  obtain pr s3 where ag: "scheduler_age_ready_threads_locked c s2 = (pr, s3)" by fastforce
  have k3: "keeps s s3"
    using keeps_trans [OF k2 age_ready_ok [OF keepsD(1) [OF k2]]] c keepsD(4) [OF k2] ag by (metis snd_conv)
  have "snd (scheduler_global_tick c s) = set_preemption c (pr \<and> current_thread c s2 = idle_thread c s3) s3"
    using True ag tw unfolding scheduler_global_tick_def Let_def s0_def [symmetric]
    by (simp add: s2_def b_def)
  then show ?thesis using keeps_set_preemption [OF k3] by simp
next
  case False
  then show ?thesis using keeps_refl [OF good] by (simp add: scheduler_global_tick_def)
qed

text \<open>
  The clock advances unless it has saturated. Aging changes no state and no sleeper, so the sleepers
  that stay are those whose time has not come, and the others are ready.
\<close>

definition next_tick :: "scheduler \<Rightarrow> u64" where
  "next_tick s = (if scheduler_tick_count s \<noteq> NOT 0 then scheduler_tick_count s + 1 else scheduler_tick_count s)"

lemma enqueue_fields [simp]:
  "t_state (threads (snd (scheduler_enqueue_locked c s t)) a) = t_state (threads s a)"
  "sleeping (threads (snd (scheduler_enqueue_locked c s t)) a) = sleeping (threads s a)"
  by (simp_all add: scheduler_enqueue_locked_def Let_def)

lemma promote_fields:
  assumes "\<And>x. t_state (f x) = t_state x \<and> sleeping (f x) = sleeping x"
  shows "t_state (threads (promote c s t f) a) = t_state (threads s a)"
    "sleeping (threads (promote c s t f) a) = sleeping (threads s a)"
proof -
  obtain b s1 where e: "scheduler_enqueue_locked c (upd_thread t f (scheduler_remove_queued_locked s t)) t = (b, s1)"
    by fastforce
  have "t_state (threads s1 a) = t_state (threads s a)" "sleeping (threads s1 a) = sleeping (threads s a)" for a
    using enqueue_fields [of c "upd_thread t f (scheduler_remove_queued_locked s t)" t a] assms
    unfolding e by auto
  then show "t_state (threads (promote c s t f) a) = t_state (threads s a)"
    "sleeping (threads (promote c s t f) a) = sleeping (threads s a)"
    unfolding promote_def Let_def e by (cases b; simp)+
qed

lemma age_thread_fields:
  "t_state (threads (snd (age_thread c s t)) a) = t_state (threads s a)"
  "sleeping (threads (snd (age_thread c s t)) a) = sleeping (threads s a)"
  unfolding age_thread_def Let_def by (auto simp: promote_fields)

lemma age_walk_fields:
  "t_state (threads (snd (age_walk c n s pr p)) a) = t_state (threads s a)"
  "sleeping (threads (snd (age_walk c n s pr p)) a) = sleeping (threads s a)"
  using age_thread_fields
  by (induction c n s pr p rule: age_walk.induct) (auto split: option.splits prod.splits, (metis snd_conv)+)

lemma age_ready_fields:
  "t_state (threads (snd (scheduler_age_ready_threads_locked c s)) a) = t_state (threads s a)"
  "sleeping (threads (snd (scheduler_age_ready_threads_locked c s)) a) = sleeping (threads s a)"
  unfolding scheduler_age_ready_threads_locked_def Let_def
  by (auto split: prod.splits) (metis age_walk_fields snd_conv)+

lemma set_preemption_threads [simp]: "threads (set_preemption c b s) = threads s"
  by (simp add: set_preemption_def)

lemma global_tick_wakes:
  assumes good: "sched_good s" and c: "c < length (cpus s)" and bsp: "cpu_bsp (cpus s ! c)"
  shows "sleeping (threads (snd (scheduler_global_tick c s)) t) \<longleftrightarrow>
      sleeping (threads s t) \<and> next_tick s < wakeup_tick (threads s t)"
    and "sleeping (threads s t) \<Longrightarrow> wakeup_tick (threads s t) \<le> next_tick s \<Longrightarrow>
      t_state (threads (snd (scheduler_global_tick c s)) t) = THREAD_STATE_READY \<and>
      queued (threads (snd (scheduler_global_tick c s)) t)"
proof -
  let ?s0 = "s\<lparr>scheduler_tick_count := next_tick s\<rparr>"
  obtain rq sl where ok: "sched_ok s rq sl" using good by (auto simp: sched_good_def)
  then have ok0: "sched_ok ?s0 rq sl" by simp
  obtain woke s1 rq1 where tw: "tick_walk c (length (thread_blocks ?s0)) ?s0 False (sleeping_threads ?s0) = (woke, s1)"
    and s1: "sched_ok s1 rq1 (filter (\<lambda>t. \<not> wakeup_tick (threads s t) \<le> next_tick s) sl)"
      "\<And>a. t_state (threads s1 a) = (if a \<in> set sl \<and> wakeup_tick (threads s a) \<le> next_tick s
        then THREAD_STATE_READY else t_state (threads s a))"
    by (rule tick_walk_ok [of ?s0 rq "[]" sl c "length (thread_blocks ?s0)" False])
      (use ok0 c lists_wf_length [OF sched_okD(1) [OF ok0]] sleeping_first [OF ok0] in auto)
  have s0: "(if scheduler_tick_count s \<noteq> NOT 0 then s\<lparr>scheduler_tick_count := scheduler_tick_count s + 1\<rparr> else s) = ?s0"
    by (simp add: next_tick_def)
  obtain b where b: "snd (scheduler_global_tick c s) =
      set_preemption c (fst (scheduler_age_ready_threads_locked c (set_preemption c b s1)) \<and>
        current_thread c (set_preemption c b s1) =
          idle_thread c (snd (scheduler_age_ready_threads_locked c (set_preemption c b s1))))
        (snd (scheduler_age_ready_threads_locked c (set_preemption c b s1)))"
    using bsp tw unfolding scheduler_global_tick_def Let_def s0
    by (simp only: prod.case not_True_eq_False if_False snd_conv case_prod_beta)
  have fin: "t_state (threads (snd (scheduler_global_tick c s)) a) = t_state (threads s1 a)"
      "sleeping (threads (snd (scheduler_global_tick c s)) a) = sleeping (threads s1 a)" for a
    unfolding b by (simp_all add: age_ready_fields)
  note sl = lists_wfD(6) [OF sched_okD(1) [OF ok]] lists_wfD(6) [OF sched_okD(1) [OF s1(1)]]
  show "sleeping (threads (snd (scheduler_global_tick c s)) t) \<longleftrightarrow>
      sleeping (threads s t) \<and> next_tick s < wakeup_tick (threads s t)"
    unfolding fin sl by (auto simp: not_le)
  assume due: "sleeping (threads s t)" "wakeup_tick (threads s t) \<le> next_tick s"
  have bl: "t_state (threads s t) = THREAD_STATE_BLOCKED"
    using sched_okD(6) [OF ok due(1)] by (simp add: sleeper_ok_def)
  have st: "t_state (threads (snd (scheduler_global_tick c s)) t) = THREAD_STATE_READY"
    using due sl(1) s1(2) by (simp add: fin)
  note k = global_tick_ok [OF good c]
  have "running_cpu (threads s t) = THREAD_CPU_NONE"
    using sched_okD(3) [OF ok, of t] bl lists_wfD(8) [OF sched_okD(1) [OF ok]] sl(1) due(1) by (auto simp: thread_ok_def)
  then have "running_cpu (threads (snd (scheduler_global_tick c s)) t) = THREAD_CPU_NONE"
    using keepsD(2) [OF k] by (simp add: quiet_def stack_view_def)
  then have "queued (threads (snd (scheduler_global_tick c s)) t)"
    using keepsD(3) [OF k, of t] bl st by (auto simp: parked_def)
  with st show "t_state (threads (snd (scheduler_global_tick c s)) t) = THREAD_STATE_READY \<and>
      queued (threads (snd (scheduler_global_tick c s)) t)" by simp
qed

subsection \<open>Termination and destruction of a thread that is not on a CPU\<close>

lemma terminate_thread_ok:
  assumes good: "sched_good s" and s': "terminate_thread_locked s t = Some s'"
  shows "keeps s s'" "t_state (threads s' t) = THREAD_STATE_TERMINATED"
    "\<not> queued (threads s' t)" "\<not> sleeping (threads s' t)"
proof -
  obtain rq sl where ok: "sched_ok s rq sl" using good by (auto simp: sched_good_def)
  have run: "running_cpu (threads s t) = THREAD_CPU_NONE" "\<not> is_idle_thread s t"
    "t_state (threads s t) \<noteq> THREAD_STATE_TERMINATED"
    using s' by (auto simp: terminate_thread_locked_def split: if_splits)
  define s1 where "s1 = (if queued (threads s t) then scheduler_remove_queued_locked s t else s)"
  define s2 where "s2 = (if sleeping (threads s1 t) then uncount_sleeping (sleeping_remove s1 t) else s1)"
  define s3 where "s3 = (if t_state (threads s2 t) = THREAD_STATE_BLOCKED then uncount_blocked s2 else s2)"
  have res: "s' = upd_thread t (\<lambda>x. x\<lparr>t_state := THREAD_STATE_TERMINATED\<rparr>) s3"
    using s' run
    unfolding terminate_thread_locked_def Let_def s1_def [symmetric] s2_def [symmetric] s3_def [symmetric]
    by simp
  have p3: "effective_priority (threads s t) < 3" if "queued (threads s t)"
    by (rule lists_wf_queued(1) [OF sched_okD(1) [OF ok] that])
  obtain rq1 where ok1: "sched_ok s1 rq1 sl"
    using ok remove_queued_ok [OF ok _ refl, of t] by (cases "queued (threads s t)") (auto simp: s1_def)
  obtain sl2 where ok2: "sched_ok s2 rq1 sl2"
    using ok1 sleeping_remove_ok [OF ok1, of t]
    by (cases "sleeping (threads s1 t)") (auto simp: s2_def uncount_sleeping_def)
  have ok3: "sched_ok s3 rq1 sl2" using ok2 by (simp add: s3_def uncount_blocked_def)
  have f3: "\<not> queued (threads s3 t)" "\<not> sleeping (threads s3 t)" "running_cpu (threads s3 t) = THREAD_CPU_NONE"
    "cpus s3 = cpus s" "t_state (threads s3 t) = t_state (threads s t)"
    using p3 run by (auto simp: s3_def s2_def s1_def uncount_sleeping_def uncount_blocked_def)
  have free: "free_thread s3 t"
    unfolding free_thread_def
  proof (intro conjI allI impI)
    fix i assume i: "i < length (cpus s3)"
    show "cpu_current_thread (cpus s3 ! i) \<noteq> Some t"
      using current_running_cpu(2) [OF ok3 i] f3(3) by auto
    show "cpu_idle_thread (cpus s3 ! i) \<noteq> Some t"
      using run(2) i f3(4) nth_mem [of i "cpus s"] by (auto simp: is_idle_thread_def list_ex_iff)
  qed (use f3 in auto)
  have "sched_ok s' rq1 sl2" unfolding res
    by (rule sched_ok_upd_free [OF ok3 free])
      (use sched_okD(3) [OF ok3, of t] in \<open>auto simp: links_kept_def thread_ok_def thread_priority_state_valid_def\<close>)
  moreover have "quiet s s'"
  proof -
    have "quiet s s1" using quiet_remove [OF run(1)] by (simp add: s1_def)
    then have "quiet s s2"
      using quiet_trans [OF _ quiet_sleeping_remove] by (simp add: s2_def uncount_sleeping_def)
    then have "quiet s s3" by (simp add: s3_def uncount_blocked_def)
    then show ?thesis unfolding res
      by (rule quiet_trans) (rule quiet_upd_thread, use f3 in \<open>simp add: stack_view_def\<close>)
  qed
  moreover have "parked s a" if "parked s' a" for a
    by (rule parked_other [OF \<open>quiet s s'\<close> _ _ _ that, of t])
      (auto simp: res s3_def s2_def s1_def uncount_sleeping_def uncount_blocked_def)
  ultimately show "keeps s s'" by (rule keepsI)
  show "t_state (threads s' t) = THREAD_STATE_TERMINATED"
    "\<not> queued (threads s' t)" "\<not> sleeping (threads s' t)" using f3 by (auto simp: res)
qed

end
