(* ===== verification/Scheduler_Switch.thy ===== *)
theory Scheduler_Switch
  imports Scheduler_Wake
begin

section \<open>Dispatching and context switches\<close>

text \<open>
  The machine: the scheduler state and, for each CPU, how far a context switch on it has come. The
  invariant of the machine says which thread's stack each CPU executes on; the theorems are that no
  two CPUs ever execute on the same stack before the outgoing frame is published, that a thread off
  the CPUs can always be resumed, and that blocking and waking are never refused.
\<close>

subsection \<open>Changing what a CPU runs\<close>

lemma lists_wf_cpu: "lists_wf (upd_cpu c g s) rq sl = lists_wf s rq sl"
  unfolding lists_wf_def ready_repr_def by (simp only: upd_sel)

lemma sched_ok_current:
  assumes ok: "sched_ok s rq sl" and c: "c < length (cpus s)"
    and t: "t \<in> set (thread_blocks s)" "\<not> queued (threads s t)" "\<not> sleeping (threads s t)"
    and f: "links_kept (threads s t) (f (threads s t))" "thread_ok (f (threads s t))"
    and g: "cpu_online (g (cpus s ! c)) = cpu_online (cpus s ! c) \<or> idle_thread c s \<noteq> None"
      "cpu_idle_thread (g (cpus s ! c)) = cpu_idle_thread (cpus s ! c)"
    and cur: "case cpu_current_thread (g (cpus s ! c)) of None \<Rightarrow> context_switching (g (cpus s ! c))
      | Some u \<Rightarrow> u = t \<and> running_cpu (f (threads s t)) = of_nat c \<and>
          (t_state (f (threads s t)) = THREAD_STATE_RUNNING \<or>
           (context_switching (g (cpus s ! c)) \<and> t_state (f (threads s t)) = THREAD_STATE_READY))"
    and other: "\<And>i. i < length (cpus s) \<Longrightarrow> i \<noteq> c \<Longrightarrow> cpu_current_thread (cpus s ! i) \<noteq> Some t"
    and idle: "is_idle_thread s t \<Longrightarrow>
      base_priority (f (threads s t)) = base_priority (threads s t) \<and>
      effective_priority (f (threads s t)) = effective_priority (threads s t) \<and>
      (t_state (f (threads s t)) = THREAD_STATE_READY \<or>
       (t_state (f (threads s t)) = THREAD_STATE_RUNNING \<and> running_cpu (f (threads s t)) \<noteq> THREAD_CPU_NONE))"
  shows "sched_ok (upd_cpu c g (upd_thread t f s)) rq sl"
proof (rule sched_okI)
  let ?s = "upd_cpu c g (upd_thread t f s)"
  have "lists_wf (upd_thread t f s) rq sl"
    using lists_wf_upd_thread [of s rq sl t f] sched_okD(1) [OF ok] f(1) t(2) by simp
  then show "lists_wf ?s rq sl" by (simp only: lists_wf_cpu)
  have fq: "\<not> queued (f (threads s t))" "\<not> sleeping (f (threads s t))"
    using f(1) t by (auto simp: links_kept_def)
  show "length (cpus ?s) < 2 ^ 32 - 1" using sched_okD(2) [OF ok] by simp
  show "thread_ok (threads ?s a)" if "a \<in> set (thread_blocks ?s)" for a
    using that f(2) sched_okD(3) [OF ok] by (cases "a = t") auto
  show "queued_ok ?s a \<and> a \<in> set (thread_blocks ?s)" if "queued (threads ?s a)" for a
    using that fq sched_okD(4,5) [OF ok, of a] by (auto simp: queued_ok_def split: if_splits)
  show "sleeper_ok ?s a" if "sleeping (threads ?s a)" for a
    using that fq sched_okD(6) [OF ok, of a] by (auto simp: sleeper_ok_def split: if_splits)
  fix i assume "i < length (cpus ?s)"
  then have i: "i < length (cpus s)" by simp
  show "current_ok ?s i"
  proof (cases "i = c")
    case True
    then show ?thesis using cur i t(1) by (auto simp: current_ok_def Let_def split: option.splits)
  next
    case False
    then show ?thesis
      using sched_okD(7) [OF ok i] other [OF i False] by (auto simp: current_ok_def Let_def split: option.splits)
  qed
  have v: "cpu_idle_thread (cpus ?s ! i) = cpu_idle_thread (cpus s ! i)"
    "idle_thread i s = None \<Longrightarrow> cpu_online (cpus ?s ! i) = cpu_online (cpus s ! i)"
    using g i by (cases "i = c"; auto)+
  show "idle_ok ?s i"
  proof (cases "cpu_idle_thread (cpus s ! i)")
    case None
    then show ?thesis using sched_okD(8) [OF ok i] v by (simp add: idle_ok_def)
  next
    case (Some u)
    then have "is_idle_thread s u" using nth_mem [OF i] by (auto simp: is_idle_thread_def list_ex_iff)
    then show ?thesis
      using sched_okD(8) [OF ok i] v Some idle fq by (cases "u = t") (auto simp: idle_ok_def)
  qed
qed

lemma make_running_ok:
  assumes ok: "sched_ok s rq sl" and c: "c < length (cpus s)"
    and t: "t \<in> set (thread_blocks s)" "\<not> queued (threads s t)" "\<not> sleeping (threads s t)"
    and other: "\<And>i. i < length (cpus s) \<Longrightarrow> i \<noteq> c \<Longrightarrow> cpu_current_thread (cpus s ! i) \<noteq> Some t"
  shows "sched_ok (make_running c t s) rq sl"
  unfolding make_running_def
  by (rule sched_ok_current [OF ok c t])
    (use other sched_okD(3) [OF ok t(1)] of_nat_cpu_not_none [of c] c sched_okD(2) [OF ok]
      in \<open>auto simp: links_kept_def thread_ok_def thread_priority_state_valid_def\<close>)

subsection \<open>Selection\<close>

text \<open>A frame that can be resumed, as far as the stack bounds are concerned.\<close>

definition frame_ok :: "kernel_thread \<Rightarrow> bool" where
  "frame_ok th \<longleftrightarrow> saved_stack_pointer th \<noteq> 0 \<and> kernel_stack_base th \<noteq> 0 \<and> kernel_stack_size th \<noteq> 0 \<and>
     kernel_stack_base th < kernel_stack_base th + kernel_stack_size th \<and>
     64 \<le> kernel_stack_base th + kernel_stack_size th - kernel_stack_base th \<and>
     kernel_stack_base th \<le> saved_stack_pointer th \<and>
     saved_stack_pointer th \<le> kernel_stack_base th + kernel_stack_size th - 64"

lemma thread_saved_stack_valid_iff:
  "thread_saved_stack_valid c s t \<longleftrightarrow> frame_ok (threads s t) \<or>
     (saved_stack_pointer (threads s t) = 0 \<and> stack_external (threads s t) \<and> current_thread c s = Some t)"
  by (auto simp: thread_saved_stack_valid_def frame_ok_def Let_def not_le not_less)

lemma select_from_Some:
  "select_from c s ps = Some (p, t) \<Longrightarrow> p \<in> set ps \<and> t \<in> set (queue_members s p) \<and> selectable c s t"
  by (induction ps) (auto simp: find_Some_iff split: option.splits)

lemma take_selected_ok:
  assumes ok: "sched_ok s rq sl" and t: "queued (threads s t)"
  shows "sched_good (take_selected p t s)" "quiet s (take_selected p t s)"
    and "\<not> queued (threads (take_selected p t s) t)" "\<not> sleeping (threads (take_selected p t s) t)"
    "t_state (threads (take_selected p t s) t) = THREAD_STATE_READY"
    "running_cpu (threads (take_selected p t s) t) = THREAD_CPU_NONE"
proof -
  note q = sched_okD(4,5) [OF ok t]
  have p3: "effective_priority (threads s t) < 3" by (rule lists_wf_queued(1) [OF sched_okD(1) [OF ok] t])
  have run: "running_cpu (threads s t) = THREAD_CPU_NONE" using q(1) by (simp add: queued_ok_def)
  note okr = remove_queued_ok [OF ok t refl]
  have "sched_ok (take_selected p t s)
      (rq(effective_priority (threads s t) := remove1 t (rq (effective_priority (threads s t))))) sl"
    unfolding take_selected_def count_dispatch_def
    by (rule sched_ok_upd_free)
      (use okr removed_free [OF ok t] thread_okD [OF sched_okD(3) [OF okr, of t]] q
        in \<open>auto simp: links_kept_def free_thread_def thread_ok_def thread_priority_state_valid_def queued_ok_def\<close>)
  then show "sched_good (take_selected p t s)" by (rule sched_goodI)
  show "quiet s (take_selected p t s)"
    unfolding take_selected_def count_dispatch_def
    by (rule quiet_trans [OF _ quiet_upd_thread]) (use run quiet_remove [OF run] in \<open>auto simp: stack_view_def\<close>)
  show "\<not> queued (threads (take_selected p t s) t)" "\<not> sleeping (threads (take_selected p t s) t)"
    "t_state (threads (take_selected p t s) t) = THREAD_STATE_READY"
    "running_cpu (threads (take_selected p t s) t) = THREAD_CPU_NONE"
    using q p3 by (auto simp: take_selected_def count_dispatch_def queued_ok_def)
qed

text \<open>What a dispatch may hand the CPU to.\<close>

definition resumable :: "nat \<Rightarrow> scheduler \<Rightarrow> addr \<Rightarrow> bool" where
  "resumable c s t \<longleftrightarrow> t \<in> set (thread_blocks s) \<and> \<not> queued (threads s t) \<and> \<not> sleeping (threads s t) \<and>
     t_state (threads s t) = THREAD_STATE_READY \<and>
     (running_cpu (threads s t) = THREAD_CPU_NONE \<or>
      (running_cpu (threads s t) = of_nat c \<and> idle_thread c s = Some t)) \<and>
     (is_idle_thread s t \<longrightarrow> idle_thread c s = Some t)"

text \<open>
  Selecting keeps the invariant and the CPUs; only the selected thread leaves the queues. Nothing is
  selected only when the idle thread is not available.
\<close>

lemma select_ok:
  assumes ok: "sched_ok s rq sl" and c: "c < length (cpus s)"
    and sel: "scheduler_select_next_locked c s = (r, s')"
  shows "sched_good s' \<and> quiet s s' \<and> (\<forall>a. parked s' a \<longrightarrow> parked s a \<or> (r = Some a \<and> \<not> is_idle_thread s a)) \<and>
    (case r of None \<Rightarrow> \<not> idle_selectable c s
      | Some t \<Rightarrow> resumable c s' t \<and> saved_context_valid (threads s t) \<and> thread_saved_stack_valid c s t)"
proof (cases "select_from c s [0..<3]")
  case (Some pt)
  obtain p t where pt: "pt = (p, t)" by fastforce
  from select_from_Some [OF Some [unfolded pt]]
  have p: "p < 3" "t \<in> set (queue_members s p)" "selectable c s t" by auto
  then have q: "queued (threads s t)"
    using lists_wf_members [OF sched_okD(1) [OF ok]] lists_wf_mem [OF sched_okD(1) [OF ok]] by auto
  have r: "r = Some t" "s' = take_selected p t s"
    using sel Some pt scheduler_validate_ok [OF ok c] by (auto simp: scheduler_select_next_locked_def)
  note ts = take_selected_ok [OF ok q, of p]
  have "\<not> is_idle_thread s' t"
    using queued_not_idle [OF ok q] by (simp add: r is_idle_thread_def take_selected_def count_dispatch_def)
  moreover have "t \<in> set (thread_blocks s')"
    using sched_okD(5) [OF ok q] ts(2) r by (simp add: quiet_def)
  moreover have "parked s' a \<Longrightarrow> parked s a \<or> (r = Some a \<and> \<not> is_idle_thread s a)" for a
    using queued_not_idle [OF ok q]
    by (cases "a = t") (auto simp: r parked_def take_selected_def count_dispatch_def)
  ultimately show ?thesis
    using ts p(3) r by (auto simp: resumable_def selectable_def thread_context_ready_def)
next
  case None
  have good: "sched_good s" by (rule sched_goodI [OF ok])
  show ?thesis
  proof (cases "idle_selectable c s")
    case True
    then obtain t where t: "idle_thread c s = Some t" by (auto simp: idle_selectable_def split: option.splits)
    have r: "r = Some t" "s' = count_dispatch THREAD_PRIORITY_BACKGROUND s"
      using sel None True t scheduler_validate_ok [OF ok c] by (auto simp: scheduler_select_next_locked_def)
    then show ?thesis
      using True t good idle_thread_ok [OF ok c t]
      by (auto simp: idle_selectable_def resumable_def count_dispatch_def thread_context_ready_def
          is_idle_thread_def parked_def)
  next
    case False
    then show ?thesis
      using sel None scheduler_validate_ok [OF ok c] good
      by (auto simp: scheduler_select_next_locked_def)
  qed
qed

subsection \<open>The dispatch decision\<close>

text \<open>
  The choice of the target after the corrections: the selected thread, the bootstrap thread when the
  CPU would otherwise idle, or the outgoing thread itself when a requeue finds nothing else.
\<close>

lemma choose_target_cases:
  assumes "choose_target c act out (t0, s0) = (r, s1)"
  obtains "r = t0" "\<not> (t0 = idle_thread c s0 \<and> act = SCHEDULER_DISPATCH_REQUEUE \<and> Some out \<noteq> idle_thread c s0)"
  | "r = Some (bootstrap_thread s0)" "bootstrap_available c s0 out" "t0 = idle_thread c s0"
  | "r = Some out" "act = SCHEDULER_DISPATCH_REQUEUE" 
  using assms
  by (auto simp: choose_target_def Let_def uncount_idle_dispatch_def split: if_splits prod.splits)

lemma choose_target_frame:
  assumes "choose_target c act out (t0, s0) = (r, s1)"
  obtains f where "s1 = upd_stats f s0"
proof -
  have "s1 = s0 \<or> s1 = uncount_idle_dispatch s0 \<or> s1 = uncount_idle_dispatch (uncount_idle_dispatch s0)"
    using assms by (auto simp: choose_target_def Let_def split: if_splits prod.splits)
  then consider "s1 = s0" | "s1 = uncount_idle_dispatch s0"
    | "s1 = uncount_idle_dispatch (uncount_idle_dispatch s0)" by blast
  then show ?thesis
  proof cases
    case 1
    then have "s1 = upd_stats (\<lambda>x. x) s0" by (simp add: upd_stats_def)
    then show ?thesis by (rule that)
  next
    case 2
    then show ?thesis unfolding uncount_idle_dispatch_def by (rule that)
  next
    case 3
    have "upd_stats f (upd_stats g s0) = upd_stats (f \<circ> g) s0" for f g by (simp add: upd_stats_def)
    with 3 show ?thesis unfolding uncount_idle_dispatch_def by (intro that) simp
  qed
qed

text \<open>The state in which a dispatch selects: the CPU is switching and the outgoing thread has let go.\<close>

definition mid :: "nat \<Rightarrow> scheduler_dispatch_action \<Rightarrow> addr \<Rightarrow> scheduler \<Rightarrow> scheduler" where
  "mid c act out s = (let s1 = upd_cpu c (\<lambda>x. x\<lparr>context_switching := True\<rparr>) s in
     if act = SCHEDULER_DISPATCH_REQUEUE then upd_thread out (\<lambda>x. x\<lparr>t_state := THREAD_STATE_READY\<rparr>) s1
     else upd_cpu c (\<lambda>x. x\<lparr>cpu_current_thread := None\<rparr>)
       (upd_thread out (\<lambda>x. x\<lparr>running_cpu := THREAD_CPU_NONE\<rparr>) s1))"

definition dispatch_state :: "scheduler_dispatch_action \<Rightarrow> thread_state" where
  "dispatch_state act = (case act of SCHEDULER_DISPATCH_REQUEUE \<Rightarrow> THREAD_STATE_RUNNING
     | SCHEDULER_DISPATCH_BLOCK \<Rightarrow> THREAD_STATE_BLOCKED
     | SCHEDULER_DISPATCH_TERMINATE \<Rightarrow> THREAD_STATE_TERMINATED)"

lemma prepare_dispatch_mid:
  assumes "current_thread c s = Some out" "t_state (threads s out) = dispatch_state act"
    "\<not> queued (threads s out)" "thread_saved_stack_valid c s out"
    "choose_target c act out (scheduler_select_next_locked c (mid c act out s)) = (r, s3)"
  shows "scheduler_prepare_dispatch_locked c s act = (case r of
      None \<Rightarrow> (Refused, upd_cpu c (\<lambda>x. x\<lparr>cpu_current_thread := Some out, context_switching := False\<rparr>)
                (upd_thread out (\<lambda>x. if act = SCHEDULER_DISPATCH_REQUEUE then x\<lparr>t_state := THREAD_STATE_RUNNING\<rparr>
                   else x\<lparr>running_cpu := of_nat c\<rparr>) s3))
    | Some t \<Rightarrow> if t = out
        then (Stay, upd_cpu c (\<lambda>x. x\<lparr>context_switching := False\<rparr>) (make_running c t s3))
        else if \<not> thread_context_ready c s3 t then (Panicked, s3) else (Handoff out t, make_running c t s3))"
  using assms
  by (cases act)
    (simp_all add: scheduler_prepare_dispatch_locked_def dispatch_state_def mid_def Let_def split: option.splits)

text \<open>A thread that a dispatch may hand the CPU to, in the state in which it does.\<close>

definition target_ok :: "nat \<Rightarrow> scheduler \<Rightarrow> addr \<Rightarrow> bool" where
  "target_ok c s t \<longleftrightarrow> resumable c s t \<and> saved_context_valid (threads s t) \<and> frame_ok (threads s t)"

definition boot_ok :: "scheduler \<Rightarrow> bool" where
  "boot_ok s \<longleftrightarrow> (let b = bootstrap_thread s in b \<in> set (thread_blocks s) \<and> \<not> is_idle_thread s b \<and>
     (parked s b \<longrightarrow> saved_context_valid (threads s b) \<and> frame_ok (threads s b)))"

lemma is_idle_thread_quiet: "quiet s s' \<Longrightarrow> is_idle_thread s' t = is_idle_thread s t"
  by (auto simp: is_idle_thread_def quiet_def cpu_view_def list_ex_length)

lemma frame_ok_quiet: "quiet s s' \<Longrightarrow> frame_ok (threads s' t) = frame_ok (threads s t)"
  by (simp add: frame_ok_def quiet_def stack_view_def)

lemma quietD:
  assumes "quiet s s'"
  shows "length (cpus s') = length (cpus s)" "thread_blocks s' = thread_blocks s"
    "bootstrap_thread s' = bootstrap_thread s"
    "saved_context_valid (threads s' t) = saved_context_valid (threads s t)"
    "running_cpu (threads s' t) = running_cpu (threads s t)"
    "running_cpu (threads s t) \<noteq> THREAD_CPU_NONE \<Longrightarrow> t_state (threads s' t) = t_state (threads s t)"
    "running_cpu (threads s t) \<noteq> THREAD_CPU_NONE \<Longrightarrow> queued (threads s' t) = queued (threads s t)"
    "i < length (cpus s) \<Longrightarrow> cpu_current_thread (cpus s' ! i) = cpu_current_thread (cpus s ! i)"
    "i < length (cpus s) \<Longrightarrow> cpu_idle_thread (cpus s' ! i) = cpu_idle_thread (cpus s ! i)"
    "i < length (cpus s) \<Longrightarrow> context_switching (cpus s' ! i) = context_switching (cpus s ! i)"
    "i < length (cpus s) \<Longrightarrow> cpu_online (cpus s' ! i) = cpu_online (cpus s ! i)"
  using assms by (auto simp: quiet_def stack_view_def cpu_view_def)

lemma sched_good_not_sleeping:
  "sched_good s \<Longrightarrow> t_state (threads s t) \<noteq> THREAD_STATE_BLOCKED \<Longrightarrow> \<not> sleeping (threads s t)"
  by (auto simp: sched_good_def sleeper_ok_def dest: sched_okD(6))

text \<open>The target of a dispatch from a good state in which the idle thread is available.\<close>

lemma dispatch_target:
  assumes good: "sched_good s2" and c: "c < length (cpus s2)" and boot: "boot_ok s2"
    and cur: "\<And>t. current_thread c s2 = Some t \<Longrightarrow> t = out \<and> \<not> saved_context_valid (threads s2 t)"
    and ch: "choose_target c act out (scheduler_select_next_locked c s2) = (r, s3)"
  shows "sched_good s3" "quiet s2 s3" "parked s3 a \<Longrightarrow> parked s2 a \<or> r = Some a"
    and "r = Some t \<Longrightarrow> t \<noteq> out \<Longrightarrow> target_ok c s3 t"
    and "r = None \<Longrightarrow> \<not> idle_selectable c s2"
    and "r = Some out \<Longrightarrow> target_ok c s3 out \<or> act = SCHEDULER_DISPATCH_REQUEUE"
proof -
  obtain rq sl where ok2: "sched_ok s2 rq sl" using good by (auto simp: sched_good_def)
  obtain t0 s0 where sel: "scheduler_select_next_locked c s2 = (t0, s0)" by fastforce
  note so = select_ok [OF ok2 c sel]
  obtain f where s3: "s3 = upd_stats f s0" by (rule choose_target_frame [OF ch [unfolded sel]])
  show g3: "sched_good s3" using so by (simp add: s3)
  show q3: "quiet s2 s3" using so by (simp add: s3)
  have sel_ok: "target_ok c s3 t" if "t0 = Some t" for t
  proof -
    have "resumable c s0 t" "saved_context_valid (threads s2 t)" "thread_saved_stack_valid c s2 t"
      using so that by auto
    moreover have "frame_ok (threads s2 t)"
      using calculation(2,3) cur [of t] by (auto simp: thread_saved_stack_valid_iff)
    ultimately show ?thesis
      using frame_ok_quiet [OF q3, of t] quietD(4) [OF q3, of t]
      by (simp add: target_ok_def s3 resumable_def is_idle_thread_def)
  qed
  have boot3: "target_ok c s3 (bootstrap_thread s0)" if "bootstrap_available c s0 out"
  proof -
    let ?b = "bootstrap_thread s2"
    have b: "bootstrap_thread s0 = ?b" using quietD(3) [OF q3] by (simp add: s3)
    have av: "t_state (threads s3 ?b) = THREAD_STATE_READY" "running_cpu (threads s3 ?b) = THREAD_CPU_NONE"
      "\<not> queued (threads s3 ?b)" using that by (auto simp: bootstrap_available_def Let_def b s3)
    then have "parked s0 ?b" by (simp add: parked_def s3)
    with so have "parked s2 ?b \<or> t0 = Some ?b" by blast
    then show ?thesis
    proof
      assume "parked s2 ?b"
      with boot have "saved_context_valid (threads s2 ?b)" "frame_ok (threads s2 ?b)" by (auto simp: boot_ok_def Let_def)
      then show ?thesis
        using av boot frame_ok_quiet [OF q3, of ?b] quietD(2,4) [OF q3] is_idle_thread_quiet [OF q3]
          sched_good_not_sleeping [OF g3, of ?b]
        by (simp add: target_ok_def resumable_def b boot_ok_def Let_def)
    qed (simp add: b sel_ok)
  qed
  have ti: "r = t0 \<or> t0 = idle_thread c s0"
    using ch by (auto simp: sel choose_target_def Let_def uncount_idle_dispatch_def split: if_splits prod.splits)
  show "parked s3 a \<Longrightarrow> parked s2 a \<or> r = Some a"
  proof -
    assume "parked s3 a"
    then have "parked s2 a \<or> (t0 = Some a \<and> \<not> is_idle_thread s2 a)" using so by (simp add: s3 parked_def)
    moreover have "is_idle_thread s2 a" if "idle_thread c s0 = Some a"
      using that quietD(9) [OF q3 c] nth_mem [OF c] by (auto simp: is_idle_thread_def list_ex_iff s3)
    ultimately show ?thesis using ti by auto
  qed
  show "r = Some t \<Longrightarrow> t \<noteq> out \<Longrightarrow> target_ok c s3 t"
    by (rule choose_target_cases [OF ch [unfolded sel]]) (auto intro: sel_ok boot3)
  show "r = Some out \<Longrightarrow> target_ok c s3 out \<or> act = SCHEDULER_DISPATCH_REQUEUE"
    by (rule choose_target_cases [OF ch [unfolded sel]]) (auto intro: sel_ok boot3)
  show "r = None \<Longrightarrow> \<not> idle_selectable c s2"
    by (rule choose_target_cases [OF ch [unfolded sel]]) (use so in auto)
qed

end
