(* ===== verification/Scheduler_Machine.thy ===== *)
theory Scheduler_Machine
  imports Scheduler_Switch
begin

section \<open>The machine: CPUs in the middle of context switches\<close>

text \<open>
  The scheduler state with, for each CPU, how far a context switch on it has come
  (\<^verbatim>\<open>kernel/src/context_switch.s\<close>). Between the dispatch and the publication of the outgoing frame
  the CPU is \<open>Saving\<close>; from then until the stack pointer is loaded it is \<open>Leaving\<close>: the outgoing
  thread is published, but the CPU still executes on its stack. The incoming thread then owes the
  call of \<^verbatim>\<open>scheduler_context_switch_complete\<close> for the outgoing one; the flags are restored before
  that call, so an interrupt may delay it. A CPU claims the thread it runs and the one it departs
  from. The events are the operations of the scheduler, each of them atomic under its lock.

  The result is an invariant of every run in which no thread becomes current while its own context
  switch is still pending: no stack is claimed by two CPUs, the kernel's self-checks never fail and
  never panic, and a thread that no CPU claims can be resumed.
\<close>

datatype cpu_phase = Executing | Saving addr u64 | Leaving addr

record machine =
  sched :: scheduler
  phase :: "nat \<Rightarrow> cpu_phase"
  owed :: "addr \<Rightarrow> addr list"
  panicked :: bool

fun departing :: "cpu_phase \<Rightarrow> addr set" where
  "departing Executing = {}"
| "departing (Saving out rsp) = {out}"
| "departing (Leaving out) = {out}"

definition claims :: "machine \<Rightarrow> nat \<Rightarrow> addr set" where
  "claims m i = set_option (current_thread i (sched m)) \<union> departing (phase m i)"

text \<open>The machine after an operation that may have begun a switch.\<close>

definition after :: "nat \<Rightarrow> machine \<Rightarrow> outcome \<times> scheduler \<Rightarrow> machine" where
  "after c m r = (case r of
       (Returned b, s) \<Rightarrow> m\<lparr>sched := s\<rparr>
     | (Switch out t, s) \<Rightarrow>
         m\<lparr>sched := s, phase := (phase m)(c := Saving out (saved_stack_pointer (threads s t)))\<rparr>
     | (Panic, s) \<Rightarrow> m\<lparr>sched := s, panicked := True\<rparr>)"

definition safe_flags :: "u64 \<Rightarrow> bool" where
  "safe_flags flags \<longleftrightarrow> flags AND push_bit 1 1 \<noteq> 0 \<and> flags AND SCHEDULER_UNSAFE_CONTEXT_FLAGS = 0"

datatype event =
    Unblock nat addr | Enqueue nat addr | Global_Tick nat | Timer_Tick nat
  | Syscall_Enter nat | Syscall_Leave nat bool
  | Block nat | Yield nat | Sleep nat u64 | Terminate nat
  | Preempt nat bool u64 u64 | Preempt_Trampoline nat
  | Saved nat u64 u64 | Left nat | Complete nat
  | Create nat string thread_priority addr u64 | Create_Suspended nat string thread_priority addr u64
  | Terminate_Thread nat addr | Destroy nat addr
  | Prepare_Idle nat nat u64 u64 addr | Start nat

fun event_cpu :: "event \<Rightarrow> nat" where
  "event_cpu (Unblock c t) = c" | "event_cpu (Enqueue c t) = c"
| "event_cpu (Global_Tick c) = c" | "event_cpu (Timer_Tick c) = c"
| "event_cpu (Syscall_Enter c) = c" | "event_cpu (Syscall_Leave c b) = c"
| "event_cpu (Block c) = c" | "event_cpu (Yield c) = c" | "event_cpu (Sleep c n) = c"
| "event_cpu (Terminate c) = c" | "event_cpu (Preempt c u rip flags) = c"
| "event_cpu (Preempt_Trampoline c) = c" | "event_cpu (Saved c rsp flags) = c"
| "event_cpu (Left c) = c" | "event_cpu (Complete c) = c"
| "event_cpu (Create c n p b st) = c" | "event_cpu (Create_Suspended c n p b st) = c"
| "event_cpu (Terminate_Thread c t) = c" | "event_cpu (Destroy c t) = c"
| "event_cpu (Prepare_Idle c i base sz b) = c" | "event_cpu (Start c) = c"

text \<open>
  When an event can happen. Threads that are named exist; memory handed out by the allocator is new,
  not null and does not wrap around the address space; the frame that the assembly pushes lies within
  the outgoing thread's stack, and its flags are those of kernel code. The rest of the conditions are
  those of the operations themselves.
\<close>

definition fresh_stack :: "u64 \<Rightarrow> u64 \<Rightarrow> bool" where
  "fresh_stack base sz \<longleftrightarrow> base \<noteq> 0 \<and> 128 \<le> sz \<and> base < base + sz"

fun enabled :: "machine \<Rightarrow> event \<Rightarrow> bool" where
  "enabled m (Saved c rsp flags) = (case phase m c of
       Saving out inc \<Rightarrow> frame_ok ((threads (sched m) out)\<lparr>saved_stack_pointer := rsp\<rparr>) \<and> safe_flags flags
     | _ \<Rightarrow> False)"
| "enabled m (Left c) = (case phase m c of Leaving out \<Rightarrow> True | _ \<Rightarrow> False)"
| "enabled m (Start c) \<longleftrightarrow> phase m c = Executing \<and> current_thread c (sched m) = None"
| "enabled m (Complete c) = (phase m c = Executing \<and> (case current_thread c (sched m) of None \<Rightarrow> False
     | Some t \<Rightarrow> owed m t \<noteq> []))"
| "enabled m e = (phase m (event_cpu e) = Executing \<and> current_thread (event_cpu e) (sched m) \<noteq> None \<and>
     (case e of
       Unblock c t \<Rightarrow> t \<in> set (thread_blocks (sched m))
     | Enqueue c t \<Rightarrow> t \<in> set (thread_blocks (sched m)) \<and> \<not> is_idle_thread (sched m) t
     | Terminate_Thread c t \<Rightarrow> t \<in> set (thread_blocks (sched m))
     | Destroy c t \<Rightarrow> t \<in> set (thread_blocks (sched m))
     | Create c n p b st \<Rightarrow> b \<notin> set (thread_blocks (sched m)) \<and> fresh_stack st THREAD_KERNEL_STACK_SIZE
     | Create_Suspended c n p b st \<Rightarrow>
         b \<notin> set (thread_blocks (sched m)) \<and> fresh_stack st THREAD_KERNEL_STACK_SIZE
     | Prepare_Idle c i base sz b \<Rightarrow> b \<notin> set (thread_blocks (sched m)) \<and> fresh_stack base sz
     | _ \<Rightarrow> True))"

fun exec :: "event \<Rightarrow> machine \<Rightarrow> machine" where
  "exec (Unblock c t) m = m\<lparr>sched := snd (scheduler_unblock c (sched m) (Some t))\<rparr>"
| "exec (Enqueue c t) m = m\<lparr>sched := snd (scheduler_enqueue c (sched m) (Some t))\<rparr>"
| "exec (Global_Tick c) m = m\<lparr>sched := snd (scheduler_global_tick c (sched m))\<rparr>"
| "exec (Timer_Tick c) m = m\<lparr>sched := snd (scheduler_timer_tick c (sched m))\<rparr>"
| "exec (Syscall_Enter c) m = m\<lparr>sched := scheduler_syscall_enter c (sched m)\<rparr>"
| "exec (Syscall_Leave c irq) m = (case scheduler_syscall_leave c irq (sched m) of
     None \<Rightarrow> m | Some s \<Rightarrow> m\<lparr>sched := s\<rparr>)"
| "exec (Block c) m = after c m (scheduler_block c (sched m))"
| "exec (Yield c) m = after c m (scheduler_yield c (sched m))"
| "exec (Sleep c n) m = after c m (scheduler_sleep c (sched m) n)"
| "exec (Terminate c) m = after c m (scheduler_terminate c (sched m))"
| "exec (Preempt c from_user rip flags) m =
     (case scheduler_prepare_preemption c (sched m) from_user rip flags of
        (Resched r, s) \<Rightarrow> after c m (r, s) | (_, s) \<Rightarrow> m\<lparr>sched := s\<rparr>)"
| "exec (Preempt_Trampoline c) m = (case scheduler_preempt_from_trampoline c (sched m) of
     (r, rip, s) \<Rightarrow> after c m (r, s))"
| "exec (Saved c rsp flags) m = (case phase m c of
       Saving out inc \<Rightarrow> (case scheduler_context_switch_saved c out rsp flags inc (sched m) of
           None \<Rightarrow> m\<lparr>panicked := True\<rparr>
         | Some s \<Rightarrow> m\<lparr>sched := s, phase := (phase m)(c := Leaving out)\<rparr>)
     | _ \<Rightarrow> m)"
| "exec (Left c) m = (case (phase m c, current_thread c (sched m)) of
       (Leaving out, Some t) \<Rightarrow>
         m\<lparr>phase := (phase m)(c := Executing), owed := (owed m)(t := out # owed m t)\<rparr>
     | _ \<Rightarrow> m)"
| "exec (Complete c) m = (case current_thread c (sched m) of None \<Rightarrow> m
     | Some t \<Rightarrow> (case owed m t of [] \<Rightarrow> m
         | out # rest \<Rightarrow> m\<lparr>sched := scheduler_context_switch_complete out (sched m),
             owed := (owed m)(t := rest)\<rparr>))"
| "exec (Create c n p b st) m = (case thread_create_with_priority c (sched m) (Some n) p (Some b) st of
     (r, s) \<Rightarrow> m\<lparr>sched := s, owed := (owed m)(b := [])\<rparr>)"
| "exec (Create_Suspended c n p b st) m =
     (case thread_create_suspended_with_priority c (sched m) (Some n) p (Some b) st of
        (r, s) \<Rightarrow> m\<lparr>sched := s, owed := (owed m)(b := [])\<rparr>)"
| "exec (Terminate_Thread c t) m = (case terminate_thread_locked (sched m) t of
     None \<Rightarrow> m | Some s \<Rightarrow> m\<lparr>sched := s\<rparr>)"
| "exec (Destroy c t) m = (case thread_destroy_locked (sched m) t of
     None \<Rightarrow> m | Some s \<Rightarrow> m\<lparr>sched := s\<lparr>thread_blocks := remove1 t (thread_blocks s)\<rparr>\<rparr>)"
| "exec (Prepare_Idle c i base sz b) m =
     m\<lparr>sched := snd (scheduler_prepare_idle_cpu (sched m) i base sz (Some b)), owed := (owed m)(b := [])\<rparr>"
| "exec (Start c) m = m\<lparr>sched := snd (scheduler_start_cpu c (sched m))\<rparr>"

inductive mstep :: "machine \<Rightarrow> machine \<Rightarrow> bool" where
  mstep: "event_cpu e < length (cpus (sched m)) \<Longrightarrow> enabled m e \<Longrightarrow> mstep m (exec e m)"

text \<open>A step in which no thread becomes current while its own switch is pending.\<close>

definition patient :: "machine \<Rightarrow> machine \<Rightarrow> bool" where
  "patient m m' \<longleftrightarrow> (\<forall>i<length (cpus (sched m)). \<forall>t. current_thread i (sched m') = Some t \<longrightarrow>
     current_thread i (sched m) \<noteq> Some t \<longrightarrow> \<not> context_switch_pending (threads (sched m) t))"

definition machine_step :: "machine \<Rightarrow> machine \<Rightarrow> bool" where
  "machine_step m m' \<longleftrightarrow> mstep m m' \<and> patient m m'"

subsection \<open>The invariant\<close>

text \<open>A thread off the CPUs, ready to be resumed; and a thread that executes.\<close>

definition rested :: "scheduler \<Rightarrow> addr \<Rightarrow> bool" where
  "rested s t \<longleftrightarrow> running_cpu (threads s t) = THREAD_CPU_NONE \<and> saved_context_valid (threads s t) \<and>
     frame_ok (threads s t) \<and> safe_flags (saved_rflags (threads s t))"

definition live :: "scheduler \<Rightarrow> addr \<Rightarrow> bool" where
  "live s t \<longleftrightarrow> \<not> saved_context_valid (threads s t) \<and> (frame_ok (threads s t) \<or>
     (saved_stack_pointer (threads s t) = 0 \<and> stack_external (threads s t)))"

fun phase_ok :: "scheduler \<Rightarrow> nat \<Rightarrow> cpu_phase \<Rightarrow> bool" where
  "phase_ok s i Executing \<longleftrightarrow> \<not> context_switching (cpus s ! i) \<and>
     (\<forall>t. current_thread i s = Some t \<longrightarrow> live s t \<and> \<not> context_switch_pending (threads s t))"
| "phase_ok s i (Saving out rsp) \<longleftrightarrow> context_switching (cpus s ! i) \<and>
     (\<exists>t. current_thread i s = Some t \<and> t \<noteq> out \<and> t_state (threads s t) = THREAD_STATE_RUNNING \<and>
        saved_context_valid (threads s t) \<and> frame_ok (threads s t) \<and>
        saved_stack_pointer (threads s t) = rsp \<and> \<not> context_switch_pending (threads s t)) \<and>
     out \<in> set (thread_blocks s) \<and> live s out \<and> context_switch_pending (threads s out) \<and>
     \<not> parked s out \<and> (running_cpu (threads s out) = THREAD_CPU_NONE \<or>
        (running_cpu (threads s out) = of_nat i \<and> t_state (threads s out) = THREAD_STATE_READY))"
| "phase_ok s i (Leaving out) \<longleftrightarrow> \<not> context_switching (cpus s ! i) \<and>
     (\<exists>t. current_thread i s = Some t \<and> t \<noteq> out \<and> live s t \<and> \<not> context_switch_pending (threads s t)) \<and>
     out \<in> set (thread_blocks s) \<and> rested s out \<and> context_switch_pending (threads s out)"

text \<open>Each switch in flight has at most one completion owed, and it is owed for a thread off the CPUs.\<close>

definition owed_ok :: "machine \<Rightarrow> bool" where
  "owed_ok m \<longleftrightarrow> (\<forall>t x. x \<in> set (owed m t) \<longrightarrow> x \<in> set (thread_blocks (sched m)) \<and>
       context_switch_pending (threads (sched m) x) \<and>
       (\<forall>i<length (cpus (sched m)). x \<notin> departing (phase m i)) \<and>
       (\<forall>u. x \<in> set (owed m u) \<longrightarrow> u = t)) \<and> (\<forall>t. distinct (owed m t))"

text \<open>A CPU that runs has an idle thread, which stays on that CPU and is never the bootstrap thread.\<close>

definition idle_pinned :: "machine \<Rightarrow> nat \<Rightarrow> bool" where
  "idle_pinned m i \<longleftrightarrow> (current_thread i (sched m) \<noteq> None \<longrightarrow> idle_thread i (sched m) \<noteq> None) \<and>
     (\<forall>t. idle_thread i (sched m) = Some t \<longrightarrow> t \<noteq> bootstrap_thread (sched m) \<and>
     (\<forall>j<length (cpus (sched m)). j \<noteq> i \<longrightarrow> t \<notin> claims m j \<and> idle_thread j (sched m) \<noteq> Some t))"

definition claims_apart :: "machine \<Rightarrow> bool" where
  "claims_apart m \<longleftrightarrow> (\<forall>i<length (cpus (sched m)). \<forall>j<length (cpus (sched m)). i \<noteq> j \<longrightarrow>
     claims m i \<inter> claims m j = {})"

definition machine_ok :: "machine \<Rightarrow> bool" where
  "machine_ok m \<longleftrightarrow> \<not> panicked m \<and> sched_good (sched m) \<and>
     bootstrap_thread (sched m) \<in> set (thread_blocks (sched m)) \<and>
     (\<forall>i<length (cpus (sched m)). phase_ok (sched m) i (phase m i) \<and> idle_pinned m i) \<and>
     claims_apart m \<and>
     (\<forall>t\<in>set (thread_blocks (sched m)). (\<forall>i<length (cpus (sched m)). t \<notin> claims m i) \<longrightarrow>
        rested (sched m) t) \<and>
     owed_ok m"

lemma machine_okD:
  assumes "machine_ok m"
  shows "\<not> panicked m" "sched_good (sched m)" "bootstrap_thread (sched m) \<in> set (thread_blocks (sched m))"
    "i < length (cpus (sched m)) \<Longrightarrow> phase_ok (sched m) i (phase m i)"
    "i < length (cpus (sched m)) \<Longrightarrow> idle_pinned m i"
    "i < length (cpus (sched m)) \<Longrightarrow> j < length (cpus (sched m)) \<Longrightarrow> i \<noteq> j \<Longrightarrow> t \<in> claims m i \<Longrightarrow> t \<notin> claims m j"
    "t \<in> set (thread_blocks (sched m)) \<Longrightarrow> (\<And>i. i < length (cpus (sched m)) \<Longrightarrow> t \<notin> claims m i) \<Longrightarrow>
      rested (sched m) t"
    "owed_ok m"
  using assms unfolding machine_ok_def claims_apart_def by blast+

subsection \<open>Steps of one CPU\<close>

text \<open>What a step leaves alone of a thread it does not touch, and what follows for the other CPUs.\<close>

definition undisturbed :: "scheduler \<Rightarrow> scheduler \<Rightarrow> addr \<Rightarrow> bool" where
  "undisturbed s s' t \<longleftrightarrow> stack_view (threads s t) (threads s' t) \<and> (parked s' t \<longrightarrow> parked s t)"

lemma undisturbedD:
  assumes "undisturbed s s' t"
  shows "rested s t \<Longrightarrow> rested s' t" "live s' t = live s t"
    "context_switch_pending (threads s' t) = context_switch_pending (threads s t)"
    "running_cpu (threads s' t) = running_cpu (threads s t)"
  using assms by (auto simp: undisturbed_def stack_view_def rested_def live_def frame_ok_def)

lemma current_not_none:
  "sched_good s \<Longrightarrow> i < length (cpus s) \<Longrightarrow> current_thread i s = Some t \<Longrightarrow>
    running_cpu (threads s t) = of_nat i \<and> running_cpu (threads s t) \<noteq> THREAD_CPU_NONE \<and>
    t \<in> set (thread_blocks s) \<and> \<not> queued (threads s t) \<and> \<not> sleeping (threads s t)"
  unfolding sched_good_def by (elim exE) (intro conjI; rule current_running_cpu)

lemma claims_blocks:
  assumes "machine_ok m" "i < length (cpus (sched m))" "t \<in> claims m i"
  shows "t \<in> set (thread_blocks (sched m))"
  using assms(3) current_not_none [OF machine_okD(2) [OF assms(1)] assms(2)] machine_okD(4) [OF assms(1,2)]
  by (cases "phase m i") (auto simp: claims_def)

lemma phase_ok_undisturbed:
  assumes good: "sched_good s" and i: "i < length (cpus s)" and ph: "phase_ok s i ph"
    and cpu: "cpu_view (cpus s ! i) (cpus s' ! i)"
    and t: "\<And>t. t \<in> set_option (current_thread i s) \<union> departing ph \<Longrightarrow>
      undisturbed s s' t \<and> t \<in> set (thread_blocks s')"
  shows "phase_ok s' i ph"
proof -
  have v: "current_thread i s' = current_thread i s" "context_switching (cpus s' ! i) = context_switching (cpus s ! i)"
    using cpu by (auto simp: cpu_view_def)
  have cur: "undisturbed s s' t" "t_state (threads s' t) = t_state (threads s t)"
    if "current_thread i s = Some t" for t
    using that t [of t] current_not_none [OF good i that] by (auto simp: undisturbed_def stack_view_def)
  show ?thesis
  proof (cases ph)
    case Executing
    then show ?thesis using ph v cur undisturbedD(2,3) [OF cur(1)] by auto
  next
    case (Saving out rsp)
    then have o: "undisturbed s s' out" "out \<in> set (thread_blocks s')" using t [of out] by auto
    obtain u where u: "current_thread i s = Some u" "u \<noteq> out" "t_state (threads s u) = THREAD_STATE_RUNNING"
        "saved_context_valid (threads s u)" "frame_ok (threads s u)" "saved_stack_pointer (threads s u) = rsp"
        "\<not> context_switch_pending (threads s u)"
      using ph Saving by auto
    note c = cur [OF u(1)]
    have "saved_context_valid (threads s' u)" "frame_ok (threads s' u)" "saved_stack_pointer (threads s' u) = rsp"
      using c(1) u by (auto simp: undisturbed_def stack_view_def frame_ok_def)
    moreover have "running_cpu (threads s' out) = THREAD_CPU_NONE \<or>
        (running_cpu (threads s' out) = of_nat i \<and> t_state (threads s' out) = THREAD_STATE_READY)"
      using ph Saving o(1) by (auto simp: undisturbed_def stack_view_def)
    ultimately show ?thesis
      using Saving ph v o u c undisturbedD(2,3) [OF o(1)] undisturbedD(3) [OF c(1)]
      by (auto simp: undisturbed_def)
  next
    case (Leaving out)
    then have o: "undisturbed s s' out" "out \<in> set (thread_blocks s')" using t [of out] by auto
    then show ?thesis
      using Leaving ph v undisturbedD(1,3) [OF o(1)] undisturbedD(2,3) [OF cur(1)] by auto
  qed
qed

text \<open>
  A step of one CPU keeps the invariant when it keeps the scheduler's, the CPU's new phase is right,
  what it claims anew nobody else claims, what it lets go is ready to be resumed, and all other
  threads are undisturbed. \<open>new\<close> are threads allocated by the step.
\<close>

lemma machine_ok_change:
  assumes ok: "machine_ok m" and c: "c < length (cpus (sched m))"
    and good: "sched_good (sched m')" and np: "\<not> panicked m'"
    and len: "length (cpus (sched m')) = length (cpus (sched m))"
    and boot: "bootstrap_thread (sched m') = bootstrap_thread (sched m)"
      "bootstrap_thread (sched m) \<in> set (thread_blocks (sched m'))"
    and blocks: "\<And>t. t \<in> set (thread_blocks (sched m')) \<Longrightarrow> t \<notin> set (thread_blocks (sched m)) \<Longrightarrow> rested (sched m') t"
      "\<And>i t. i < length (cpus (sched m)) \<Longrightarrow> t \<in> claims m i \<Longrightarrow> t \<in> set (thread_blocks (sched m'))"
    and others: "\<And>i. i < length (cpus (sched m)) \<Longrightarrow> i \<noteq> c \<Longrightarrow>
      cpu_view (cpus (sched m) ! i) (cpus (sched m') ! i) \<and> phase m' i = phase m i"
    and idle: "idle_thread c (sched m') = idle_thread c (sched m)"
      "current_thread c (sched m') \<noteq> None \<Longrightarrow> idle_thread c (sched m) \<noteq> None"
    and undist: "\<And>i t. i < length (cpus (sched m)) \<Longrightarrow> i \<noteq> c \<Longrightarrow> t \<in> claims m i \<Longrightarrow>
      undisturbed (sched m) (sched m') t"
    and rest: "\<And>t. t \<in> set (thread_blocks (sched m)) \<Longrightarrow> t \<notin> claims m c \<Longrightarrow> t \<notin> claims m' c \<Longrightarrow>
      rested (sched m) t \<Longrightarrow> rested (sched m') t"
    and own: "phase_ok (sched m') c (phase m' c)"
    and gain: "\<And>t j. t \<in> claims m' c \<Longrightarrow> t \<notin> claims m c \<Longrightarrow> j < length (cpus (sched m)) \<Longrightarrow> j \<noteq> c \<Longrightarrow>
      t \<notin> claims m j \<and> idle_thread j (sched m) \<noteq> Some t"
    and loss: "\<And>t. t \<in> claims m c \<Longrightarrow> t \<notin> claims m' c \<Longrightarrow> rested (sched m') t"
    and owed: "owed_ok m'"
  shows "machine_ok m'"
proof -
  note D = machine_okD [OF ok]
  let ?n = "length (cpus (sched m))"
  have other: "claims m' i = claims m i" "idle_thread i (sched m') = idle_thread i (sched m)"
      "current_thread i (sched m') = current_thread i (sched m)"
    if "i < ?n" "i \<noteq> c" for i
    using others [OF that] by (auto simp: claims_def cpu_view_def)
  have away: "t \<notin> claims m' c \<and> t \<notin> claims m c" if "i < ?n" "i \<noteq> c" "t \<in> claims m i" for i t
    using that D(6) [OF that(1) c that(2,3)] gain by blast
  have "phase_ok (sched m') i (phase m' i)" if i: "i < ?n" for i
  proof (cases "i = c")
    case False
    have "phase_ok (sched m') i (phase m i)"
      by (rule phase_ok_undisturbed [OF D(2) i D(4) [OF i]])
        (use others [OF i False] undist [OF i False] blocks(2) [OF i] in \<open>auto simp: claims_def\<close>)
    then show ?thesis using others [OF i False] by simp
  qed (use own in simp)
  moreover have "idle_pinned m' i" if i: "i < ?n" for i
    unfolding idle_pinned_def
  proof (rule conjI; intro allI impI)
    show "idle_thread i (sched m') \<noteq> None" if "current_thread i (sched m') \<noteq> None"
      using that D(5) [OF i] other(2,3) [OF i] idle by (cases "i = c") (auto simp: idle_pinned_def)
  next
    fix t assume t: "idle_thread i (sched m') = Some t"
    then have t': "idle_thread i (sched m) = Some t" using other(2) [OF i] idle(1) by (cases "i = c") auto
    have p: "t \<noteq> bootstrap_thread (sched m)" "\<And>j. j < ?n \<Longrightarrow> j \<noteq> i \<Longrightarrow> t \<notin> claims m j \<and> idle_thread j (sched m) \<noteq> Some t"
      using D(5) [OF i] t' by (auto simp: idle_pinned_def)
    have "t \<notin> claims m' j \<and> idle_thread j (sched m') \<noteq> Some t" if j: "j < ?n" "j \<noteq> i" for j
    proof (cases "j = c")
      case True
      then show ?thesis using p(2) [OF j] gain [of t i] i j t' idle(1) by metis
    next
      case False
      then show ?thesis using p(2) [OF j] other [OF j(1)] by simp
    qed
    then show "t \<noteq> bootstrap_thread (sched m') \<and> (\<forall>j<length (cpus (sched m')). j \<noteq> i \<longrightarrow>
        t \<notin> claims m' j \<and> idle_thread j (sched m') \<noteq> Some t)"
      using p(1) boot len by simp
  qed
  moreover have "claims m' i \<inter> claims m' j = {}" if ij: "i < ?n" "j < ?n" "i \<noteq> j" for i j
  proof (cases "i = c \<or> j = c")
    case True
    then show ?thesis using ij other(1) away by blast
  next
    case False
    then show ?thesis using ij other(1) D(6) [OF ij] by blast
  qed
  moreover have "rested (sched m') t"
    if t: "t \<in> set (thread_blocks (sched m'))" "\<And>i. i < ?n \<Longrightarrow> t \<notin> claims m' i" for t
  proof (cases "t \<in> set (thread_blocks (sched m)) \<and> t \<notin> claims m c")
    case True
    then have "rested (sched m) t" using D(7) [of t] t(2) other(1) by metis
    then show ?thesis using rest [of t] True t(2) [OF c] by blast
  qed (use t blocks(1) loss c in blast)
  ultimately show ?thesis
    unfolding machine_ok_def claims_apart_def len boot(1) using np good boot(2) owed by blast
qed

text \<open>The common case: every thread that the CPU does not claim is undisturbed.\<close>

lemma machine_ok_step:
  assumes ok: "machine_ok m" and c: "c < length (cpus (sched m))"
    and good: "sched_good (sched m')" and np: "\<not> panicked m'"
    and len: "length (cpus (sched m')) = length (cpus (sched m))"
    and boot: "bootstrap_thread (sched m') = bootstrap_thread (sched m)"
      "bootstrap_thread (sched m) \<in> set (thread_blocks (sched m'))"
    and blocks: "\<And>t. t \<in> set (thread_blocks (sched m')) \<Longrightarrow> t \<notin> set (thread_blocks (sched m)) \<Longrightarrow> rested (sched m') t"
      "\<And>i t. i < length (cpus (sched m)) \<Longrightarrow> t \<in> claims m i \<Longrightarrow> t \<in> set (thread_blocks (sched m'))"
    and others: "\<And>i. i < length (cpus (sched m)) \<Longrightarrow> i \<noteq> c \<Longrightarrow>
      cpu_view (cpus (sched m) ! i) (cpus (sched m') ! i) \<and> phase m' i = phase m i"
    and idle: "idle_thread c (sched m') = idle_thread c (sched m)"
      "current_thread c (sched m') \<noteq> None \<Longrightarrow> idle_thread c (sched m) \<noteq> None"
    and undist: "\<And>t. t \<notin> claims m c \<Longrightarrow> t \<notin> claims m' c \<Longrightarrow> t \<in> set (thread_blocks (sched m)) \<Longrightarrow>
      undisturbed (sched m) (sched m') t"
    and own: "phase_ok (sched m') c (phase m' c)"
    and gain: "\<And>t j. t \<in> claims m' c \<Longrightarrow> t \<notin> claims m c \<Longrightarrow> j < length (cpus (sched m)) \<Longrightarrow> j \<noteq> c \<Longrightarrow>
      t \<notin> claims m j \<and> idle_thread j (sched m) \<noteq> Some t"
    and loss: "\<And>t. t \<in> claims m c \<Longrightarrow> t \<notin> claims m' c \<Longrightarrow> rested (sched m') t"
    and owed: "owed_ok m'"
  shows "machine_ok m'"
proof (rule machine_ok_change [OF ok c good np len boot blocks others idle])
  show "undisturbed (sched m) (sched m') t" if "i < length (cpus (sched m))" "i \<noteq> c" "t \<in> claims m i" for i t
    using undist [of t] claims_blocks [OF ok that(1,3)] machine_okD(6) [OF ok that(1) c that(2,3)] gain [of t i] that by blast
  show "rested (sched m') t" if "t \<in> set (thread_blocks (sched m))" "t \<notin> claims m c" "t \<notin> claims m' c" "rested (sched m) t" for t
    using undist [of t] that undisturbedD(1) by blast
qed (use own gain loss owed in auto)

subsection \<open>Steps that leave the CPUs alone\<close>

lemma keeps_undisturbed: "keeps s s' \<Longrightarrow> undisturbed s s' t"
  by (auto simp: keeps_def undisturbed_def quiet_def)

lemma machine_ok_keeps:
  assumes ok: "machine_ok m" and c: "c < length (cpus (sched m))" and k: "keeps (sched m) s'"
  shows "machine_ok (m\<lparr>sched := s'\<rparr>)"
proof -
  note D = machine_okD [OF ok] and q = keepsD(2) [OF k]
  have view: "cpu_view (cpus (sched m) ! i) (cpus s' ! i)" if "i < length (cpus (sched m))" for i
    using q that by (simp add: quiet_def)
  have claims: "claims (m\<lparr>sched := s'\<rparr>) i = claims m i" if "i < length (cpus (sched m))" for i
    using view [OF that] by (simp add: claims_def cpu_view_def)
  have same: "thread_blocks s' = thread_blocks (sched m)" "bootstrap_thread s' = bootstrap_thread (sched m)"
    "length (cpus s') = length (cpus (sched m))" "idle_thread c s' = idle_thread c (sched m)"
    using q c by (auto simp: quiet_def cpu_view_def)
  have "phase_ok s' c (phase m c)"
    using phase_ok_undisturbed [OF D(2) c D(4) [OF c] view [OF c]] keeps_undisturbed [OF k]
      claims_blocks [OF ok c] same(1)
    by (simp add: claims_def)
  moreover have "owed_ok (m\<lparr>sched := s'\<rparr>)"
    using D(8) same undisturbedD(3) [OF keeps_undisturbed [OF k]] by (simp add: owed_ok_def)
  moreover have "current_thread c s' \<noteq> None \<Longrightarrow> idle_thread c (sched m) \<noteq> None"
    using D(5) [OF c] quietD(8) [OF q c] by (auto simp: idle_pinned_def)
  ultimately show ?thesis
    using D(1,3) keepsD(1) [OF k] claims [OF c] same view keeps_undisturbed [OF k] claims_blocks [OF ok]
    by (intro machine_ok_step [OF ok c]) simp_all
qed

lemma keeps_upd_view:
  assumes "sched_good s" "sched_view (threads s t) (f (threads s t))" "stack_view (threads s t) (f (threads s t))"
  shows "keeps s (upd_thread t f s)"
proof -
  obtain rq sl where ok: "sched_ok s rq sl" using assms(1) by (auto simp: sched_good_def)
  show ?thesis
    by (rule keepsI [OF sched_ok_upd_view [OF ok] quiet_upd_thread])
      (use assms in \<open>auto simp: parked_def sched_view_def links_kept_def split: if_splits\<close>)
qed

lemma keeps_upd_cpu:
  "keeps s s' \<Longrightarrow> (c < length (cpus s') \<Longrightarrow> cpu_view (cpus s' ! c) (f (cpus s' ! c))) \<Longrightarrow> keeps s (upd_cpu c f s')"
  unfolding keeps_def parked_def by (auto intro!: sched_good_upd_cpu quiet_trans [OF _ quiet_upd_cpu])

lemma keeps_upd_view2:
  assumes "keeps s s'" "sched_view (threads s' t) (f (threads s' t))" "stack_view (threads s' t) (f (threads s' t))"
  shows "keeps s (upd_thread t f s')"
  using keeps_trans [OF assms(1)] keeps_upd_view [of s' t f] keepsD(1) [OF assms(1)] assms(2,3) by blast

lemmas view_defs = sched_view_def stack_view_def links_kept_def cpu_view_def

lemma syscall_enter_keeps: "sched_good s \<Longrightarrow> keeps s (scheduler_syscall_enter c s)"
  by (auto simp: scheduler_syscall_enter_def view_defs intro!: keeps_upd_view keeps_refl split: option.splits)

lemma syscall_leave_keeps: "sched_good s \<Longrightarrow> scheduler_syscall_leave c irq s = Some s' \<Longrightarrow> keeps s s'"
  by (auto simp: scheduler_syscall_leave_def view_defs intro!: keeps_upd_view keeps_refl
      split: option.splits if_splits)

lemma account_tick_keeps: "sched_good s \<Longrightarrow> keeps s (account_tick c s)"
  unfolding account_tick_def Let_def
  by (auto simp: view_defs intro!: keeps_upd_view2 keeps_upd_cpu keeps_refl split: option.splits)

lemma timer_tick_keeps:
  assumes "sched_good s"
  shows "keeps s (snd (scheduler_timer_tick c s))"
proof -
  define a where "a = account_tick c s"
  define s1 where "s1 = (if current_thread c a = idle_thread c a
      then set_preemption c (scheduler_has_eligible_ready_locked c a)
        (upd_stats (\<lambda>x. x\<lparr>idle_runtime_ticks := idle_runtime_ticks x + 1\<rparr>) a) else a)"
  have ka: "keeps s a" unfolding a_def by (rule account_tick_keeps [OF assms])
  have k1: "keeps s s1" unfolding s1_def using ka by (simp add: keeps_set_preemption keeps_stats)
  define s2 where "s2 t = upd_thread t (\<lambda>x. if remaining_time_slice x > 0
      then x\<lparr>remaining_time_slice := remaining_time_slice x - 1\<rparr> else x) s1" for t
  define s3 where "s3 t = (if remaining_time_slice (threads (s2 t) t) = 0
      then set_preemption c True (upd_thread t (\<lambda>x. x\<lparr>remaining_time_slice := default_time_slice x\<rparr>) (s2 t))
      else s2 t)" for t
  have k2: "keeps s (s2 t)" for t unfolding s2_def by (rule keeps_upd_view2 [OF k1]) (auto simp: view_defs)
  have "keeps s (upd_thread t (\<lambda>x. x\<lparr>remaining_time_slice := default_time_slice x\<rparr>) (s2 t))" for t
    by (rule keeps_upd_view2 [OF k2]) (auto simp: view_defs)
  then have k3: "keeps s (s3 t)" for t using k2 by (simp add: s3_def keeps_set_preemption)
  have "scheduler_timer_tick c s = (if context_switching (cpus a ! c) then (False, a)
      else case current_thread c a of None \<Rightarrow> (preemption_pending (cpus s1 ! c), s1)
        | Some t \<Rightarrow> if t_state (threads s1 t) \<noteq> THREAD_STATE_RUNNING \<or> queued (threads s1 t) \<or>
            default_time_slice (threads s1 t) = 0 then (preemption_pending (cpus s1 ! c), s1)
          else (preemption_pending (cpus (s3 t) ! c), s3 t))"
    unfolding scheduler_timer_tick_def Let_def a_def [symmetric] s1_def [symmetric] s2_def [symmetric]
      s3_def [symmetric] ..
  then show ?thesis using ka k1 k3 by (simp split: option.split)
qed

lemma enqueue_keeps:
  assumes good: "sched_good s" and c: "c < length (cpus s)" and t: "t \<in> set (thread_blocks s)" "\<not> is_idle_thread s t"
  shows "keeps s (snd (scheduler_enqueue c s (Some t)))"
proof -
  obtain rq sl where ok: "sched_ok s rq sl" using good by (auto simp: sched_good_def)
  show ?thesis
  proof (cases "t_state (threads s t) = THREAD_STATE_READY \<and> running_cpu (threads s t) = THREAD_CPU_NONE \<and>
      \<not> queued (threads s t)")
    case True
    then have "free_thread s t"
      using free_of_state [OF ok, of t] sched_good_not_sleeping [OF good] t by simp
    note e = enqueue_ok [OF ok c t(1) this conjunct1 [OF True] conjunct1 [OF conjunct2 [OF True]] refl]
    have "quiet s (queue_append s t)" using True quiet_append by blast
    then have "keeps s (queue_append s t)"
      by (intro keepsI [OF e(2)]) (use True in \<open>auto simp: parked_def split: if_splits\<close>)
    then show ?thesis
      using e(1) True by (simp add: scheduler_enqueue_def scheduler_update_runnable_peak_def Let_def keeps_stats)
  next
    case False
    then show ?thesis
      using good by (auto simp: scheduler_enqueue_def scheduler_enqueue_locked_def Let_def keeps_refl)
  qed
qed

end
