(* ===== verification/Machine_Steps.thy ===== *)
theory Machine_Steps
  imports Scheduler_Machine
begin

section \<open>The machine's invariant is kept\<close>

text \<open>
  Every event of the machine keeps its invariant: dispatches, the publication of the outgoing frame
  and the completion of a switch, and the creation and reclamation of threads.
\<close>

subsection \<open>Letting go of a CPU\<close>

text \<open>
  The state in which a dispatch selects, compared with the state the operation started from: the
  outgoing thread has let go (or is marked ready), the CPU is switching, nothing else has changed.
\<close>

definition loosened :: "nat \<Rightarrow> addr \<Rightarrow> scheduler \<Rightarrow> scheduler \<Rightarrow> bool" where
  "loosened c out s s2 \<longleftrightarrow> sched_good s2 \<and> length (cpus s2) = length (cpus s) \<and>
     thread_blocks s2 = thread_blocks s \<and> bootstrap_thread s2 = bootstrap_thread s \<and>
     (\<forall>i<length (cpus s). i \<noteq> c \<longrightarrow> cpu_view (cpus s ! i) (cpus s2 ! i)) \<and>
     idle_thread c s2 = idle_thread c s \<and> context_switching (cpus s2 ! c) \<and>
     current_thread c s2 \<in> {None, Some out} \<and> (\<forall>t. t \<noteq> out \<longrightarrow> undisturbed s s2 t) \<and>
     saved_context_valid (threads s2 out) = saved_context_valid (threads s out) \<and>
     live s2 out = live s out \<and> \<not> parked s2 out \<and>
     context_switch_pending (threads s2 out) = context_switch_pending (threads s out) \<and>
     (running_cpu (threads s2 out) = THREAD_CPU_NONE \<or>
      (running_cpu (threads s2 out) = of_nat c \<and> t_state (threads s2 out) = THREAD_STATE_READY))"

text \<open>The frame of a thread: what its stack and its saved context are.\<close>

definition same_frame :: "kernel_thread \<Rightarrow> kernel_thread \<Rightarrow> bool" where
  "same_frame x y \<longleftrightarrow> saved_context_valid y = saved_context_valid x \<and>
     saved_stack_pointer y = saved_stack_pointer x \<and> saved_rflags y = saved_rflags x \<and>
     kernel_stack_base y = kernel_stack_base x \<and> kernel_stack_size y = kernel_stack_size x \<and>
     stack_external y = stack_external x \<and> context_switch_pending y = context_switch_pending x"

lemma same_frame_live: "same_frame (threads s t) (threads s' t) \<Longrightarrow> live s' t = live s t"
  by (auto simp: same_frame_def live_def frame_ok_def)

lemma loosenedI:
  assumes good: "sched_good s" and c: "c < length (cpus s)" and cur: "current_thread c s = Some out"
    and s2: "threads s2 = (threads s)(out := th)" "cpus s2 = (cpus s)[c := x]"
      "ready_queues s2 = ready_queues s" "sleeping_threads s2 = sleeping_threads s"
      "thread_blocks s2 = thread_blocks s" "bootstrap_thread s2 = bootstrap_thread s"
    and th: "links_kept (threads s out) th" "same_frame (threads s out) th"
      "base_priority th = base_priority (threads s out)"
      "effective_priority th = effective_priority (threads s out)"
      "wakeup_boosted th = wakeup_boosted (threads s out)"
    and x: "cpu_idle_thread x = idle_thread c s" "cpu_online x = cpu_online (cpus s ! c)" "context_switching x"
    and sit: "(cpu_current_thread x = Some out \<and> t_state th = THREAD_STATE_READY \<and>
         running_cpu th = running_cpu (threads s out)) \<or>
       (cpu_current_thread x = None \<and> running_cpu th = THREAD_CPU_NONE \<and> \<not> is_idle_thread s out \<and>
         (t_state th = THREAD_STATE_BLOCKED \<or> t_state th = THREAD_STATE_TERMINATED))"
  shows "loosened c out s s2"
proof -
  obtain rq sl where ok: "sched_ok s rq sl" using good by (auto simp: sched_good_def)
  note o = current_running_cpu [OF ok c cur]
  have "sched_ok (upd_cpu c (\<lambda>_. x) (upd_thread out (\<lambda>_. th) s)) rq sl"
  proof (rule sched_ok_current [OF ok c o(3,4,5)])
    show "thread_ok th"
      using sched_okD(3) [OF ok o(3)] th(3-5) sit o(2) by (auto simp: thread_ok_def thread_priority_state_valid_def)
    show "cpu_current_thread (cpus s ! i) \<noteq> Some out" if "i < length (cpus s)" "i \<noteq> c" for i
      using current_running_cpu(1) [OF ok that(1)] o(1) of_nat_cpu_inj [of i c] sched_okD(2) [OF ok] c that by auto
  qed (use th x sit o in \<open>auto split: option.split\<close>)
  then have "sched_ok s2 rq sl" by (rule iffD2 [OF sched_ok_cong, rotated -1]) (simp_all add: s2)
  then have g2: "sched_good s2" by (rule sched_goodI)
  have others: "undisturbed s s2 t" if "t \<noteq> out" for t
    using that by (simp add: undisturbed_def stack_view_def parked_def s2)
  have "live s2 out = live s out" by (rule same_frame_live) (simp add: s2 th(2))
  then show ?thesis
    unfolding loosened_def
    using g2 others th(2) x sit o(1,2) c by (auto simp: s2 parked_def same_frame_def)
qed

lemma loosenedD:
  assumes "loosened c out s s2"
  shows "sched_good s2" "length (cpus s2) = length (cpus s)" "thread_blocks s2 = thread_blocks s"
    "bootstrap_thread s2 = bootstrap_thread s" "i < length (cpus s) \<Longrightarrow> i \<noteq> c \<Longrightarrow> cpu_view (cpus s ! i) (cpus s2 ! i)"
    "idle_thread c s2 = idle_thread c s" "context_switching (cpus s2 ! c)"
    "current_thread c s2 = Some t \<Longrightarrow> t = out" "t \<noteq> out \<Longrightarrow> undisturbed s s2 t"
    "saved_context_valid (threads s2 out) = saved_context_valid (threads s out)"
    "live s2 out = live s out" "\<not> parked s2 out"
    "context_switch_pending (threads s2 out) = context_switch_pending (threads s out)"
    "running_cpu (threads s2 out) = THREAD_CPU_NONE \<or>
      (running_cpu (threads s2 out) = of_nat c \<and> t_state (threads s2 out) = THREAD_STATE_READY)"
  using assms unfolding loosened_def by auto

subsection \<open>What a dispatch finds\<close>

lemma machine_cpu_inj:
  assumes "machine_ok m" "i < length (cpus (sched m))" "j < length (cpus (sched m))"
  shows "(of_nat i :: u32) = of_nat j \<longleftrightarrow> i = j"
proof -
  obtain rq sl where "sched_ok (sched m) rq sl" using machine_okD(2) [OF assms(1)] by (auto simp: sched_good_def)
  then have "length (cpus (sched m)) < 2 ^ 32 - 1" by (rule sched_okD(2))
  with assms(2,3) show ?thesis by (intro of_nat_cpu_inj) simp_all
qed

lemma claimed_cases:
  assumes "t \<in> claims m i"
  obtains "current_thread i (sched m) = Some t" | rsp where "phase m i = Saving t rsp" | "phase m i = Leaving t"
  using assms by (cases "phase m i") (auto simp: claims_def)

text \<open>A thread with a saved context that no other CPU runs is ready to be resumed.\<close>

lemma target_unclaimed:
  assumes ok: "machine_ok m" and c: "c < length (cpus (sched m))" and ph: "phase m c = Executing"
    and t: "t \<in> set (thread_blocks (sched m))" "saved_context_valid (threads (sched m) t)"
      "running_cpu (threads (sched m) t) = THREAD_CPU_NONE \<or> running_cpu (threads (sched m) t) = of_nat c"
  shows "rested (sched m) t"
    and "\<not> context_switch_pending (threads (sched m) t) \<Longrightarrow> i < length (cpus (sched m)) \<Longrightarrow> t \<notin> claims m i"
proof -
  note D = machine_okD [OF ok]
  have *: "phase m i = Leaving t" if i: "i < length (cpus (sched m))" and cl: "t \<in> claims m i" for i
    using cl
  proof (cases rule: claimed_cases)
    case 1
    note cur = current_not_none [OF D(2) i 1]
    have "i = c" using t(3) cur machine_cpu_inj [OF ok i c] by auto
    then show ?thesis using D(4) [OF c] ph 1 t(2) by (auto simp: live_def)
  next
    case (2 rsp)
    then show ?thesis using D(4) [OF i] t(2) by (auto simp: live_def)
  qed
  show "rested (sched m) t"
  proof (cases "\<exists>i<length (cpus (sched m)). t \<in> claims m i")
    case True
    then obtain i where i: "i < length (cpus (sched m))" "phase m i = Leaving t" using * by blast
    then show ?thesis using D(4) [OF i(1)] by simp
  qed (use D(7) t(1) in blast)
  show "t \<notin> claims m i" if "\<not> context_switch_pending (threads (sched m) t)" "i < length (cpus (sched m))"
    using * [OF that(2)] D(4) [OF that(2)] that(1) by auto
qed

lemma parked_rested:
  assumes ok: "machine_ok m" and t: "t \<in> set (thread_blocks (sched m))" "parked (sched m) t"
  shows "rested (sched m) t"
proof (cases "\<exists>i<length (cpus (sched m)). t \<in> claims m i")
  case True
  then obtain i where i: "i < length (cpus (sched m))" "t \<in> claims m i" by blast
  show ?thesis
    using i(2) machine_okD(4) [OF ok i(1)] current_not_none [OF machine_okD(2) [OF ok] i(1)] t(2)
    by (cases rule: claimed_cases) (auto simp: parked_def)
qed (use machine_okD(7) [OF ok t(1)] in blast)

lemma idle_not_boot:
  assumes ok: "machine_ok m"
  shows "\<not> is_idle_thread (sched m) (bootstrap_thread (sched m))"
  using machine_okD(5) [OF ok] by (fastforce simp: is_idle_thread_def list_ex_length idle_pinned_def)

lemma is_idle_threadE:
  assumes "is_idle_thread s t"
  obtains i where "i < length (cpus s)" "idle_thread i s = Some t"
  using assms by (auto simp: is_idle_thread_def list_ex_length)

lemma loosened_idle:
  assumes loo: "loosened c out s s2" and c: "c < length (cpus s)"
  shows "is_idle_thread s2 t = is_idle_thread s t"
proof -
  have "idle_thread i s2 = idle_thread i s" if "i < length (cpus s)" for i
    using loosenedD(5) [OF loo that] loosenedD(6) [OF loo] by (cases "i = c") (auto simp: cpu_view_def)
  then show ?thesis using loosenedD(2) [OF loo] by (auto simp: is_idle_thread_def list_ex_length)
qed

lemma loosened_boot_ok:
  assumes ok: "machine_ok m" and c: "c < length (cpus (sched m))" and loo: "loosened c out (sched m) s2"
  shows "boot_ok s2"
proof -
  note L = loosenedD [OF loo]
  let ?b = "bootstrap_thread (sched m)"
  have "saved_context_valid (threads s2 ?b) \<and> frame_ok (threads s2 ?b)" if p: "parked s2 ?b"
  proof -
    have u: "undisturbed (sched m) s2 ?b" using L(9) L(12) p by metis
    then have "rested (sched m) ?b" using p parked_rested [OF ok machine_okD(3) [OF ok]] by (simp add: undisturbed_def)
    then show ?thesis using undisturbedD(1) [OF u] by (simp add: rested_def)
  qed
  then show ?thesis
    using machine_okD(3) [OF ok] loosened_idle [OF loo c, of ?b] idle_not_boot [OF ok] L(3,4)
    by (simp add: boot_ok_def Let_def)
qed

text \<open>While an ordinary thread lets go of a CPU, the CPU's idle thread is there to take it.\<close>

lemma idle_available:
  assumes ok: "machine_ok m" and c: "c < length (cpus (sched m))" and ph: "phase m c = Executing"
    and cur: "current_thread c (sched m) = Some out" "idle_thread c (sched m) \<noteq> Some out"
    and loo: "loosened c out (sched m) s2"
  shows "idle_selectable c s2"
proof -
  note D = machine_okD [OF ok] and L = loosenedD [OF loo]
  obtain t where t: "idle_thread c (sched m) = Some t" using D(5) [OF c] cur(1) by (auto simp: idle_pinned_def)
  then have "t \<notin> claims m i" if "i < length (cpus (sched m))" for i
    using D(5) [OF c] that cur ph by (cases "i = c") (auto simp: idle_pinned_def claims_def)
  moreover obtain rq sl where ok2: "sched_ok s2 rq sl" using L(1) by (auto simp: sched_good_def)
  have t2: "idle_thread c s2 = Some t" "c < length (cpus s2)" using L(2,6) t c by auto
  note it = idle_thread_ok [OF ok2 t2(2,1)]
  ultimately have r: "rested s2 t"
    using D(7) [of t] L(3) undisturbedD(1) [OF L(9) [of t]] t cur(2) by auto
  moreover have "t_state (threads s2 t) = THREAD_STATE_READY"
    using sched_okD(8) [OF ok2 t2(2)] t2(1) r by (auto simp: idle_ok_def rested_def)
  ultimately show ?thesis
    using it t2(1) by (auto simp: idle_selectable_def rested_def thread_context_ready_def thread_saved_stack_valid_iff)
qed

subsection \<open>Dispatches\<close>

text \<open>The state after a handoff.\<close>

definition handed :: "nat \<Rightarrow> addr \<Rightarrow> addr \<Rightarrow> scheduler \<Rightarrow> scheduler" where
  "handed c out t s3 = upd_stats (\<lambda>x. x\<lparr>context_switches := context_switches x + 1\<rparr>)
     (upd_thread out (\<lambda>x. x\<lparr>context_switch_pending := True\<rparr>) (make_running c t s3))"

lemma handed_sel:
  assumes "c < length (cpus s3)" "t \<noteq> out"
  shows "threads (handed c out t s3) = (threads s3)(
      t := (threads s3 t)\<lparr>t_state := THREAD_STATE_RUNNING, running_cpu := of_nat c\<rparr>,
      out := (threads s3 out)\<lparr>context_switch_pending := True\<rparr>)"
    "cpus (handed c out t s3) = (cpus s3)[c := (cpus s3 ! c)\<lparr>cpu_current_thread := Some t\<rparr>]"
    "thread_blocks (handed c out t s3) = thread_blocks s3"
    "bootstrap_thread (handed c out t s3) = bootstrap_thread s3"
  using assms by (auto simp: handed_def make_running_def)

lemma undisturbed_trans: "undisturbed s s1 t \<Longrightarrow> undisturbed s1 s2 t \<Longrightarrow> undisturbed s s2 t"
  unfolding undisturbed_def using stack_view_trans by blast

lemma quiet_undisturbed: "quiet s s' \<Longrightarrow> (parked s' t \<Longrightarrow> parked s t) \<Longrightarrow> undisturbed s s' t"
  by (auto simp: undisturbed_def quiet_def)

lemma handed_good:
  assumes good: "sched_good s3" and c: "c < length (cpus s3)" and t: "resumable c s3 t" "t \<noteq> out"
    and other: "\<And>i. i < length (cpus s3) \<Longrightarrow> i \<noteq> c \<Longrightarrow> current_thread i s3 \<noteq> Some t"
  shows "sched_good (handed c out t s3)"
proof -
  obtain rq sl where ok: "sched_ok s3 rq sl" using good by (auto simp: sched_good_def)
  have "sched_ok (make_running c t s3) rq sl"
    by (rule make_running_ok [OF ok c]) (use t other in \<open>auto simp: resumable_def\<close>)
  then have "sched_ok (upd_thread out (\<lambda>x. x\<lparr>context_switch_pending := True\<rparr>) (make_running c t s3)) rq sl"
    by (rule sched_ok_upd_view) (simp add: view_defs)
  then show ?thesis by (auto simp: handed_def sched_good_def)
qed

lemma handed_ok:
  assumes ok: "machine_ok m" and c: "c < length (cpus (sched m))" and ph: "phase m c = Executing"
    and cur: "current_thread c (sched m) = Some out" and t: "t \<noteq> out"
    and free: "\<And>i. i < length (cpus (sched m)) \<Longrightarrow> t \<notin> claims m i"
    and s3: "sched_good s3" "length (cpus s3) = length (cpus (sched m))"
      "thread_blocks s3 = thread_blocks (sched m)" "bootstrap_thread s3 = bootstrap_thread (sched m)"
      "\<And>i. i < length (cpus (sched m)) \<Longrightarrow> i \<noteq> c \<Longrightarrow> cpu_view (cpus (sched m) ! i) (cpus s3 ! i)"
      "idle_thread c s3 = idle_thread c (sched m)" "context_switching (cpus s3 ! c)"
      "\<And>u. u \<noteq> out \<Longrightarrow> u \<noteq> t \<Longrightarrow> undisturbed (sched m) s3 u"
    and o3: "live s3 out" "\<not> parked s3 out" "running_cpu (threads s3 out) = THREAD_CPU_NONE \<or>
        (running_cpu (threads s3 out) = of_nat c \<and> t_state (threads s3 out) = THREAD_STATE_READY)"
    and t3: "target_ok c s3 t" "\<not> context_switch_pending (threads s3 t)"
      "\<not> context_switch_pending (threads (sched m) t)"
  shows "machine_ok (after c m (Switch out t, handed c out t s3))"
proof -
  note D = machine_okD [OF ok]
  let ?h = "handed c out t s3"
  let ?m = "after c m (Switch out t, ?h)"
  have c3: "c < length (cpus s3)" using c s3(2) by simp
  note H = handed_sel [OF c3 t]
  have m': "sched ?m = ?h" "phase ?m = (phase m)(c := Saving out (saved_stack_pointer (threads s3 t)))"
    "owed ?m = owed m" "panicked ?m = panicked m"
    using t by (auto simp: after_def H)
  have cl: "claims ?m c = {t, out}" "claims m c = {out}"
    using cur ph c3 by (auto simp: claims_def m' H)
  have un: "undisturbed (sched m) ?h u" if "u \<noteq> out" "u \<noteq> t" for u
    using s3(8) [OF that] that by (simp add: undisturbed_def parked_def H)
  have np: "\<not> context_switch_pending (threads (sched m) out)" using D(4) [OF c] ph cur by auto
  have "sched_good ?h"
    by (rule handed_good [OF s3(1) c3 _ t]) (use t3 free s3(2,5) in \<open>auto simp: target_ok_def claims_def cpu_view_def\<close>)
  moreover have "phase_ok ?h c (Saving out (saved_stack_pointer (threads s3 t)))"
    using t3 o3 s3(3,7) claims_blocks [OF ok c, of out] cl(2) t c3
    by (auto simp: H target_ok_def frame_ok_def live_def parked_def)
  moreover have "owed_ok ?m"
    unfolding owed_ok_def m'
  proof (intro conjI allI impI)
    fix u x assume x: "x \<in> set (owed m u)"
    note o = D(8) [unfolded owed_ok_def, THEN conjunct1, rule_format, OF x]
    have ne: "x \<noteq> out" "x \<noteq> t" using o np t3(3) by auto
    show "x \<in> set (thread_blocks ?h)" using o by (simp add: H s3(3))
    show "context_switch_pending (threads ?h x)" using o undisturbedD(3) [OF un [OF ne]] by simp
    show "x \<notin> departing (((phase m)(c := Saving out (saved_stack_pointer (threads s3 t)))) i)"
      if "i < length (cpus ?h)" for i
      using o ne that by (simp add: H s3(2))
    show "v = u" if "x \<in> set (owed m v)" for v using o that by blast
  qed (use D(8) in \<open>simp add: owed_ok_def\<close>)
  moreover have "idle_thread j (sched m) \<noteq> Some t" if j: "j < length (cpus (sched m))" "j \<noteq> c" for j
  proof
    assume i: "idle_thread j (sched m) = Some t"
    then have "is_idle_thread s3 t"
      using s3(2) s3(5) [OF j] j by (auto simp: is_idle_thread_def list_ex_length cpu_view_def)
    then have "idle_thread c (sched m) = Some t" using t3(1) s3(6) by (auto simp: target_ok_def resumable_def)
    then show False using D(5) [OF c] i j by (auto simp: idle_pinned_def)
  qed
  ultimately show ?thesis
    by (intro machine_ok_step [OF ok c])
      (use D(1,3) D(5) [OF c] cur cl un free s3 H(3,4) claims_blocks [OF ok] c3
        in \<open>auto simp: m' H(2) idle_pinned_def\<close>)
qed

lemma quiet_live: "quiet s s' \<Longrightarrow> live s' t = live s t"
  by (simp add: quiet_def stack_view_def live_def frame_ok_def)

lemma handoff_ok:
  assumes ok: "machine_ok m" and c: "c < length (cpus (sched m))" and ph: "phase m c = Executing"
    and cur: "current_thread c (sched m) = Some out" and loo: "loosened c out (sched m) s2"
    and ch: "choose_target c act out (scheduler_select_next_locked c s2) = (Some t, s3)" and t: "t \<noteq> out"
  shows "thread_context_ready c s3 t"
    and "scheduler_handoff c out t (make_running c t s3) = (Switch out t, handed c out t s3)"
    and "\<not> context_switch_pending (threads (sched m) t) \<Longrightarrow>
      machine_ok (after c m (Switch out t, handed c out t s3))"
proof -
  note D = machine_okD [OF ok] and L = loosenedD [OF loo]
  let ?s = "sched m"
  have c2: "c < length (cpus s2)" using c L(2) by simp
  have lo: "live ?s out" "\<not> saved_context_valid (threads s2 out)" "\<not> context_switch_pending (threads ?s out)"
    using D(4) [OF c] ph cur L(10) by (auto simp: live_def)
  note T = dispatch_target [OF L(1) c2 loosened_boot_ok [OF ok c loo] _ ch]
  have curr: "u = out \<and> \<not> saved_context_valid (threads s2 u)" if "current_thread c s2 = Some u" for u
    using L(8) [OF that] lo by simp
  have q: "quiet s2 s3" and g3: "sched_good s3" and tok: "target_ok c s3 t"
    using T(1,2,4) curr t by blast+
  have und: "undisturbed ?s s3 u" if "u \<noteq> out" "u \<noteq> t" for u
    using L(9) [OF that(1)] quiet_undisturbed [OF q, of u] T(3) [OF curr] that undisturbed_trans by blast
  have st: "stack_view (threads ?s t) (threads s3 t)"
    using L(9) [OF t] q stack_view_trans by (auto simp: undisturbed_def quiet_def)
  have tr: "t \<in> set (thread_blocks ?s)" "saved_context_valid (threads ?s t)"
      "running_cpu (threads ?s t) = THREAD_CPU_NONE \<or> running_cpu (threads ?s t) = of_nat c"
    using tok st quietD(2) [OF q] L(3) by (auto simp: target_ok_def resumable_def stack_view_def)
  note U = target_unclaimed [OF ok c ph tr]
  have fr: "saved_context_valid (threads s3 t)" "frame_ok (threads s3 t)" "safe_flags (saved_rflags (threads s3 t))"
    using U(1) st tok by (auto simp: rested_def stack_view_def target_ok_def)
  show ready: "thread_context_ready c s3 t"
    using fr by (simp add: thread_context_ready_def thread_saved_stack_valid_iff)
  have "scheduler_validate_saved_context c (make_running c t s3) t"
    using fr(3) by (simp add: scheduler_validate_saved_context_def make_running_def Let_def safe_flags_def)
  then show "scheduler_handoff c out t (make_running c t s3) = (Switch out t, handed c out t s3)"
    by (simp add: scheduler_handoff_def handed_def)
  assume np: "\<not> context_switch_pending (threads ?s t)"
  show "machine_ok (after c m (Switch out t, handed c out t s3))"
  proof (rule handed_ok [OF ok c ph cur t U(2) [OF np] g3 _ _ _ _ _ _ und _ _ _ tok _ np])
    show "cpu_view (cpus ?s ! i) (cpus s3 ! i)" if "i < length (cpus ?s)" "i \<noteq> c" for i
      using L(5) [OF that] q L(2) that cpu_view_trans by (fastforce simp: quiet_def)
    show "live s3 out" using lo(1) L(11) quiet_live [OF q] by simp
    show "\<not> parked s3 out" using T(3) [OF curr] L(12) t by blast
    show "\<not> context_switch_pending (threads s3 t)" using st np by (simp add: stack_view_def)
    show "running_cpu (threads s3 out) = THREAD_CPU_NONE \<or>
        (running_cpu (threads s3 out) = of_nat c \<and> t_state (threads s3 out) = THREAD_STATE_READY)"
      using L(14) quietD(5,6) [OF q, of out] by auto
  qed (use quietD [OF q] L c2 in auto)
qed

text \<open>A thread that keeps its CPU is back where it was.\<close>

lemma resumed_keeps:
  assumes good: "sched_good s1" and c: "c < length (cpus s1)" and cur: "current_thread c s1 = Some out"
    and run: "t_state (threads s1 out) = THREAD_STATE_RUNNING" "\<not> context_switching (cpus s1 ! c)"
    and s3: "quiet (mid c SCHEDULER_DISPATCH_REQUEUE out s1) s3" "sched_good s3"
      "\<And>a. parked s3 a \<Longrightarrow> parked (mid c SCHEDULER_DISPATCH_REQUEUE out s1) a \<or> a = out"
    and s': "threads s' = (threads s3)(out := (threads s3 out)\<lparr>t_state := THREAD_STATE_RUNNING,
        running_cpu := of_nat c\<rparr>)"
      "cpus s' = (cpus s3)[c := (cpus s3 ! c)\<lparr>cpu_current_thread := Some out, context_switching := False\<rparr>]"
      "ready_queues s' = ready_queues s3" "sleeping_threads s' = sleeping_threads s3"
      "thread_blocks s' = thread_blocks s3" "bootstrap_thread s' = bootstrap_thread s3"
  shows "keeps s1 s'"
proof -
  let ?s2 = "mid c SCHEDULER_DISPATCH_REQUEUE out s1"
  have m: "threads ?s2 = (threads s1)(out := (threads s1 out)\<lparr>t_state := THREAD_STATE_READY\<rparr>)"
    "cpus ?s2 = (cpus s1)[c := (cpus s1 ! c)\<lparr>context_switching := True\<rparr>]"
    "thread_blocks ?s2 = thread_blocks s1" "bootstrap_thread ?s2 = bootstrap_thread s1"
    by (simp_all add: mid_def)
  note Q = quietD [OF s3(1)]
  note o = current_not_none [OF good c cur]
  have len: "length (cpus s3) = length (cpus s1)" using Q(1) by (simp add: m)
  then have c3: "c < length (cpus s3)" using c by simp
  obtain rq sl where ok3: "sched_ok s3 rq sl" using s3(2) by (auto simp: sched_good_def)
  have o3: "out \<in> set (thread_blocks s3)" "running_cpu (threads s3 out) = of_nat c"
    "t_state (threads s3 out) = THREAD_STATE_READY" "\<not> queued (threads s3 out)" "\<not> sleeping (threads s3 out)"
    using Q(2) Q(5) [of out] Q(6,7) [of out] o m sched_good_not_sleeping [OF s3(2), of out] by auto
  have other: "current_thread i s3 \<noteq> Some out" if "i < length (cpus s3)" "i \<noteq> c" for i
    using current_running_cpu(1) [OF ok3 that(1)] o3(2) of_nat_cpu_inj [of i c] sched_okD(2) [OF ok3] c3 that by auto
  have "sched_ok (upd_cpu c (\<lambda>x. x\<lparr>cpu_current_thread := Some out, context_switching := False\<rparr>)
      (upd_thread out (\<lambda>x. x\<lparr>t_state := THREAD_STATE_RUNNING, running_cpu := of_nat c\<rparr>) s3)) rq sl"
    by (rule sched_ok_current [OF ok3 c3 o3(1,4,5)])
      (use other o3 o sched_okD(3) [OF ok3 o3(1)]
        in \<open>auto simp: links_kept_def thread_ok_def thread_priority_state_valid_def\<close>)
  then have "sched_ok s' rq sl" by (rule iffD2 [OF sched_ok_cong, rotated -1]) (simp_all add: s')
  moreover have "quiet s1 s'"
    unfolding quiet_def
  proof (intro conjI allI impI)
    fix i assume i: "i < length (cpus s1)"
    then have "cpu_view (cpus ?s2 ! i) (cpus s3 ! i)" using s3(1) by (simp add: quiet_def m)
    then show "cpu_view (cpus s1 ! i) (cpus s' ! i)"
      using cur run(2) i c len by (cases "i = c") (auto simp: s' m cpu_view_def)
  next
    fix t
    have "stack_view (threads ?s2 t) (threads s3 t)" using s3(1) by (simp add: quiet_def)
    then show "stack_view (threads s1 t) (threads s' t)"
      using run o by (cases "t = out") (auto simp: s' m stack_view_def)
  qed (use Q(2,3) len in \<open>auto simp: s' m\<close>)
  moreover have "parked s1 a" if "parked s' a" for a
  proof -
    have "a \<noteq> out" using that by (auto simp: parked_def s')
    then have "parked ?s2 a" using s3(3) [of a] that by (auto simp: parked_def s')
    then show ?thesis using \<open>a \<noteq> out\<close> by (simp add: parked_def m)
  qed
  ultimately show ?thesis by (rule keepsI)
qed

lemma handed_target:
  assumes "scheduler_prepare_dispatch_locked c s act = (Handoff a t, s')"
  shows "t \<noteq> a"
  using assms
  by (auto simp: scheduler_prepare_dispatch_locked_def Let_def split: option.splits if_splits prod.splits)

text \<open>
  The whole dispatch. It never panics; it is refused only when the idle thread itself finds nothing
  else to run; keeping the CPU changes nothing; and a handoff leads to a good machine when the
  incoming thread's own switch is complete.
\<close>

lemma dispatch_ok:
  assumes ok: "machine_ok m" and c: "c < length (cpus (sched m))" and ph: "phase m c = Executing"
    and cur: "current_thread c (sched m) = Some out"
    and s1: "current_thread c s1 = Some out" "t_state (threads s1 out) = dispatch_state act"
      "\<not> queued (threads s1 out)" "same_frame (threads (sched m) out) (threads s1 out)"
    and loo: "loosened c out (sched m) (mid c act out s1)"
    and req: "act = SCHEDULER_DISPATCH_REQUEUE \<Longrightarrow> keeps (sched m) s1"
    and idle: "act \<noteq> SCHEDULER_DISPATCH_REQUEUE \<Longrightarrow> idle_thread c (sched m) \<noteq> Some out"
    and r: "scheduler_prepare_dispatch_locked c s1 act = (d, s')"
  shows "d \<noteq> Panicked"
    and "d = Refused \<or> d = Stay \<Longrightarrow> act = SCHEDULER_DISPATCH_REQUEUE \<and> keeps (sched m) s'"
    and "d = Refused \<Longrightarrow> idle_thread c (sched m) = Some out"
    and "d = Handoff a t \<Longrightarrow> a = out \<and> (\<exists>s5. scheduler_handoff c out t s' = (Switch out t, s5) \<and>
      current_thread c s5 = Some t \<and>
      (\<not> context_switch_pending (threads (sched m) t) \<longrightarrow> machine_ok (after c m (Switch out t, s5))))"
proof -
  let ?s = "sched m" and ?s2 = "mid c act out s1"
  note D = machine_okD [OF ok] and L = loosenedD [OF loo]
  have lo: "live ?s out" using D(4) [OF c] ph cur by auto
  have "live s1 out" using lo same_frame_live [OF s1(4)] by simp
  then have stv: "thread_saved_stack_valid c s1 out"
    using s1(1) by (auto simp: live_def thread_saved_stack_valid_iff)
  obtain tg s3 where ch: "choose_target c act out (scheduler_select_next_locked c ?s2) = (tg, s3)" by fastforce
  note pd = prepare_dispatch_mid [OF s1(1,2,3) stv ch, unfolded r]
  have c2: "c < length (cpus ?s2)" using c L(2) by simp
  note T = dispatch_target [OF L(1) c2 loosened_boot_ok [OF ok c loo] _ ch]
  have curr: "u = out \<and> \<not> saved_context_valid (threads ?s2 u)" if "current_thread c ?s2 = Some u" for u
    using L(8) [OF that] L(10) lo by (simp add: live_def)
  have none: "idle_thread c ?s = Some out" if "tg = None"
    using T(5) [OF curr that] idle_available [OF ok c ph cur _ loo] by blast
  have self: "act = SCHEDULER_DISPATCH_REQUEUE" if "tg = Some out"
    using T(6) [OF curr that] L(10) lo T(2) [OF curr] quietD(4) by (auto simp: target_ok_def live_def)
  show "d \<noteq> Panicked"
    using pd handoff_ok(1) [OF ok c ph cur loo] ch by (auto split: option.splits if_splits)
  show "d = Refused \<Longrightarrow> idle_thread c ?s = Some out"
    using pd none by (auto split: option.splits if_splits)
  show "d = Refused \<or> d = Stay \<Longrightarrow> act = SCHEDULER_DISPATCH_REQUEUE \<and> keeps ?s s'"
  proof -
    assume "d = Refused \<or> d = Stay"
    then have tg: "tg = None \<or> tg = Some out" using pd by (auto split: option.splits if_splits)
    then have act: "act = SCHEDULER_DISPATCH_REQUEUE" using self none idle by blast
    note k = req [OF act]
    have c1: "c < length (cpus s1)" using keepsD(4) [OF k] c by simp
    have sw: "\<not> context_switching (cpus s1 ! c)" using D(4) [OF c] ph quietD(10) [OF keepsD(2) [OF k] c] by simp
    have q3: "quiet (mid c SCHEDULER_DISPATCH_REQUEUE out s1) s3" using T(2) [OF curr] act by simp
    have rc: "running_cpu (threads s3 out) = of_nat c"
      using quietD(5) [OF q3, of out] current_not_none [OF keepsD(1) [OF k] c1 s1(1)] by (simp add: mid_def)
    have len: "length (cpus s3) = length (cpus s1)" using quietD(1) [OF q3] by (simp add: mid_def)
    have pk: "parked s3 a \<Longrightarrow> parked (mid c SCHEDULER_DISPATCH_REQUEUE out s1) a \<or> a = out" for a
      using T(3) [OF curr, of a] tg act by auto
    have "keeps s1 s'"
      by (rule resumed_keeps [OF keepsD(1) [OF k] c1 s1(1) _ sw q3 T(1) [OF curr] pk])
        (use s1(2) act tg pd len c1 rc in \<open>auto simp: dispatch_state_def make_running_def\<close>)
    then show ?thesis using act keeps_trans [OF k] by simp
  qed
  show "d = Handoff a t \<Longrightarrow> a = out \<and> (\<exists>s5. scheduler_handoff c out t s' = (Switch out t, s5) \<and>
      current_thread c s5 = Some t \<and>
      (\<not> context_switch_pending (threads ?s t) \<longrightarrow> machine_ok (after c m (Switch out t, s5))))"
    using pd handoff_ok(2,3) [OF ok c ph cur loo] ch T(2) [OF curr] c2 handed_sel
    by (fastforce split: option.splits if_splits simp: quiet_def)
qed

subsection \<open>The operations that dispatch\<close>

text \<open>What an operation that may switch leads to.\<close>

definition good_outcome :: "nat \<Rightarrow> machine \<Rightarrow> outcome \<times> scheduler \<Rightarrow> bool" where
  "good_outcome c m r \<longleftrightarrow> (case r of
       (Panic, s) \<Rightarrow> False
     | (Returned b, s) \<Rightarrow> keeps (sched m) s
     | (Switch out t, s) \<Rightarrow> current_thread c (sched m) = Some out \<and> t \<noteq> out \<and> current_thread c s = Some t \<and>
         (\<not> context_switch_pending (threads (sched m) t) \<longrightarrow> machine_ok (after c m (Switch out t, s))))"

lemma good_outcome_ok:
  assumes ok: "machine_ok m" and c: "c < length (cpus (sched m))" and g: "good_outcome c m r"
    and p: "patient m (after c m r)"
  shows "machine_ok (after c m r)"
proof -
  obtain x s where r: "r = (x, s)" by fastforce
  show ?thesis
  proof (cases x)
    case (Returned b)
    then show ?thesis using machine_ok_keeps [OF ok c] g by (simp add: r after_def good_outcome_def)
  next
    case (Switch out t)
    then have g': "current_thread c (sched m) = Some out" "t \<noteq> out" "current_thread c s = Some t"
      "\<not> context_switch_pending (threads (sched m) t) \<Longrightarrow> machine_ok (after c m r)"
      using g by (auto simp: r good_outcome_def)
    have "sched (after c m r) = s" by (simp add: r Switch after_def)
    then have "\<not> context_switch_pending (threads (sched m) t)"
      using p c g'(1-3) by (auto simp: patient_def)
    then show ?thesis by (rule g'(4))
  next
    case Panic
    then show ?thesis using g by (simp add: r good_outcome_def)
  qed
qed

lemma finish_ok:
  assumes ok: "machine_ok m" and c: "c < length (cpus (sched m))" and ph: "phase m c = Executing"
    and cur: "current_thread c (sched m) = Some out"
    and s1: "current_thread c s1 = Some out" "t_state (threads s1 out) = dispatch_state act"
      "\<not> queued (threads s1 out)" "same_frame (threads (sched m) out) (threads s1 out)"
    and loo: "loosened c out (sched m) (mid c act out s1)"
    and req: "act = SCHEDULER_DISPATCH_REQUEUE \<Longrightarrow> keeps (sched m) s1 \<and> undo = (\<lambda>s. s)"
    and idle: "act \<noteq> SCHEDULER_DISPATCH_REQUEUE \<Longrightarrow> idle_thread c (sched m) \<noteq> Some out"
  shows "good_outcome c m (finish_dispatch c undo (scheduler_prepare_dispatch_locked c s1 act))"
    and "act \<noteq> SCHEDULER_DISPATCH_REQUEUE \<Longrightarrow>
      \<exists>t s'. finish_dispatch c undo (scheduler_prepare_dispatch_locked c s1 act) = (Switch out t, s')"
proof -
  obtain d s' where r: "scheduler_prepare_dispatch_locked c s1 act = (d, s')" by fastforce
  note X = dispatch_ok [OF ok c ph cur s1 loo conjunct1 [OF req] idle r]
  have "good_outcome c m (finish_dispatch c undo (d, s'))"
  proof (cases d)
    case (Handoff a t)
    then show ?thesis using X(4) [of a t] handed_target [OF r [unfolded Handoff]] cur
      by (auto simp: finish_dispatch_def good_outcome_def)
  qed (use X(1,2) req in \<open>auto simp: finish_dispatch_def good_outcome_def\<close>)
  then show "good_outcome c m (finish_dispatch c undo (scheduler_prepare_dispatch_locked c s1 act))"
    unfolding r .
  show "\<exists>t s'. finish_dispatch c undo (scheduler_prepare_dispatch_locked c s1 act) = (Switch out t, s')"
    if "act \<noteq> SCHEDULER_DISPATCH_REQUEUE"
    using X(1,2,4) that by (cases d) (fastforce simp: r finish_dispatch_def)+
qed

lemma loosened_keeps:
  assumes k: "keeps s s1" and c: "c < length (cpus s)" and cur: "current_thread c s = Some out" and good: "sched_good s"
    and loo: "loosened c out s1 s2"
  shows "loosened c out s s2"
proof -
  note K = quietD [OF keepsD(2) [OF k]] and L = loosenedD [OF loo]
  have "cpu_view (cpus s ! i) (cpus s2 ! i)" if "i < length (cpus s)" "i \<noteq> c" for i
    using keepsD(2) [OF k] L(5) K(1) that cpu_view_trans by (fastforce simp: quiet_def)
  moreover have "undisturbed s s2 t" if "t \<noteq> out" for t
    using undisturbed_trans [OF keeps_undisturbed [OF k] L(9) [OF that]] .
  moreover have "live s1 out = live s out" by (rule quiet_live [OF keepsD(2) [OF k]])
  moreover have "context_switch_pending (threads s1 out) = context_switch_pending (threads s out)"
    by (rule undisturbedD(3) [OF keeps_undisturbed [OF k]])
  ultimately show ?thesis
    using L K(1-4) K(9) [OF c] loo unfolding loosened_def by simp
qed

lemma executing_running:
  assumes ok: "machine_ok m" and c: "c < length (cpus (sched m))" and ph: "phase m c = Executing"
    and cur: "current_thread c (sched m) = Some out"
  shows "t_state (threads (sched m) out) = THREAD_STATE_RUNNING" "\<not> context_switching (cpus (sched m) ! c)"
    "is_idle_thread (sched m) out \<Longrightarrow> idle_thread c (sched m) = Some out"
proof -
  note D = machine_okD [OF ok]
  show sw: "\<not> context_switching (cpus (sched m) ! c)" using D(4) [OF c] ph by simp
  obtain rq sl where "sched_ok (sched m) rq sl" using D(2) by (auto simp: sched_good_def)
  from sched_okD(7) [OF this c] show "t_state (threads (sched m) out) = THREAD_STATE_RUNNING"
    using cur sw by (simp add: current_ok_def)
  assume "is_idle_thread (sched m) out"
  then obtain i where "i < length (cpus (sched m))" "idle_thread i (sched m) = Some out" by (rule is_idle_threadE)
  then show "idle_thread c (sched m) = Some out"
    using D(5) [of i] c cur by (cases "i = c") (auto simp: idle_pinned_def claims_def)
qed

lemma mid_requeue_loosened:
  assumes good: "sched_good s" and c: "c < length (cpus s)" and cur: "current_thread c s = Some out"
  shows "loosened c out s (mid c SCHEDULER_DISPATCH_REQUEUE out s)"
  by (rule loosenedI [OF good c cur, where th = "(threads s out)\<lparr>t_state := THREAD_STATE_READY\<rparr>"
        and x = "(cpus s ! c)\<lparr>context_switching := True\<rparr>"])
    (use cur in \<open>auto simp: mid_def links_kept_def same_frame_def\<close>)

lemma same_frame_keeps: "keeps s s1 \<Longrightarrow> same_frame (threads s t) (threads s1 t)"
  using keepsD(2) [of s s1] by (simp add: quiet_def stack_view_def same_frame_def)

lemma reschedule_ok:
  assumes ok: "machine_ok m" and c: "c < length (cpus (sched m))" and ph: "phase m c = Executing"
    and cur: "current_thread c (sched m) = Some out" and k: "keeps (sched m) s1"
  shows "good_outcome c m (scheduler_reschedule c s1)"
proof -
  note D = machine_okD [OF ok] and K = quietD [OF keepsD(2) [OF k]]
  note E = executing_running [OF ok c ph cur] and o = current_not_none [OF D(2) c cur]
  have cur1: "current_thread c s1 = Some out" using K(8) [OF c] cur by simp
  have "loosened c out (sched m) (mid c SCHEDULER_DISPATCH_REQUEUE out s1)"
    by (rule loosened_keeps [OF k c cur D(2)])
      (use mid_requeue_loosened [OF keepsD(1) [OF k] _ cur1] c K(1) in simp)
  then show ?thesis
    unfolding scheduler_reschedule_def
    by (intro finish_ok(1) [OF ok c ph cur cur1])
      (use E(1) o K(6,7) [of out] k same_frame_keeps [OF k] in \<open>auto simp: dispatch_state_def\<close>)
qed

lemma yield_ok:
  assumes "machine_ok m" "c < length (cpus (sched m))" "phase m c = Executing" "current_thread c (sched m) = Some out"
  shows "good_outcome c m (scheduler_yield c (sched m))"
  unfolding scheduler_yield_def
  by (rule reschedule_ok [OF assms keeps_stats [OF keeps_refl [OF machine_okD(2) [OF assms(1)]]]])

text \<open>
  Blocking and terminating: the thread gives up its CPU and the dispatch always finds another one.
\<close>

lemma leave_ok:
  assumes ok: "machine_ok m" and c: "c < length (cpus (sched m))" and ph: "phase m c = Executing"
    and cur: "current_thread c (sched m) = Some out" and ni: "idle_thread c (sched m) \<noteq> Some out"
    and act: "act \<noteq> SCHEDULER_DISPATCH_REQUEUE"
    and s1: "threads s1 = (threads (sched m))(out := (threads (sched m) out)\<lparr>t_state := dispatch_state act\<rparr>)"
      "cpus s1 = cpus (sched m)" "ready_queues s1 = ready_queues (sched m)"
      "sleeping_threads s1 = sleeping_threads (sched m)" "thread_blocks s1 = thread_blocks (sched m)"
      "bootstrap_thread s1 = bootstrap_thread (sched m)"
  shows "good_outcome c m (finish_dispatch c undo (scheduler_prepare_dispatch_locked c s1 act))"
    and "\<exists>t s'. finish_dispatch c undo (scheduler_prepare_dispatch_locked c s1 act) = (Switch out t, s')"
proof -
  note D = machine_okD [OF ok] and E = executing_running [OF ok c ph cur] and o = current_not_none [OF machine_okD(2) [OF ok] c cur]
  have loo: "loosened c out (sched m) (mid c act out s1)"
    by (rule loosenedI [OF D(2) c cur,
          where th = "(threads (sched m) out)\<lparr>t_state := dispatch_state act, running_cpu := THREAD_CPU_NONE\<rparr>"
            and x = "(cpus (sched m) ! c)\<lparr>context_switching := True, cpu_current_thread := None\<rparr>"])
      (use c act E(3) ni in \<open>auto simp: mid_def s1 Let_def links_kept_def same_frame_def dispatch_state_def
          split: scheduler_dispatch_action.splits\<close>)
  have *: "current_thread c s1 = Some out" "t_state (threads s1 out) = dispatch_state act" "\<not> queued (threads s1 out)"
    "same_frame (threads (sched m) out) (threads s1 out)"
    using cur o by (auto simp: s1 same_frame_def)
  show "good_outcome c m (finish_dispatch c undo (scheduler_prepare_dispatch_locked c s1 act))"
    and "\<exists>t s'. finish_dispatch c undo (scheduler_prepare_dispatch_locked c s1 act) = (Switch out t, s')"
    using finish_ok [OF ok c ph cur * loo] act ni by blast+
qed

lemma block_ok:
  assumes ok: "machine_ok m" and c: "c < length (cpus (sched m))" and ph: "phase m c = Executing"
    and cur: "current_thread c (sched m) = Some out"
  shows "good_outcome c m (scheduler_block c (sched m))"
    and "idle_thread c (sched m) \<noteq> Some out \<Longrightarrow> \<not> mutex_wake_pending (threads (sched m) out) \<Longrightarrow>
      \<exists>t s'. scheduler_block c (sched m) = (Switch out t, s')"
proof -
  note good = machine_okD(2) [OF ok] and E = executing_running [OF ok c ph cur]
  note o = current_not_none [OF good c cur]
  let ?s1 = "upd_stats (\<lambda>x. x\<lparr>stat_blocks := stat_blocks x + 1, stat_blocked := stat_blocked x + 1\<rparr>)
      (upd_thread out (\<lambda>x. x\<lparr>t_state := THREAD_STATE_BLOCKED\<rparr>) (sched m))"
  let ?undo = "\<lambda>s. upd_stats (\<lambda>x. x\<lparr>stat_blocks := stat_blocks x - 1, stat_blocked := stat_blocked x - 1\<rparr>)
      (restore_current c out s)"
  note lv = leave_ok [OF ok c ph cur _ _, of SCHEDULER_DISPATCH_BLOCK ?s1 ?undo, simplified dispatch_state_def, simplified]
  have wake: "keeps (sched m) (upd_thread out (\<lambda>x. x\<lparr>mutex_wake_pending := False\<rparr>) (sched m))"
    by (rule keeps_upd_view [OF good]) (auto simp: view_defs)
  show "good_outcome c m (scheduler_block c (sched m))"
    using lv(1) wake o E(1) keeps_refl [OF good] by (auto simp: scheduler_block_def cur good_outcome_def)
  show "\<exists>t s'. scheduler_block c (sched m) = (Switch out t, s')"
    if "idle_thread c (sched m) \<noteq> Some out" "\<not> mutex_wake_pending (threads (sched m) out)"
    using lv(2) that o E(1) by (simp add: scheduler_block_def cur eq_commute)
qed

lemma terminate_ok:
  assumes ok: "machine_ok m" and c: "c < length (cpus (sched m))" and ph: "phase m c = Executing"
    and cur: "current_thread c (sched m) = Some out"
  shows "good_outcome c m (scheduler_terminate c (sched m))"
    and "idle_thread c (sched m) \<noteq> Some out \<Longrightarrow> \<exists>t s'. scheduler_terminate c (sched m) = (Switch out t, s')"
proof -
  note good = machine_okD(2) [OF ok] and E = executing_running [OF ok c ph cur]
  note o = current_not_none [OF good c cur]
  note lv = leave_ok [OF ok c ph cur _ _, of SCHEDULER_DISPATCH_TERMINATE
      "upd_thread out (\<lambda>x. x\<lparr>t_state := THREAD_STATE_TERMINATED\<rparr>) (sched m)" "restore_current c out",
      simplified dispatch_state_def, simplified]
  show "good_outcome c m (scheduler_terminate c (sched m))"
    using lv(1) o E(1) keeps_refl [OF good] by (auto simp: scheduler_terminate_def cur good_outcome_def)
  show "\<exists>t s'. scheduler_terminate c (sched m) = (Switch out t, s')" if "idle_thread c (sched m) \<noteq> Some out"
    using lv(2) that o E(1) by (simp add: scheduler_terminate_def cur eq_commute)
qed

lemma loosened_push:
  assumes loo: "loosened c out s s2" and st: "t_state (threads s2 out) = THREAD_STATE_BLOCKED"
      "running_cpu (threads s2 out) = THREAD_CPU_NONE" "\<not> queued (threads s2 out)" "\<not> sleeping (threads s2 out)"
      "out \<in> set (thread_blocks s2)"
    and s3: "threads s3 = threads (sleeping_push s2 out)" "cpus s3 = cpus s2" "ready_queues s3 = ready_queues s2"
      "sleeping_threads s3 = Some out" "thread_blocks s3 = thread_blocks s2" "bootstrap_thread s3 = bootstrap_thread s2"
  shows "loosened c out s s3"
proof -
  obtain rq sl where ok: "sched_ok s2 rq sl" using loosenedD(1) [OF loo] by (auto simp: sched_good_def)
  have "sched_ok (sleeping_push s2 out) rq (out # sl)"
    by (rule sleeping_push_ok [OF ok]) (use st in \<open>auto simp: sleeper_ok_def\<close>)
  then have "sched_ok s3 rq (out # sl)" by (rule iffD2 [OF sched_ok_cong, rotated -1]) (simp_all add: s3)
  then have g: "sched_good s3" by (rule sched_goodI)
  have "stack_view (threads s2 t) (threads s3 t)" "parked s3 t = parked s2 t" "live s3 t = live s2 t" for t
    by (simp_all add: s3(1) stack_view_def parked_def live_def frame_ok_def)
  then show ?thesis
    using loo g undisturbed_trans [of s s2 _ s3] unfolding loosened_def by (simp add: s3 undisturbed_def)
qed

lemma sleep_ok:
  assumes ok: "machine_ok m" and c: "c < length (cpus (sched m))" and ph: "phase m c = Executing"
    and cur: "current_thread c (sched m) = Some out"
  shows "good_outcome c m (scheduler_sleep c (sched m) ticks)"
    and "idle_thread c (sched m) \<noteq> Some out \<Longrightarrow> ticks \<noteq> 0 \<Longrightarrow>
      \<exists>t s'. scheduler_sleep c (sched m) ticks = (Switch out t, s')"
proof -
  note good = machine_okD(2) [OF ok] and E = executing_running [OF ok c ph cur]
  note o = current_not_none [OF good c cur]
  define wake where "wake = (if scheduler_tick_count (sched m) > NOT 0 - ticks then NOT 0
      else scheduler_tick_count (sched m) + ticks)"
  let ?th = "(threads (sched m) out)\<lparr>wakeup_tick := wake, t_state := THREAD_STATE_BLOCKED, running_cpu := THREAD_CPU_NONE\<rparr>"
  let ?x = "(cpus (sched m) ! c)\<lparr>context_switching := True, cpu_current_thread := None\<rparr>"
  let ?s1 = "upd_stats (\<lambda>x. x\<lparr>stat_sleeping := stat_sleeping x + 1, stat_blocks := stat_blocks x + 1,
        stat_blocked := stat_blocked x + 1\<rparr>) (upd_thread out (\<lambda>x. x\<lparr>t_state := THREAD_STATE_BLOCKED\<rparr>)
      (sleeping_push (upd_thread out (\<lambda>x. x\<lparr>wakeup_tick := wake\<rparr>) (sched m)) out))"
  let ?s2 = "upd_cpu c (\<lambda>_. ?x) (upd_thread out (\<lambda>_. ?th) (sched m))"
  let ?undo = "\<lambda>s. upd_stats (\<lambda>x. x\<lparr>stat_blocks := stat_blocks x - 1, stat_blocked := stat_blocked x - 1\<rparr>)
      (upd_cpu c (\<lambda>x. x\<lparr>cpu_current_thread := Some out\<rparr>) (upd_thread out (\<lambda>x. x\<lparr>t_state := THREAD_STATE_RUNNING\<rparr>)
        (uncount_sleeping (sleeping_remove s out))))"
  have fin: "good_outcome c m (finish_dispatch c ?undo (scheduler_prepare_dispatch_locked c ?s1 SCHEDULER_DISPATCH_BLOCK))"
    "\<exists>t s'. finish_dispatch c ?undo (scheduler_prepare_dispatch_locked c ?s1 SCHEDULER_DISPATCH_BLOCK) = (Switch out t, s')"
    if ni: "idle_thread c (sched m) \<noteq> Some out"
  proof -
    have "loosened c out (sched m) ?s2"
      by (rule loosenedI [OF good c cur, where th = ?th and x = ?x])
        (use c E(3) ni in \<open>auto simp: links_kept_def same_frame_def\<close>)
    then have loo: "loosened c out (sched m) (mid c SCHEDULER_DISPATCH_BLOCK out ?s1)"
    proof (rule loosened_push)
      show "threads (mid c SCHEDULER_DISPATCH_BLOCK out ?s1) = threads (sleeping_push ?s2 out)"
        by (rule ext) (simp add: mid_def sleeping_push_def)
    qed (use o c in \<open>simp_all add: mid_def\<close>)
    have *: "current_thread c ?s1 = Some out" "t_state (threads ?s1 out) = dispatch_state SCHEDULER_DISPATCH_BLOCK"
      "\<not> queued (threads ?s1 out)" "same_frame (threads (sched m) out) (threads ?s1 out)"
      using cur o by (simp_all add: dispatch_state_def same_frame_def)
    show "good_outcome c m (finish_dispatch c ?undo (scheduler_prepare_dispatch_locked c ?s1 SCHEDULER_DISPATCH_BLOCK))"
      "\<exists>t s'. finish_dispatch c ?undo (scheduler_prepare_dispatch_locked c ?s1 SCHEDULER_DISPATCH_BLOCK) = (Switch out t, s')"
      using finish_ok [OF ok c ph cur * loo, of ?undo] ni by simp_all
  qed
  have eq: "scheduler_sleep c (sched m) ticks = (if ticks = 0 then (Returned True, sched m)
      else if idle_thread c (sched m) = Some out then (Returned False, sched m)
      else finish_dispatch c ?undo (scheduler_prepare_dispatch_locked c ?s1 SCHEDULER_DISPATCH_BLOCK))"
    unfolding scheduler_sleep_def cur Let_def wake_def [symmetric] using o E(1)
    by (cases "idle_thread c (sched m) = Some out") simp_all
  show "good_outcome c m (scheduler_sleep c (sched m) ticks)"
    unfolding eq using fin(1) keeps_refl [OF good] by (auto simp: good_outcome_def)
  show "\<exists>t s'. scheduler_sleep c (sched m) ticks = (Switch out t, s')"
    if "idle_thread c (sched m) \<noteq> Some out" "ticks \<noteq> 0"
    unfolding eq using fin(2) that by simp
qed

lemma preempt_ok:
  assumes ok: "machine_ok m" and c: "c < length (cpus (sched m))" and ph: "phase m c = Executing"
    and cur: "current_thread c (sched m) = Some out"
    and r: "scheduler_prepare_preemption c (sched m) from_user rip flags = (p, s')"
  shows "case p of Resched x \<Rightarrow> good_outcome c m (x, s') | _ \<Rightarrow> keeps (sched m) s'"
proof -
  note good = machine_okD(2) [OF ok]
  let ?s1 = "upd_cpu c (\<lambda>x. x\<lparr>preemption_pending := False\<rparr>) (sched m)"
  let ?s2 = "upd_stats (\<lambda>x. x\<lparr>timer_preemptions := timer_preemptions x + 1\<rparr>) ?s1"
  have k1: "keeps (sched m) ?s1" by (rule keeps_upd_cpu [OF keeps_refl [OF good]]) (simp add: cpu_view_def)
  then have k2: "keeps (sched m) ?s2" by (rule keeps_stats)
  have k3: "keeps (sched m) (upd_thread out (\<lambda>x. x\<lparr>preempt_return_rip := rip, preempt_return_rflags := flags\<rparr>) ?s2)"
    by (rule keeps_upd_view2 [OF k2]) (auto simp: view_defs)
  obtain x s3 where re: "scheduler_reschedule c ?s2 = (x, s3)" by fastforce
  have "good_outcome c m (x, s3)" using reschedule_ok [OF ok c ph cur k2] re by simp
  then show ?thesis
    using r k1 k3 keeps_refl [OF good] re
    by (auto simp: scheduler_prepare_preemption_def cur Let_def split: if_splits)
qed

lemma trampoline_ok:
  assumes ok: "machine_ok m" and c: "c < length (cpus (sched m))" and ph: "phase m c = Executing"
    and cur: "current_thread c (sched m) = Some out"
    and r: "scheduler_preempt_from_trampoline c (sched m) = (x, rip, s')"
  shows "good_outcome c m (x, s')"
proof -
  note good = machine_okD(2) [OF ok]
  obtain y s1 where re: "scheduler_reschedule c (sched m) = (y, s1)" by fastforce
  have "good_outcome c m (y, s1)" using reschedule_ok [OF ok c ph cur keeps_refl [OF good]] re by simp
  then show ?thesis
    using r re keeps_refl [OF good]
    by (auto simp: scheduler_preempt_from_trampoline_def cur good_outcome_def split: if_splits)
qed

end
