(* ===== verification/Machine_Run.thy ===== *)
theory Machine_Run
  imports Machine_Steps
begin

section \<open>Switches, threads and CPUs come and go\<close>

text \<open>
  The publication and completion of a switch, the creation and destruction of threads, the start of
  CPUs, and the invariant of all runs.
\<close>

text \<open>Facts about owed completions.\<close>

lemma owed_okD:
  assumes "owed_ok m" "x \<in> set (owed m t)"
  shows "x \<in> set (thread_blocks (sched m))" "context_switch_pending (threads (sched m) x)"
    "i < length (cpus (sched m)) \<Longrightarrow> x \<notin> departing (phase m i)" "x \<in> set (owed m u) \<Longrightarrow> u = t"
  using assms unfolding owed_ok_def by blast+

lemma owed_okI:
  assumes "\<And>t x. x \<in> set (owed m t) \<Longrightarrow> x \<in> set (thread_blocks (sched m)) \<and> context_switch_pending (threads (sched m) x)"
    and "\<And>t x i. x \<in> set (owed m t) \<Longrightarrow> i < length (cpus (sched m)) \<Longrightarrow> x \<notin> departing (phase m i)"
    and "\<And>t x u. x \<in> set (owed m t) \<Longrightarrow> x \<in> set (owed m u) \<Longrightarrow> u = t" and "\<And>t. distinct (owed m t)"
  shows "owed_ok m"
  unfolding owed_ok_def using assms by blast

lemma owed_ok_distinct: "owed_ok m \<Longrightarrow> distinct (owed m t)"
  by (simp add: owed_ok_def)

subsection \<open>Publishing the outgoing frame\<close>

text \<open>Taking a CPU away from a thread that no CPU has as its current one.\<close>

lemma sched_ok_release:
  assumes ok: "sched_ok s rq sl" and cur: "\<And>i. i < length (cpus s) \<Longrightarrow> current_thread i s \<noteq> Some t"
    and t: "running_cpu (threads s t) = THREAD_CPU_NONE \<or> t_state (threads s t) = THREAD_STATE_READY"
  shows "sched_ok (upd_thread t (\<lambda>x. x\<lparr>running_cpu := THREAD_CPU_NONE\<rparr>) s) rq sl"
proof (cases "running_cpu (threads s t) = THREAD_CPU_NONE")
  case True
  show ?thesis by (rule sched_ok_upd_view [OF ok]) (use True in \<open>simp add: view_defs\<close>)
next
  case False
  let ?s = "upd_thread t (\<lambda>x. x\<lparr>running_cpu := THREAD_CPU_NONE\<rparr>) s"
  have st: "t_state (threads s t) = THREAD_STATE_READY" using t False by simp
  have nq: "\<not> queued (threads s t)" "\<not> sleeping (threads s t)"
    using sched_okD(4,6) [OF ok, of t] False by (auto simp: queued_ok_def sleeper_ok_def)
  show ?thesis
  proof (rule sched_okI)
    show "lists_wf ?s rq sl"
      by (rule lists_wf_upd_thread [OF sched_okD(1) [OF ok]]) (simp_all add: links_kept_def)
    show "length (cpus ?s) < 2 ^ 32 - 1" using sched_okD(2) [OF ok] by simp
    show "thread_ok (threads ?s a)" if "a \<in> set (thread_blocks ?s)" for a
      using that sched_okD(3) [OF ok, of a] by (auto simp: thread_ok_def thread_priority_state_valid_def)
    show "queued_ok ?s a \<and> a \<in> set (thread_blocks ?s)" if "queued (threads ?s a)" for a
      using that nq sched_okD(4,5) [OF ok, of a] by (auto simp: queued_ok_def split: if_splits)
    show "sleeper_ok ?s a" if "sleeping (threads ?s a)" for a
      using that nq sched_okD(6) [OF ok, of a] by (auto simp: sleeper_ok_def split: if_splits)
    fix i assume "i < length (cpus ?s)"
    then have i: "i < length (cpus s)" by simp
    show "current_ok ?s i"
      using sched_okD(7) [OF ok i] cur [OF i] by (auto simp: current_ok_def Let_def split: option.splits)
    show "idle_ok ?s i"
      using sched_okD(8) [OF ok i] st by (auto simp: idle_ok_def Let_def split: option.splits)
  qed
qed

text \<open>The frame saved, the thread enqueued when it is to run again.\<close>

definition frame_saved :: "addr \<Rightarrow> u64 \<Rightarrow> u64 \<Rightarrow> scheduler \<Rightarrow> scheduler" where
  "frame_saved out rsp flags s = upd_thread out (\<lambda>x. x\<lparr>running_cpu := THREAD_CPU_NONE\<rparr>)
     (upd_thread out (\<lambda>x. x\<lparr>saved_stack_pointer := rsp, saved_rflags := flags, saved_context_valid := True\<rparr>) s)"

lemma publish_ok:
  assumes ok: "sched_ok s rq sl" and c: "c < length (cpus s)" and out: "out \<in> set (thread_blocks s)"
    and cur: "\<forall>i<length (cpus s). current_thread i s \<noteq> Some out"
    and st: "running_cpu (threads s out) = THREAD_CPU_NONE \<or> t_state (threads s out) = THREAD_STATE_READY"
    and idle: "is_idle_thread s out \<longrightarrow> idle_thread c s = Some out"
    and pub: "(if t_state (threads s out) = THREAD_STATE_READY \<and> \<not> queued (threads s out) \<and>
        out \<noteq> bootstrap_thread s \<and> Some out \<noteq> idle_thread c s
      then scheduler_enqueue_locked c (frame_saved out rsp flags s) out else (True, frame_saved out rsp flags s)) = (b, s2)"
  shows "b" "sched_good s2" "cpus s2 = cpus s" "thread_blocks s2 = thread_blocks s"
    "bootstrap_thread s2 = bootstrap_thread s" "a \<noteq> out \<Longrightarrow> undisturbed s s2 a"
    "running_cpu (threads s2 out) = THREAD_CPU_NONE \<and> saved_context_valid (threads s2 out) \<and>
     saved_stack_pointer (threads s2 out) = rsp \<and> saved_rflags (threads s2 out) = flags \<and>
     kernel_stack_base (threads s2 out) = kernel_stack_base (threads s out) \<and>
     kernel_stack_size (threads s2 out) = kernel_stack_size (threads s out) \<and>
     context_switch_pending (threads s2 out) = context_switch_pending (threads s out)"
    "a \<noteq> out \<Longrightarrow> t_state (threads s2 a) = t_state (threads s a)"
proof -
  let ?f = "frame_saved out rsp flags s"
  have "sched_ok (upd_thread out (\<lambda>x. x\<lparr>saved_stack_pointer := rsp, saved_rflags := flags,
      saved_context_valid := True\<rparr>) s) rq sl"
    by (rule sched_ok_upd_view [OF ok]) (simp add: view_defs)
  then have okf: "sched_ok ?f rq sl"
    unfolding frame_saved_def by (rule sched_ok_release) (use cur st in auto)
  have ff: "cpus ?f = cpus s" "thread_blocks ?f = thread_blocks s" "bootstrap_thread ?f = bootstrap_thread s"
    "a \<noteq> out \<Longrightarrow> threads ?f a = threads s a" for a
    by (simp_all add: frame_saved_def)
  let ?P = "t_state (threads s out) = THREAD_STATE_READY \<and> \<not> queued (threads s out) \<and>
        out \<noteq> bootstrap_thread s \<and> Some out \<noteq> idle_thread c s"
  have enq: "scheduler_enqueue_locked c ?f out = (True, scheduler_update_runnable_peak c (queue_append ?f out)) \<and>
      sched_good (queue_append ?f out)" if P: ?P
  proof -
    have so: "t_state (threads ?f out) = THREAD_STATE_READY" "running_cpu (threads ?f out) = THREAD_CPU_NONE"
      "\<not> queued (threads ?f out)" "out \<in> set (thread_blocks ?f)"
      using P out by (simp_all add: frame_saved_def)
    have "\<not> is_idle_thread ?f out" using idle P ff(1) by (auto simp: is_idle_thread_def)
    then have "free_thread ?f out"
      using free_of_state [OF okf so(3)] so sched_good_not_sleeping [OF sched_goodI [OF okf]] by simp
    moreover have "c < length (cpus ?f)" using c ff(1) by simp
    ultimately show ?thesis
      using enqueue_ok(1) [OF okf _ so(4) _ so(1,2) refl] sched_goodI [OF enqueue_ok(2) [OF okf _ so(4) _ so(1,2) refl]]
      by blast
  qed
  have s2: "b \<and> (s2 = ?f \<or> (?P \<and> s2 = scheduler_update_runnable_peak c (queue_append ?f out)))"
    using pub enq by (auto split: if_splits)
  then show b by simp
  show "sched_good s2" using s2 enq sched_goodI [OF okf] by (auto simp: sched_good_def)
  show "cpus s2 = cpus s" "thread_blocks s2 = thread_blocks s" "bootstrap_thread s2 = bootstrap_thread s"
    using s2 ff by auto
  show "undisturbed s s2 a" if "a \<noteq> out"
    using s2 ff(4) [OF that] that by (auto simp: undisturbed_def stack_view_def parked_def)
  show "t_state (threads s2 a) = t_state (threads s a)" if "a \<noteq> out"
    using s2 ff(4) [OF that] by auto
  show "running_cpu (threads s2 out) = THREAD_CPU_NONE \<and> saved_context_valid (threads s2 out) \<and>
     saved_stack_pointer (threads s2 out) = rsp \<and> saved_rflags (threads s2 out) = flags \<and>
     kernel_stack_base (threads s2 out) = kernel_stack_base (threads s out) \<and>
     kernel_stack_size (threads s2 out) = kernel_stack_size (threads s out) \<and>
     context_switch_pending (threads s2 out) = context_switch_pending (threads s out)"
    using s2 by (auto simp: frame_saved_def)
qed

lemma consume_ok:
  assumes good: "sched_good s" and c: "c < length (cpus s)" and cur: "current_thread c s = Some t"
    and run: "t_state (threads s t) = THREAD_STATE_RUNNING"
  shows "sched_good (upd_cpu c (\<lambda>x. x\<lparr>context_switching := False\<rparr>) (upd_thread t (\<lambda>x. x\<lparr>saved_context_valid := False\<rparr>) s))"
proof -
  obtain rq sl where ok: "sched_ok s rq sl" using good by (auto simp: sched_good_def)
  note o = current_running_cpu [OF ok c cur]
  have other: "current_thread i s \<noteq> Some t" if "i < length (cpus s)" "i \<noteq> c" for i
    using current_running_cpu(1) [OF ok that(1)] o(1) of_nat_cpu_inj [of i c] sched_okD(2) [OF ok] c that by auto
  have idle: "t_state (threads s t) = THREAD_STATE_RUNNING \<and> running_cpu (threads s t) \<noteq> THREAD_CPU_NONE"
    using run o by simp
  show ?thesis
    by (rule sched_goodI, rule sched_ok_current [OF ok c o(3-5)])
      (use other cur run o sched_okD(3) [OF ok o(3)] idle
        in \<open>auto simp: links_kept_def thread_ok_def thread_priority_state_valid_def\<close>)
qed

text \<open>
  The publication never fails: no panic, and the machine is good, with the outgoing thread pinned by
  its pending switch while the CPU still leaves its stack.
\<close>

lemma saved_ok:
  assumes ok: "machine_ok m" and c: "c < length (cpus (sched m))" and ph: "phase m c = Saving out inc"
    and frame: "frame_ok ((threads (sched m) out)\<lparr>saved_stack_pointer := rsp\<rparr>)" "safe_flags flags"
  shows "machine_ok (exec (Saved c rsp flags) m)"
proof -
  note D = machine_okD [OF ok]
  let ?s = "sched m"
  from D(4) [OF c] ph obtain t where t: "current_thread c ?s = Some t" "t \<noteq> out"
      "t_state (threads ?s t) = THREAD_STATE_RUNNING" "frame_ok (threads ?s t)"
      "saved_stack_pointer (threads ?s t) = inc" "\<not> context_switch_pending (threads ?s t)"
    and o: "out \<in> set (thread_blocks ?s)" "context_switch_pending (threads ?s out)"
      "running_cpu (threads ?s out) = THREAD_CPU_NONE \<or> t_state (threads ?s out) = THREAD_STATE_READY"
    by auto
  obtain rq sl where sok: "sched_ok ?s rq sl" using D(2) by (auto simp: sched_good_def)
  have cl: "claims m c = {t, out}" using t(1) ph by (auto simp: claims_def)
  have cur: "current_thread i ?s \<noteq> Some out" if "i < length (cpus ?s)" for i
    using D(6) [OF c that, of out] t ph by (cases "i = c") (auto simp: claims_def)
  have idle: "idle_thread c ?s = Some out" if "is_idle_thread ?s out"
    using that
  proof (rule is_idle_threadE)
    fix i assume "i < length (cpus ?s)" "idle_thread i ?s = Some out"
    then show ?thesis using D(5) [of i] c cl by (cases "i = c") (auto simp: idle_pinned_def)
  qed
  obtain b s2 where pub: "(if t_state (threads ?s out) = THREAD_STATE_READY \<and> \<not> queued (threads ?s out) \<and>
        out \<noteq> bootstrap_thread ?s \<and> Some out \<noteq> idle_thread c ?s
      then scheduler_enqueue_locked c (frame_saved out rsp flags ?s) out else (True, frame_saved out rsp flags ?s)) = (b, s2)"
    by fastforce
  have co: "\<forall>i<length (cpus ?s). current_thread i ?s \<noteq> Some out" "is_idle_thread ?s out \<longrightarrow> idle_thread c ?s = Some out"
    using cur idle by auto
  note P = publish_ok [OF sok c o(1) co(1) o(3) co(2) pub]
  define s3 where "s3 = upd_cpu c (\<lambda>x. x\<lparr>context_switching := False\<rparr>)
      (upd_thread t (\<lambda>x. x\<lparr>saved_context_valid := False\<rparr>) s2)"
  have t2: "current_thread c s2 = Some t" "t_state (threads s2 t) = THREAD_STATE_RUNNING"
    "saved_stack_pointer (threads s2 t) = inc" "frame_ok (threads s2 t)" "\<not> context_switch_pending (threads s2 t)"
    using P(3) P(6) [OF t(2)] P(8) [OF t(2)] t by (auto simp: undisturbed_def stack_view_def frame_ok_def)
  have "scheduler_context_switch_saved c out rsp flags inc ?s = (case (b, s2) of (False, _) \<Rightarrow> None
      | (True, s2) \<Rightarrow> Some (upd_cpu c (\<lambda>x. x\<lparr>context_switching := False\<rparr>) (case current_thread c s2 of None \<Rightarrow> s2
          | Some t \<Rightarrow> if saved_stack_pointer (threads s2 t) = inc
              then upd_thread t (\<lambda>x. x\<lparr>saved_context_valid := False\<rparr>) s2 else s2)))"
    unfolding pub [symmetric] scheduler_context_switch_saved_def Let_def frame_saved_def by simp
  then have "scheduler_context_switch_saved c out rsp flags inc ?s = Some s3"
    using P(1) t2(1,3) by (simp add: s3_def)
  then have ex: "exec (Saved c rsp flags) m = m\<lparr>sched := s3, phase := (phase m)(c := Leaving out)\<rparr>"
    using ph by simp
  have c2: "c < length (cpus s2)" using c P(3) by simp
  have cl': "claims (exec (Saved c rsp flags) m) c = {t, out}"
    unfolding ex using t2(1) c2 by (auto simp: claims_def s3_def)
  have un: "undisturbed ?s s3 u" if "u \<noteq> t" "u \<noteq> out" for u
    using P(6) [OF that(2)] that by (simp add: s3_def undisturbed_def parked_def)
  have pend: "context_switch_pending (threads s3 u) = context_switch_pending (threads ?s u)" for u
    using undisturbedD(3) [OF P(6)] P(7) by (cases "u = out") (auto simp: s3_def)
  have g3: "sched_good s3" unfolding s3_def by (rule consume_ok [OF P(2) c2 t2(1,2)])
  have o3: "rested s3 out"
    using P(7) frame t(2) by (simp add: s3_def rested_def frame_ok_def)
  have "current_thread c s3 = Some t" "live s3 t" "\<not> context_switching (cpus s3 ! c)" "thread_blocks s3 = thread_blocks ?s"
    using t2 c2 P(4) by (simp_all add: s3_def live_def frame_ok_def)
  then have p3: "phase_ok s3 c (Leaving out)" using t(2,6) o(1,2) o3 pend by auto
  have dep: "departing (((phase m)(c := Leaving out)) i) = departing (phase m i)" for i
    using ph by simp
  have same: "thread_blocks s3 = thread_blocks ?s" "length (cpus s3) = length (cpus ?s)"
    using P(3,4) by (simp_all add: s3_def)
  have ow: "owed_ok (m\<lparr>sched := s3, phase := (phase m)(c := Leaving out)\<rparr>)"
    by (rule owed_okI) (use owed_okD [OF D(8)] owed_ok_distinct [OF D(8)] pend dep same in auto)
  show ?thesis
    unfolding ex
    by (rule machine_ok_step [OF ok c])
      (use D(1,3) D(5) [OF c] g3 p3 cl cl' [unfolded ex] un ow P(3-5) c2 t(1) claims_blocks [OF ok]
        in \<open>auto simp: s3_def idle_pinned_def cpu_view_def\<close>)
qed

subsection \<open>Leaving the outgoing stack and completing the switch\<close>

lemma left_ok:
  assumes ok: "machine_ok m" and c: "c < length (cpus (sched m))" and ph: "phase m c = Leaving out"
  shows "machine_ok (exec (Left c) m)"
proof -
  note D = machine_okD [OF ok] and O = owed_okD [OF machine_okD(8) [OF ok]]
  from D(4) [OF c] ph obtain t where t: "current_thread c (sched m) = Some t" "t \<noteq> out" "live (sched m) t"
      "\<not> context_switch_pending (threads (sched m) t)"
    and o: "out \<in> set (thread_blocks (sched m))" "rested (sched m) out" "context_switch_pending (threads (sched m) out)"
      "\<not> context_switching (cpus (sched m) ! c)"
    by auto
  have ex: "exec (Left c) m = m\<lparr>phase := (phase m)(c := Executing), owed := (owed m)(t := out # owed m t)\<rparr>"
    using ph t by simp
  have cl: "claims m c = {t, out}" "claims (exec (Left c) m) c = {t}"
    unfolding ex using t(1) ph by (auto simp: claims_def)
  have new: "out \<notin> set (owed m u)" for u using O(3) [OF _ c, of out u] ph by auto
  have "out \<notin> departing (phase m i)" if "i < length (cpus (sched m))" "i \<noteq> c" for i
    using D(6) [OF c that(1) that(2) [symmetric], of out] cl(1) by (auto simp: claims_def)
  then have ow: "owed_ok (exec (Left c) m)"
    using D(8) O new o unfolding owed_ok_def ex by (auto split: if_splits)
  show ?thesis
    unfolding ex
    by (rule machine_ok_step [OF ok c])
      (use D(1,2,3) D(5) [OF c] ow [unfolded ex] cl [unfolded ex] t o claims_blocks [OF ok]
        in \<open>auto simp: idle_pinned_def undisturbed_def stack_view_def\<close>)
qed

lemma complete_ok:
  assumes ok: "machine_ok m" and c: "c < length (cpus (sched m))" and ph: "phase m c = Executing"
    and cur: "current_thread c (sched m) = Some t" and ne: "owed m t = out # rest"
  shows "machine_ok (exec (Complete c) m)"
proof -
  note D = machine_okD [OF ok] and O = owed_okD [OF machine_okD(8) [OF ok]]
  let ?s = "scheduler_context_switch_complete out (sched m)"
  have out: "out \<in> set (owed m t)" using ne by simp
  have ex: "exec (Complete c) m = m\<lparr>sched := ?s, owed := (owed m)(t := rest)\<rparr>" using cur ne by simp
  have s: "threads ?s = (threads (sched m))(out := (threads (sched m) out)\<lparr>context_switch_pending := False\<rparr>)"
    "cpus ?s = cpus (sched m)" "thread_blocks ?s = thread_blocks (sched m)"
    "bootstrap_thread ?s = bootstrap_thread (sched m)"
    by (simp_all add: scheduler_context_switch_complete_def)
  have cl: "claims (exec (Complete c) m) i = claims m i" for i unfolding ex by (simp add: claims_def s)
  have away: "out \<notin> claims m i" if i: "i < length (cpus (sched m))" for i
    using D(4) [OF i] O(2) [OF out] O(3) [OF out i] by (cases "phase m i") (auto simp: claims_def)
  have g: "sched_good ?s"
  proof -
    obtain rq sl where "sched_ok (sched m) rq sl" using D(2) by (auto simp: sched_good_def)
    then have "sched_ok ?s rq sl"
      unfolding scheduler_context_switch_complete_def by (rule sched_ok_upd_view) (simp add: view_defs)
    then show ?thesis by (rule sched_goodI)
  qed
  have un: "undisturbed (sched m) ?s u" if "i < length (cpus (sched m))" "u \<in> claims m i" for i u
    using that away [of i] by (cases "u = out") (auto simp: undisturbed_def stack_view_def parked_def s)
  have di: "out \<notin> set rest" "distinct rest" using D(8) ne unfolding owed_ok_def by (metis distinct.simps(2))+
  define o' where "o' = (owed m)(t := rest)"
  have o': "x \<noteq> out \<and> x \<in> set (owed m u)" if "x \<in> set (o' u)" for x u
    using that di ne O(4) [OF out, of u] by (auto simp: o'_def split: if_splits)
  have "distinct (o' u)" for u using di owed_ok_distinct [OF D(8)] by (simp add: o'_def)
  then have ow: "owed_ok (m\<lparr>sched := ?s, owed := o'\<rparr>)"
    by (intro owed_okI) (auto simp: s dest!: o' intro: O(1,2,4) dest: O(3))
  have "phase_ok ?s c (phase m c)"
    using D(4) [OF c] ph cur away [OF c] by (auto simp: s live_def claims_def)
  then show ?thesis
    unfolding ex o'_def [symmetric]
    by (intro machine_ok_change [OF ok c])
      (use D(1,3) D(5) [OF c] g ow cl [unfolded ex o'_def [symmetric]] un away claims_blocks [OF ok] cur
        in \<open>auto simp: s idle_pinned_def rested_def frame_ok_def\<close>)
qed

subsection \<open>New threads\<close>

lemma prepared_frame:
  fixes base sz :: u64
  assumes "fresh_stack base sz" "\<not> (base + sz) AND NOT 0x0F < base + 72"
    and "kernel_stack_base th = base" "kernel_stack_size th = sz"
    and "saved_stack_pointer th = ((base + sz) AND NOT 0x0F) - 72"
  shows "frame_ok th"
proof -
  define top where "top = (base + sz) AND NOT 0x0F"
  have le: "top \<le> base + sz" by (simp add: top_def word_and_le2)
  have a: "base \<noteq> 0" "128 \<le> sz" "base < base + sz" "base + 72 \<le> top"
    using assms(1,2) by (auto simp: fresh_stack_def top_def not_less)
  from a le have "base \<le> top - 72" "top - 72 \<le> base + sz - 64" "top - 72 \<noteq> 0" "64 \<le> base + sz - base" "sz \<noteq> 0"
    by unat_arith+
  then show ?thesis using a assms(3-5) by (simp add: frame_ok_def top_def)
qed

text \<open>A thread control block that is new to the scheduler.\<close>

definition new_block :: "scheduler \<Rightarrow> addr \<Rightarrow> kernel_thread \<Rightarrow> scheduler \<Rightarrow> bool" where
  "new_block s b th s' \<longleftrightarrow> threads s' = (threads s)(b := th) \<and> thread_blocks s' = b # thread_blocks s \<and>
     ready_queues s' = ready_queues s \<and> sleeping_threads s' = sleeping_threads s \<and>
     bootstrap_thread s' = bootstrap_thread s \<and> b \<notin> set (thread_blocks s) \<and>
     \<not> queued th \<and> \<not> sleeping th \<and> t_state th = THREAD_STATE_READY \<and> thread_priority_state_valid th \<and>
     running_cpu th = THREAD_CPU_NONE \<and> saved_context_valid th \<and> frame_ok th \<and>
     safe_flags (saved_rflags th) \<and> \<not> context_switch_pending th"

lemma new_block_lists:
  assumes nb: "new_block s b th s'" and ok: "sched_ok s rq sl"
  shows "lists_wf s' rq sl"
proof -
  have out: "b \<notin> set sl" "\<not> queued (threads s b)"
    using nb lists_wfD(8) [OF sched_okD(1) [OF ok]] sched_okD(5) [OF ok, of b] by (auto simp: new_block_def)
  have q: "b \<notin> set (rq p)" if "p < 3" for p using lists_wfD(4) [OF sched_okD(1) [OF ok]] out(2) that by blast
  note W = lists_wfD [OF sched_okD(1) [OF ok]]
  show ?thesis
  proof (rule lists_wfI)
    show "ready_repr s' p (rq p)" if "p < 3" for p
      by (rule ready_repr_eq [OF W(2) [OF that]]) (use q [OF that] nb in \<open>auto simp: new_block_def\<close>)
    show "path (nxt s') (sleeping_threads s') sl"
    proof -
      have "nxt s' a = nxt s a" if "a \<in> set sl" for a using that out(1) nb by (auto simp: new_block_def)
      then show ?thesis using W(3) path_cong [of sl "nxt s'" "nxt s"] nb by (simp add: new_block_def)
    qed
    show "queued (threads s' t) \<longleftrightarrow> (\<exists>p<3. t \<in> set (rq p))" for t
      using W(4) [of t] out q nb by (auto simp: new_block_def)
    show "effective_priority (threads s' t) = p" if "p < 3" "t \<in> set (rq p)" for p t
      using W(5) [OF that] q [OF that(1)] that nb by (auto simp: new_block_def)
    show "sleeping (threads s' t) \<longleftrightarrow> t \<in> set sl" for t using W(6) [of t] out nb by (auto simp: new_block_def)
    show "t \<notin> set sl" if "p < 3" "t \<in> set (rq p)" for p t
      by (rule lists_wf_apart [OF sched_okD(1) [OF ok] that])
  qed (use W(1,8) nb in \<open>auto simp: new_block_def\<close>)
qed

lemma new_block_ok:
  assumes nb: "new_block s b th s'" and ok: "sched_ok s rq sl" and cpu: "cpus s' = cpus s"
  shows "sched_ok s' rq sl"
proof (rule sched_okI [OF new_block_lists [OF nb ok]])
  show "length (cpus s') < 2 ^ 32 - 1" using sched_okD(2) [OF ok] cpu by simp
  show "thread_ok (threads s' t)" if "t \<in> set (thread_blocks s')" for t
    using that nb sched_okD(3) [OF ok, of t] by (auto simp: new_block_def thread_ok_def)
  show "queued_ok s' t \<and> t \<in> set (thread_blocks s')" if "queued (threads s' t)" for t
    using that nb sched_okD(4,5) [OF ok, of t] by (auto simp: new_block_def queued_ok_def split: if_splits)
  show "sleeper_ok s' t" if "sleeping (threads s' t)" for t
    using that nb sched_okD(6) [OF ok, of t] by (auto simp: new_block_def sleeper_ok_def split: if_splits)
  fix i assume "i < length (cpus s')"
  then have i: "i < length (cpus s)" using cpu by simp
  show "current_ok s' i"
    using sched_okD(7) [OF ok i] nb cpu by (auto simp: new_block_def current_ok_def Let_def split: option.splits)
  show "idle_ok s' i"
    using sched_okD(8) [OF ok i] nb cpu by (auto simp: new_block_def idle_ok_def Let_def split: option.splits)
qed

lemma machine_ok_forget: "machine_ok m \<Longrightarrow> machine_ok (m\<lparr>owed := (owed m)(b := [])\<rparr>)"
  unfolding machine_ok_def claims_apart_def idle_pinned_def owed_ok_def claims_def by (auto split: if_splits)

lemma new_block_machine:
  assumes ok: "machine_ok m" and c: "c < length (cpus (sched m))" and nb: "new_block (sched m) b th s'"
    and cpu: "cpus s' = cpus (sched m)"
  shows "machine_ok (m\<lparr>sched := s', owed := (owed m)(b := [])\<rparr>)"
proof -
  note D = machine_okD [OF ok] and O = owed_okD [OF machine_okD(8) [OF ok]]
  let ?m = "m\<lparr>sched := s', owed := (owed m)(b := [])\<rparr>"
  obtain rq sl where sok: "sched_ok (sched m) rq sl" using D(2) by (auto simp: sched_good_def)
  have g: "sched_good s'" by (rule sched_goodI [OF new_block_ok [OF nb sok cpu]])
  have cl: "claims ?m i = claims m i" for i by (simp add: claims_def cpu)
  have nc: "b \<noteq> t" if "t \<in> set (thread_blocks (sched m))" for t using that nb by (auto simp: new_block_def)
  have un: "undisturbed (sched m) s' t" if "t \<in> set (thread_blocks (sched m))" for t
    using nc [OF that] nb by (auto simp: new_block_def undisturbed_def stack_view_def parked_def)
  have ow: "owed_ok ?m"
    by (rule owed_okI)
      (use O owed_ok_distinct [OF D(8)] nb nc cpu undisturbedD(3) [OF un] in \<open>auto simp: new_block_def split: if_splits\<close>)
  have "phase_ok s' c (phase m c)"
    by (rule phase_ok_undisturbed [OF D(2) c D(4) [OF c]])
      (use un claims_blocks [OF ok c] nb in \<open>auto simp: cpu new_block_def claims_def\<close>)
  then show ?thesis
    by (intro machine_ok_step [OF ok c])
      (use D(1,3) D(5) [OF c] g ow cl un claims_blocks [OF ok] nb cpu
        in \<open>auto simp: new_block_def idle_pinned_def rested_def\<close>)
qed

lemma safe_new_flags: "safe_flags (push_bit 1 1 OR push_bit 9 1)"
  by code_simp

lemma created_block:
  assumes "create_thread_block c s (Some n) p (Some b) st = Some (t, s1)"
    and "b \<notin> set (thread_blocks s)" "fresh_stack st THREAD_KERNEL_STACK_SIZE"
  shows "t = b" "\<exists>th. new_block s b th s1" "cpus s1 = cpus s"
proof -
  let ?s0 = "upd_thread b (\<lambda>_. new_thread n p st) s"
  obtain s2 where pr: "thread_prepare_context ?s0 b = Some s2" "p < 3"
    and s1: "t = b" "s1 = (upd_thread b (\<lambda>x. x\<lparr>t_id := next_thread_id s2\<rparr>) s2)
      \<lparr>next_thread_id := next_thread_id s2 + 1, thread_blocks := b # thread_blocks s2\<rparr>"
    using assms(1) by (auto simp: create_thread_block_def split: if_splits option.splits)
  have no: "\<not> (st + THREAD_KERNEL_STACK_SIZE) AND NOT 0x0F < st + 72"
    and s2: "s2 = upd_thread b (\<lambda>x. x\<lparr>saved_stack_pointer := ((st + THREAD_KERNEL_STACK_SIZE) AND NOT 0x0F) - 72,
           saved_rflags := push_bit 1 1 OR push_bit 9 1, saved_context_valid := True\<rparr>) ?s0"
    using pr(1) by (auto simp: thread_prepare_context_def Let_def new_thread_def split: if_splits)
  show "t = b" by (rule s1(1))
  show "cpus s1 = cpus s" by (simp add: s1 s2)
  have "frame_ok (threads s1 b)"
    by (rule prepared_frame [OF assms(3) no]) (simp_all add: s1 s2 new_thread_def)
  moreover have "safe_flags (saved_rflags (threads s1 b))"
    using safe_new_flags by (simp add: s1 s2)
  moreover have "thread_priority_state_valid (threads s1 b)"
    using pr(2) by (simp add: s1 s2 thread_priority_state_valid_def new_thread_def zero_thread_def)
  ultimately have "new_block s b (threads s1 b) s1"
    using assms(2) by (simp add: new_block_def s1 s2 new_thread_def zero_thread_def)
  then show "\<exists>th. new_block s b th s1" by blast
qed

lemma new_block_not_idle:
  assumes "machine_ok m" "new_block (sched m) b th s'" "cpus s' = cpus (sched m)"
  shows "\<not> is_idle_thread s' b"
proof
  assume "is_idle_thread s' b"
  then obtain i where i: "i < length (cpus (sched m))" "idle_thread i (sched m) = Some b"
    using assms(3) by (auto elim: is_idle_threadE)
  obtain rq sl where "sched_ok (sched m) rq sl" using machine_okD(2) [OF assms(1)] by (auto simp: sched_good_def)
  from idle_thread_ok(1) [OF this i] show False using assms(2) by (simp add: new_block_def)
qed

lemma create_suspended_ok:
  assumes ok: "machine_ok m" and c: "c < length (cpus (sched m))"
    and b: "b \<notin> set (thread_blocks (sched m))" "fresh_stack st THREAD_KERNEL_STACK_SIZE"
  shows "machine_ok (exec (Create_Suspended c n p b st) m)"
proof (cases "create_thread_block c (sched m) (Some n) p (Some b) st")
  case None
  then show ?thesis using machine_ok_forget [OF ok] by (simp add: thread_create_suspended_with_priority_def)
next
  case (Some ts)
  obtain t s1 where ts: "ts = (t, s1)" by fastforce
  note C = created_block [OF Some [unfolded ts] b]
  then obtain th where "new_block (sched m) b th s1" by blast
  from new_block_machine [OF ok c this C(3)] show ?thesis
    by (simp add: thread_create_suspended_with_priority_def Some ts)
qed

lemma create_ok:
  assumes ok: "machine_ok m" and c: "c < length (cpus (sched m))"
    and b: "b \<notin> set (thread_blocks (sched m))" "fresh_stack st THREAD_KERNEL_STACK_SIZE"
  shows "machine_ok (exec (Create c n p b st) m)"
proof (cases "create_thread_block c (sched m) (Some n) p (Some b) st")
  case None
  then show ?thesis using machine_ok_forget [OF ok] by (simp add: thread_create_with_priority_def)
next
  case (Some ts)
  obtain t s1 where ts: "ts = (t, s1)" by fastforce
  note C = created_block [OF Some [unfolded ts] b]
  then obtain th where nb: "new_block (sched m) b th s1" by blast
  note ok1 = new_block_machine [OF ok c nb C(3)]
  let ?m = "m\<lparr>sched := s1, owed := (owed m)(b := [])\<rparr>"
  have c1: "c < length (cpus s1)" using c C(3) by simp
  have g1: "sched_good s1" using machine_okD(2) [OF ok1] by simp
  obtain rq sl where sok: "sched_ok s1 rq sl" using g1 by (auto simp: sched_good_def)
  have ni: "\<not> is_idle_thread s1 b" by (rule new_block_not_idle [OF ok nb C(3)])
  have st: "b \<in> set (thread_blocks s1)" "t_state (threads s1 b) = THREAD_STATE_READY"
    "running_cpu (threads s1 b) = THREAD_CPU_NONE" "\<not> queued (threads s1 b)" "\<not> sleeping (threads s1 b)"
    using nb by (auto simp: new_block_def)
  have "free_thread s1 b" using free_of_state [OF sok st(4,5)] st ni by simp
  from enqueue_ok(1) [OF sok c1 st(1) this st(2,3) refl]
  obtain s2 where e: "scheduler_enqueue_locked c s1 b = (True, s2)" by blast
  have "keeps s1 s2" using enqueue_keeps [OF g1 c1 st(1) ni] e by (simp add: scheduler_enqueue_def)
  then have "machine_ok (?m\<lparr>sched := s2\<rparr>)" using machine_ok_keeps [OF ok1, of c s2] c1 by simp
  moreover have "?m\<lparr>sched := s2\<rparr> = m\<lparr>sched := s2, owed := (owed m)(b := [])\<rparr>" by (cases m) simp
  ultimately show ?thesis using C(1) e by (simp add: thread_create_with_priority_def Some ts)
qed

subsection \<open>Reclaiming a thread\<close>

text \<open>
  A thread that \<^const>\<open>thread_destroy_locked\<close> lets go is claimed by no CPU: its stack is not in use.
\<close>

lemma destroy_unclaimed:
  assumes ok: "machine_ok m" and d: "thread_destroy_locked (sched m) t = Some s'"
    and i: "i < length (cpus (sched m))"
  shows "t \<notin> claims m i"
proof
  assume "t \<in> claims m i"
  then show False
    using d machine_okD(4) [OF ok i] current_not_none [OF machine_okD(2) [OF ok] i]
    by (cases rule: claimed_cases) (auto simp: thread_destroy_locked_def split: if_splits)
qed

lemma sched_ok_drop:
  assumes ok: "sched_ok s rq sl" and t: "free_thread s t" and bl: "set bl \<subseteq> set (thread_blocks s)"
      "set (thread_blocks s) - {t} \<subseteq> set bl"
  shows "sched_ok (s\<lparr>thread_blocks := bl\<rparr>) rq sl"
proof (rule sched_okI)
  let ?s = "s\<lparr>thread_blocks := bl\<rparr>"
  note W = lists_wfD [OF sched_okD(1) [OF ok]]
  have "set sl \<subseteq> set bl" using t W(6) [of t] W(8) bl by (auto simp: free_thread_def)
  then show "lists_wf ?s rq sl"
    using sched_okD(1) [OF ok] unfolding lists_wf_def ready_repr_def by (simp, blast)
  show "length (cpus ?s) < 2 ^ 32 - 1" using sched_okD(2) [OF ok] by simp
  show "thread_ok (threads ?s a)" if "a \<in> set (thread_blocks ?s)" for a
    using that sched_okD(3) [OF ok, of a] bl by auto
  show "queued_ok ?s a \<and> a \<in> set (thread_blocks ?s)" if "queued (threads ?s a)" for a
    using that t bl sched_okD(4,5) [OF ok, of a] by (auto simp: queued_ok_def free_thread_def)
  show "sleeper_ok ?s a" if "sleeping (threads ?s a)" for a
    using that sched_okD(6) [OF ok, of a] by (simp add: sleeper_ok_def)
  fix i assume "i < length (cpus ?s)"
  then have i: "i < length (cpus s)" by simp
  show "current_ok ?s i" "idle_ok ?s i"
    using sched_okD(7,8) [OF ok i] t bl i
    by (auto simp: current_ok_def idle_ok_def free_thread_def Let_def split: option.splits)
qed

lemma destroy_ok:
  assumes ok: "machine_ok m" and c: "c < length (cpus (sched m))" and d: "thread_destroy_locked (sched m) t = Some s'"
  shows "machine_ok (m\<lparr>sched := s'\<lparr>thread_blocks := remove1 t (thread_blocks s')\<rparr>\<rparr>)"
proof -
  note D = machine_okD [OF ok] and O = owed_okD [OF machine_okD(8) [OF ok]] and free = destroy_unclaimed [OF ok d]
  let ?r = "scheduler_remove_queued_locked (sched m) t"
  let ?s = "s'\<lparr>thread_blocks := remove1 t (thread_blocks s')\<rparr>"
  have g: "t \<noteq> bootstrap_thread (sched m)" "\<not> sleeping (threads (sched m) t)" "\<not> context_switch_pending (threads (sched m) t)"
    "running_cpu (threads (sched m) t) = THREAD_CPU_NONE" "\<not> is_idle_thread (sched m) t" "s' = ?r"
    "t_state (threads (sched m) t) = THREAD_STATE_READY \<or> t_state (threads (sched m) t) = THREAD_STATE_TERMINATED"
    using d by (auto simp: thread_destroy_locked_def split: if_splits)
  obtain rq sl where sok: "sched_ok (sched m) rq sl" using D(2) by (auto simp: sched_good_def)
  have "\<exists>rq'. sched_ok s' rq' sl \<and> \<not> queued (threads s' t)"
  proof (cases "queued (threads (sched m) t)")
    case True
    then show ?thesis
      using remove_queued_ok [OF sok True refl] lists_wf_queued(1) [OF sched_okD(1) [OF sok] True] g(6) by auto
  next
    case False
    then show ?thesis using sok g(6) by (auto simp: scheduler_remove_queued_locked_def Let_def)
  qed
  then obtain rq' where ok': "sched_ok s' rq' sl" and nq: "\<not> queued (threads s' t)" by blast
  have "free_thread s' t"
    by (rule free_of_state [OF ok' nq]) (use g in \<open>auto simp: is_idle_thread_def\<close>)
  then have good: "sched_good ?s"
    using set_remove1_subset in_set_remove1 by (intro sched_goodI [OF sched_ok_drop [OF ok']]) fastforce+
  have bl: "u \<in> set (thread_blocks ?s)" if "u \<in> set (thread_blocks (sched m))" "u \<noteq> t" for u
    using that g(6) by simp
  have un: "undisturbed (sched m) ?s u" if "u \<noteq> t" for u
    using g that by (auto simp: undisturbed_def stack_view_def parked_def)
  have cl: "claims (m\<lparr>sched := ?s\<rparr>) i = claims m i" for i using g(6) by (simp add: claims_def)
  have ow: "owed_ok (m\<lparr>sched := ?s\<rparr>)"
  proof (rule owed_okI)
    fix u x assume "x \<in> set (owed (m\<lparr>sched := ?s\<rparr>) u)"
    then have x: "x \<in> set (owed m u)" "x \<noteq> t" using O(2) [of x u] g(3) by auto
    then show "x \<in> set (thread_blocks (sched (m\<lparr>sched := ?s\<rparr>))) \<and>
        context_switch_pending (threads (sched (m\<lparr>sched := ?s\<rparr>)) x)"
      using O(1,2) [OF x(1)] bl undisturbedD(3) [OF un] by simp
  qed (use O(3,4) owed_ok_distinct [OF D(8)] g(6) in auto)
  have un2: "undisturbed (sched m) ?s u \<and> u \<in> set (thread_blocks ?s)"
    if "i < length (cpus (sched m))" "u \<in> claims m i" for i u
  proof
    have ne: "u \<noteq> t" using free [OF that(1)] that(2) by auto
    show "undisturbed (sched m) ?s u" by (rule un [OF ne])
    show "u \<in> set (thread_blocks ?s)" by (rule bl [OF claims_blocks [OF ok that] ne])
  qed
  have "phase_ok ?s c (phase m c)"
    by (rule phase_ok_undisturbed [OF D(2) c D(4) [OF c]])
      (use un2 [OF c] g(6) in \<open>simp_all add: claims_def\<close>)
  moreover have "rested ?s u" if "rested (sched m) u" for u
    using that g(6) by (simp add: rested_def frame_ok_def)
  ultimately show ?thesis
    by (intro machine_ok_change [OF ok c])
      (use D(1,3) D(5) [OF c] good ow cl bl un2 g(1,6) set_remove1_subset [of t] in \<open>auto simp: idle_pinned_def\<close>)
qed

subsection \<open>Bringing up a CPU\<close>

lemma sched_ok_set_idle:
  assumes sok: "sched_ok s rq sl" and i: "i < length (cpus s)"
    and b: "b \<in> set (thread_blocks s)" "base_priority (threads s b) = THREAD_PRIORITY_BACKGROUND"
      "effective_priority (threads s b) = THREAD_PRIORITY_BACKGROUND"
      "t_state (threads s b) = THREAD_STATE_READY" "\<not> queued (threads s b)"
  shows "sched_ok (upd_cpu i (\<lambda>x. x\<lparr>cpu_idle_thread := Some b\<rparr>) s) rq sl"
proof (rule sched_okI)
  let ?s = "upd_cpu i (\<lambda>x. x\<lparr>cpu_idle_thread := Some b\<rparr>) s"
  have cur: "current_thread j ?s = current_thread j s"
    "context_switching (cpus ?s ! j) = context_switching (cpus s ! j)"
    "cpu_online (cpus ?s ! j) = cpu_online (cpus s ! j)" for j
    using i by (auto simp: nth_list_update)
  show "lists_wf ?s rq sl" using sched_okD(1) [OF sok] by (simp only: lists_wf_cpu)
  show "queued_ok ?s t \<and> t \<in> set (thread_blocks ?s)" if "queued (threads ?s t)" for t
    using that sched_okD(4,5) [OF sok, of t] by (simp add: queued_ok_def)
  show "sleeper_ok ?s t" if "sleeping (threads ?s t)" for t
    using that sched_okD(6) [OF sok, of t] by (simp add: sleeper_ok_def)
  fix j assume "j < length (cpus ?s)"
  then have j: "j < length (cpus s)" by simp
  show "current_ok ?s j"
    using sched_okD(7) [OF sok j] unfolding current_ok_def Let_def cur upd_sel(17,23) .
  show "idle_ok ?s j"
    using sched_okD(8) [OF sok j] b i j by (cases "j = i") (auto simp: idle_ok_def Let_def split: option.splits)
qed (use sched_okD(2,3) [OF sok] in auto)

lemma set_idle_ok:
  assumes ok: "machine_ok m" and i: "i < length (cpus (sched m))" and none: "idle_thread i (sched m) = None"
    and b: "b \<in> set (thread_blocks (sched m))" "b \<noteq> bootstrap_thread (sched m)"
      "base_priority (threads (sched m) b) = THREAD_PRIORITY_BACKGROUND"
      "effective_priority (threads (sched m) b) = THREAD_PRIORITY_BACKGROUND"
      "t_state (threads (sched m) b) = THREAD_STATE_READY" "\<not> queued (threads (sched m) b)"
    and away: "\<And>j. j < length (cpus (sched m)) \<Longrightarrow> b \<notin> claims m j \<and> idle_thread j (sched m) \<noteq> Some b"
  shows "machine_ok (m\<lparr>sched := upd_cpu i (\<lambda>x. x\<lparr>cpu_idle_thread := Some b\<rparr>) (sched m)\<rparr>)"
proof -
  note D = machine_okD [OF ok]
  let ?s = "upd_cpu i (\<lambda>x. x\<lparr>cpu_idle_thread := Some b\<rparr>) (sched m)"
  let ?m = "m\<lparr>sched := ?s\<rparr>"
  obtain rq sl where sok: "sched_ok (sched m) rq sl" using D(2) by (auto simp: sched_good_def)
  have cur: "current_thread j ?s = current_thread j (sched m)"
    "context_switching (cpus ?s ! j) = context_switching (cpus (sched m) ! j)"
    "cpu_online (cpus ?s ! j) = cpu_online (cpus (sched m) ! j)" for j
    using i by (auto simp: nth_list_update)
  have cl: "claims ?m j = claims m j" for j by (simp add: claims_def cur del: upd_sel)
  have "sched_ok ?s rq sl" by (rule sched_ok_set_idle [OF sok i b(1,3-6)])
  then have g: "sched_good ?s" by (rule sched_goodI)
  have "phase_ok ?s j ph = phase_ok (sched m) j ph" for j ph
    by (cases ph) (simp_all add: cur live_def rested_def parked_def del: upd_sel(18))
  moreover have "idle_pinned ?m j" if "j < length (cpus (sched m))" for j
    using D(5) [OF that] away i that b(2) unfolding idle_pinned_def cl
    by (cases "j = i") (auto simp: cur nth_list_update)
  moreover have "owed_ok ?m" using D(8) by (simp add: owed_ok_def)
  moreover have "rested ?s t = rested (sched m) t" for t by (simp add: rested_def)
  ultimately show ?thesis
    using D g b(1) unfolding machine_ok_def claims_apart_def cl by (simp add: disjoint_iff)
qed

lemma prepare_idle_ok:
  assumes ok: "machine_ok m" and c: "c < length (cpus (sched m))"
    and b: "b \<notin> set (thread_blocks (sched m))" "fresh_stack base sz"
  shows "machine_ok (exec (Prepare_Idle c i base sz b) m)"
proof (cases "fst (scheduler_prepare_idle_cpu (sched m) i base sz (Some b))")
  case False
  then have "snd (scheduler_prepare_idle_cpu (sched m) i base sz (Some b)) = sched m"
    by (auto simp: scheduler_prepare_idle_cpu_def Let_def split: if_splits option.splits)
  then show ?thesis using machine_ok_forget [OF ok] by simp
next
  case True
  let ?s0 = "upd_thread b (\<lambda>_. idle_block base sz) (sched m)"
  obtain s2 where i: "i < length (cpus (sched m))" "idle_thread i (sched m) = None"
    and pr: "thread_prepare_context ?s0 b = Some s2"
    and r: "snd (scheduler_prepare_idle_cpu (sched m) i base sz (Some b)) =
      (upd_cpu i (\<lambda>x. x\<lparr>cpu_idle_thread := Some b\<rparr>) (upd_thread b (\<lambda>x. x\<lparr>t_id := next_thread_id s2\<rparr>) s2))
        \<lparr>next_thread_id := next_thread_id s2 + 1, thread_blocks := b # thread_blocks s2\<rparr>"
    using True by (auto simp: scheduler_prepare_idle_cpu_def Let_def split: if_splits option.splits)
  have no: "\<not> (base + sz) AND NOT 0x0F < base + 72"
    and s2: "s2 = upd_thread b (\<lambda>x. x\<lparr>saved_stack_pointer := ((base + sz) AND NOT 0x0F) - 72,
           saved_rflags := push_bit 1 1 OR push_bit 9 1, saved_context_valid := True\<rparr>) ?s0"
    using pr by (auto simp: thread_prepare_context_def Let_def idle_block_def split: if_splits)
  define s1 where "s1 = (upd_thread b (\<lambda>x. x\<lparr>t_id := next_thread_id s2\<rparr>) s2)
      \<lparr>next_thread_id := next_thread_id s2 + 1, thread_blocks := b # thread_blocks s2\<rparr>"
  have "frame_ok (threads s1 b)"
    by (rule prepared_frame [OF b(2) no]) (simp_all add: s1_def s2 idle_block_def)
  moreover have "safe_flags (saved_rflags (threads s1 b))" using safe_new_flags by (simp add: s1_def s2)
  ultimately have nb: "new_block (sched m) b (threads s1 b) s1"
    using b(1) by (simp add: new_block_def s1_def s2 idle_block_def zero_thread_def thread_priority_state_valid_def
        priority_defs)
  have cp: "cpus s1 = cpus (sched m)" by (simp add: s1_def s2)
  note ok1 = new_block_machine [OF ok c nb cp]
  let ?m = "m\<lparr>sched := s1, owed := (owed m)(b := [])\<rparr>"
  have "b \<notin> claims ?m j" if "j < length (cpus s1)" for j
    using claims_blocks [OF ok, of j b] b(1) that by (auto simp: claims_def cp)
  moreover have "idle_thread j s1 \<noteq> Some b" if "j < length (cpus s1)" for j
    using new_block_not_idle [OF ok nb cp] that by (auto simp: is_idle_thread_def list_ex_length)
  moreover have "b \<noteq> bootstrap_thread s1" using machine_okD(3) [OF ok] b(1) by (auto simp: s1_def s2)
  ultimately have "machine_ok (?m\<lparr>sched := upd_cpu i (\<lambda>x. x\<lparr>cpu_idle_thread := Some b\<rparr>) s1\<rparr>)"
    using set_idle_ok [OF ok1, of i b] i nb
    by (simp add: cp new_block_def) (simp add: s1_def s2 idle_block_def)
  moreover have "?m\<lparr>sched := upd_cpu i (\<lambda>x. x\<lparr>cpu_idle_thread := Some b\<rparr>) s1\<rparr> =
      m\<lparr>sched := snd (scheduler_prepare_idle_cpu (sched m) i base sz (Some b)), owed := (owed m)(b := [])\<rparr>"
    unfolding r by (cases m) (simp add: s1_def upd_cpu_def)
  ultimately show ?thesis by simp
qed

lemma start_ok:
  assumes ok: "machine_ok m" and c: "c < length (cpus (sched m))" and ph: "phase m c = Executing"
    and none: "current_thread c (sched m) = None" and pat: "patient m (exec (Start c) m)"
  shows "machine_ok (exec (Start c) m)"
proof (cases "fst (scheduler_start_cpu c (sched m))")
  case False
  then have "snd (scheduler_start_cpu c (sched m)) = sched m"
    by (auto simp: scheduler_start_cpu_def Let_def split: if_splits option.splits)
  then show ?thesis using ok by simp
next
  case True
  note D = machine_okD [OF ok]
  let ?s = "snd (scheduler_start_cpu c (sched m))"
  obtain t where t: "idle_thread c (sched m) = Some t" "t_state (threads (sched m) t) = THREAD_STATE_READY"
      "\<not> queued (threads (sched m) t)" "running_cpu (threads (sched m) t) = THREAD_CPU_NONE"
      "thread_context_ready c (sched m) t"
    and s: "?s = upd_thread t (\<lambda>x. x\<lparr>saved_context_valid := False\<rparr>)
            (upd_cpu c (\<lambda>x. x\<lparr>cpu_current_thread := Some t,
                cpu_online := cpu_online x \<or> cpu_present x, kernel_thread_runs := 0\<rparr>)
              (upd_thread t (\<lambda>x. x\<lparr>t_state := THREAD_STATE_RUNNING, running_cpu := of_nat c\<rparr>) (sched m)))"
    using True by (auto simp: scheduler_start_cpu_def Let_def split: if_splits option.splits)
  let ?th = "(threads (sched m) t)\<lparr>t_state := THREAD_STATE_RUNNING, running_cpu := of_nat c, saved_context_valid := False\<rparr>"
  let ?x = "(cpus (sched m) ! c)\<lparr>cpu_current_thread := Some t,
      cpu_online := cpu_online (cpus (sched m) ! c) \<or> cpu_present (cpus (sched m) ! c), kernel_thread_runs := 0\<rparr>"
  have f: "threads ?s = (threads (sched m))(t := ?th)" "cpus ?s = (cpus (sched m))[c := ?x]"
    "ready_queues ?s = ready_queues (sched m)" "sleeping_threads ?s = sleeping_threads (sched m)"
    "thread_blocks ?s = thread_blocks (sched m)" "bootstrap_thread ?s = bootstrap_thread (sched m)"
    unfolding s by simp_all
  obtain rq sl where sok: "sched_ok (sched m) rq sl" using D(2) by (auto simp: sched_good_def)
  note I = idle_thread_ok [OF sok c t(1)]
  have away: "t \<notin> claims m j \<and> idle_thread j (sched m) \<noteq> Some t" if "j < length (cpus (sched m))" "j \<noteq> c" for j
    using D(5) [OF c] t(1) that by (auto simp: idle_pinned_def)
  have "sched_ok (upd_cpu c (\<lambda>_. ?x) (upd_thread t (\<lambda>_. ?th) (sched m))) rq sl"
    by (rule sched_ok_current [OF sok c I(1-3)])
      (use t sched_okD(3) [OF sok I(1)] of_nat_cpu_not_none [of c] c sched_okD(2) [OF sok] away
        in \<open>auto simp: links_kept_def thread_ok_def thread_priority_state_valid_def claims_def\<close>)
  then have "sched_ok ?s rq sl" by (rule iffD2 [OF sched_ok_cong, rotated -1]) (simp_all add: f)
  then have g: "sched_good ?s" by (rule sched_goodI)
  have np: "\<not> context_switch_pending (threads (sched m) t)"
    using pat c none f(2) by (auto simp: patient_def)
  have cl: "claims m c = {}" "claims (exec (Start c) m) c = {t}"
    using none ph c f(2) by (auto simp: claims_def)
  have un: "undisturbed (sched m) ?s u" if "u \<noteq> t" for u
    using that by (simp add: undisturbed_def stack_view_def parked_def f)
  have "frame_ok (threads (sched m) t)"
    using t(5) none by (simp add: thread_context_ready_def thread_saved_stack_valid_iff)
  then have own: "phase_ok (sched (exec (Start c) m)) c (phase (exec (Start c) m) c)"
    using np c D(4) [OF c] ph by (auto simp: f live_def frame_ok_def)
  have "context_switch_pending (threads ?s u) = context_switch_pending (threads (sched m) u)" for u
    by (simp add: f)
  then have "owed_ok (m\<lparr>sched := ?s\<rparr>)" using D(8) unfolding owed_ok_def by (simp add: f(2,5))
  with own show ?thesis
    by (intro machine_ok_step [OF ok c] own)
      (use D(1,3) g cl un away t(1) ph claims_blocks [OF ok] c in \<open>auto simp: f(2,5,6)\<close>)
qed

end
