(* ===== verification/Machine_Boot.thy ===== *)
theory Machine_Boot
  imports Machine_Run
begin

section \<open>Booting the machine\<close>

text \<open>
  The CPU table of \<^verbatim>\<open>kernel/src/cpu.c\<close>, the order in which \<^verbatim>\<open>kernel/src/init.c\<close> brings up the scheduler
  (\<^verbatim>\<open>scheduler_init\<close> on the bootstrap record, then \<^verbatim>\<open>cpu_init_bsp\<close>), and the theorems about every run
  of the machine from there: the invariant holds after boot and every step keeps it.

  A CPU record is its place in the list; the APIC id and the descriptor tables are not modelled.
  The table is empty while \<^verbatim>\<open>scheduler_init\<close> runs, so the loops over it visit no CPU; here the
  bootstrap record is in the list from the beginning, but not online, which those loops skip too.
\<close>

subsection \<open>The CPU table\<close>

record acpi_cpu =
  acpi_usable :: bool
  acpi_bsp :: bool

definition CPU_MAX_COUNT :: nat where "CPU_MAX_COUNT = 256"

definition zero_cpu_local :: cpu_local where
  "zero_cpu_local = \<lparr>cpu_present = False, cpu_bsp = False, cpu_online = False, cpu_current_thread = None,
     cpu_idle_thread = None, preemption_pending = False, context_switching = False, kernel_thread_runs = 0,
     accounted_ticks = 0, busy_ticks = 0\<rparr>"

definition cpu_bootstrap_local :: cpu_local where
  "cpu_bootstrap_local = zero_cpu_local\<lparr>cpu_present := True, cpu_bsp := True, cpu_online := True\<rparr>"

definition cpu_record_reset :: "bool \<Rightarrow> bool \<Rightarrow> cpu_local \<Rightarrow> cpu_local" where
  "cpu_record_reset bsp online x = x\<lparr>cpu_present := True, cpu_bsp := bsp, cpu_online := online\<rparr>"

text \<open>The loop over the topology, from entry \<open>i\<close>; \<open>n\<close> is the next free index of the table.\<close>

fun cpu_records :: "nat \<Rightarrow> acpi_cpu list \<Rightarrow> nat \<Rightarrow> nat \<Rightarrow> cpu_local list \<Rightarrow> (nat \<times> cpu_local list) option" where
  "cpu_records b [] i n xs = Some (n, xs)"
| "cpu_records b (cpu # rest) i n xs =
     (if \<not> acpi_usable cpu \<or> i = b then cpu_records b rest (Suc i) n xs
      else if n \<ge> CPU_MAX_COUNT then None
      else cpu_records b rest (Suc i) (Suc n) (xs[n := cpu_record_reset False False (xs ! n)]))"

text \<open>
  \<open>descriptor\<close>: the bootstrap record has its descriptor tables; \<open>bsp\<close>: the index that
  \<^verbatim>\<open>acpi_bsp_cpu\<close> reports; \<open>memory\<close> and \<open>gs\<close>: the allocation and the activation of the GS base succeed.
\<close>

definition cpu_init_bsp :: "bool \<Rightarrow> nat \<Rightarrow> acpi_cpu list \<Rightarrow> bool \<Rightarrow> bool \<Rightarrow> scheduler \<Rightarrow> bool \<times> scheduler" where
  "cpu_init_bsp descriptor bsp topology memory gs s =
     (if \<not> descriptor \<or> \<not> bsp < length topology \<or> \<not> acpi_usable (topology ! bsp) \<or>
         \<not> acpi_bsp (topology ! bsp) \<or> length topology = 0 \<or> length topology > CPU_MAX_COUNT then (False, s)
      else if \<not> memory then (False, s)
      else let xs = replicate (length topology) zero_cpu_local in
        case cpu_records bsp topology 0 1 (xs[0 := cpu_record_reset True True (cpus s ! 0)]) of
          None \<Rightarrow> (False, s)
        | Some (n, ys) \<Rightarrow> if n \<noteq> length topology then (False, s)
            else if \<not> gs then (False, s\<lparr>cpus := ys\<rparr>) else (True, s\<lparr>cpus := ys\<rparr>))"

definition cpu_mark_online :: "nat \<Rightarrow> scheduler \<Rightarrow> scheduler" where
  "cpu_mark_online i s = (if \<not> i < length (cpus s) \<or> \<not> cpu_present (cpus s ! i) then s
     else upd_cpu i (\<lambda>x. x\<lparr>cpu_online := True\<rparr>) s)"

text \<open>The static data of the kernel; \<open>boot\<close> is the address of the bootstrap thread.\<close>

definition boot_scheduler :: "addr \<Rightarrow> scheduler" where
  "boot_scheduler boot = \<lparr>threads = (\<lambda>_. zero_thread), cpus = [cpu_bootstrap_local\<lparr>cpu_online := False\<rparr>],
     ready_queues = replicate 3 empty_queue, sleeping_threads = None, next_thread_id = 0,
     scheduler_tick_count = 0, scheduler_stats = zero_statistics, bootstrap_thread = boot,
     thread_blocks = []\<rparr>"

definition machine_of :: "scheduler \<Rightarrow> machine" where
  "machine_of s = \<lparr>sched = s, phase = (\<lambda>_. Executing), owed = (\<lambda>_. []), panicked = False\<rparr>"

text \<open>
  \<open>kernel/src/init.c\<close> boots only when both steps succeed. The memory for the idle thread is new and its
  stack does not wrap around the address space.
\<close>

definition boot_machine :: "addr \<Rightarrow> u64 \<Rightarrow> u64 \<Rightarrow> addr \<Rightarrow> u64 \<Rightarrow> nat \<Rightarrow> acpi_cpu list \<Rightarrow> machine option" where
  "boot_machine boot bottom sz block stack bsp topology =
     (case scheduler_init 0 (boot_scheduler boot) bottom sz (Some block) stack of
        (False, s) \<Rightarrow> None
      | (True, s) \<Rightarrow> (case cpu_init_bsp True bsp topology True True s of
            (False, s1) \<Rightarrow> None | (True, s1) \<Rightarrow> Some (machine_of s1)))"

definition machine_start :: "machine \<Rightarrow> bool" where
  "machine_start m \<longleftrightarrow> (\<exists>boot bottom sz block stack bsp topology. block \<noteq> boot \<and>
     fresh_stack stack THREAD_KERNEL_STACK_SIZE \<and>
     boot_machine boot bottom sz block stack bsp topology = Some m)"

subsection \<open>The invariant holds after boot\<close>

lemma cpu_records_table:
  "cpu_records b tps i n xs = Some (k, ys) \<Longrightarrow> n \<le> k \<and> length ys = length xs \<and>
    (\<forall>j<length xs. ys ! j = (if n \<le> j \<and> j < k then cpu_record_reset False False (xs ! j) else xs ! j))"
proof (induction b tps i n xs rule: cpu_records.induct)
  case (2 b cpu rest i n xs)
  then show ?case
    by (cases "\<not> acpi_usable cpu \<or> i = b"; cases "n \<ge> CPU_MAX_COUNT") (auto simp: nth_list_update not_less_eq_eq dest: le_antisym)
qed auto

text \<open>After a successful \<^const>\<open>cpu_init_bsp\<close> the first CPU is the one that booted, the rest are not online.\<close>

lemma cpu_init_bsp_table:
  assumes "cpu_init_bsp d b tps mem gs s = (True, s')"
  shows "s' = s\<lparr>cpus := cpu_record_reset True True (cpus s ! 0) #
      replicate (length tps - 1) (cpu_record_reset False False zero_cpu_local)\<rparr>"
    "0 < length tps" "length tps \<le> CPU_MAX_COUNT"
proof -
  let ?xs = "(replicate (length tps) zero_cpu_local)[0 := cpu_record_reset True True (cpus s ! 0)]"
  obtain ys where n: "0 < length tps" "length tps \<le> CPU_MAX_COUNT" and s': "s' = s\<lparr>cpus := ys\<rparr>"
    and r: "cpu_records b tps 0 1 ?xs = Some (length tps, ys)"
    using assms by (auto simp: cpu_init_bsp_def Let_def split: if_splits option.splits)
  have "ys = cpu_record_reset True True (cpus s ! 0) #
      replicate (length tps - 1) (cpu_record_reset False False zero_cpu_local)"
    using cpu_records_table [OF r] n(1)
    by (intro nth_equalityI) (auto simp: nth_Cons nth_list_update split: nat.splits)
  with s' n show "s' = s\<lparr>cpus := cpu_record_reset True True (cpus s ! 0) #
      replicate (length tps - 1) (cpu_record_reset False False zero_cpu_local)\<rparr>"
    "0 < length tps" "length tps \<le> CPU_MAX_COUNT" by simp_all
qed

lemma upd_thread_id: "f (threads s t) = threads s t \<Longrightarrow> upd_thread t f s = s"
  by (simp add: upd_thread_def)

lemma remove_queued_upd_cpu:
  "scheduler_remove_queued_locked (upd_cpu c f s) t = upd_cpu c f (scheduler_remove_queued_locked s t)"
  by (simp add: scheduler_remove_queued_locked_def Let_def upd_cpu_def upd_thread_def upd_queue_def split: option.split)

definition booted :: "addr \<Rightarrow> addr \<Rightarrow> scheduler \<Rightarrow> bool" where
  "booted boot idle s \<longleftrightarrow> sched_good s \<and> thread_blocks s = [idle, boot] \<and> bootstrap_thread s = boot \<and>
     boot \<noteq> idle \<and> length (cpus s) = 1 \<and> current_thread 0 s = Some boot \<and> idle_thread 0 s = Some idle \<and>
     \<not> context_switching (cpus s ! 0) \<and> live s boot \<and> rested s idle \<and>
     \<not> context_switch_pending (threads s boot)"

lemma reset_ok: "sched_ok (scheduler_reset 0 (boot_scheduler boot) bottom sz) (\<lambda>_. []) []"
proof (rule sched_okI)
  let ?s = "scheduler_reset 0 (boot_scheduler boot) bottom sz"
  note d = scheduler_reset_def boot_scheduler_def bootstrap_block_def zero_thread_def
  show "lists_wf ?s (\<lambda>_. []) []"
    by (rule lists_wfI) (simp_all add: d ready_repr_def empty_queue_def)
  show "thread_ok (threads ?s t)" if "t \<in> set (thread_blocks ?s)" for t
    using that by (simp add: d thread_ok_def thread_priority_state_valid_def priority_defs)
  fix i assume "i < length (cpus ?s)"
  then have i: "i = 0" by (simp add: d)
  show "current_ok ?s i" by (simp add: i d current_ok_def Let_def)
  show "idle_ok ?s i" by (simp add: i d idle_ok_def Let_def)
qed (auto simp: scheduler_reset_def boot_scheduler_def bootstrap_block_def zero_thread_def split: if_splits)

lemma scheduler_init_booted:
  assumes init: "scheduler_init 0 (boot_scheduler boot) bottom sz (Some b) st = (True, s)"
    and b: "b \<noteq> boot" "fresh_stack st THREAD_KERNEL_STACK_SIZE"
  shows "booted boot b s"
proof -
  let ?s0 = "scheduler_reset 0 (boot_scheduler boot) bottom sz"
  have f0: "thread_blocks ?s0 = [boot]" "bootstrap_thread ?s0 = boot" "length (cpus ?s0) = 1"
      "current_thread 0 ?s0 = Some boot" "\<not> context_switching (cpus ?s0 ! 0)" "idle_thread 0 ?s0 = None"
      "threads ?s0 boot = bootstrap_block 0 bottom sz"
    by (simp_all add: scheduler_reset_def boot_scheduler_def)
  obtain t s1 where cr: "create_thread_block 0 ?s0 (Some ''idle'') THREAD_PRIORITY_BACKGROUND (Some b) st = Some (t, s1)"
    using init by (cases "create_thread_block 0 ?s0 (Some ''idle'') THREAD_PRIORITY_BACKGROUND (Some b) st")
      (auto simp: scheduler_init_def thread_create_with_priority_def)
  have "b \<notin> set (thread_blocks ?s0)" using b(1) f0(1) by simp
  note C = created_block [OF cr this b(2)]
  then obtain th where nb: "new_block ?s0 b th s1" by blast
  have pr: "base_priority (threads s1 b) = THREAD_PRIORITY_BACKGROUND"
      "effective_priority (threads s1 b) = THREAD_PRIORITY_BACKGROUND"
    using cr by (auto simp: create_thread_block_def thread_prepare_context_def Let_def new_thread_def
        split: if_splits option.splits)
  have f1: "thread_blocks s1 = [b, boot]" "threads s1 = (threads ?s0)(b := th)" "bootstrap_thread s1 = boot"
    using nb f0 by (simp_all add: new_block_def)
  have ok1: "sched_ok s1 (\<lambda>_. []) []" by (rule new_block_ok [OF nb reset_ok C(3)])
  have st: "b \<in> set (thread_blocks s1)" "t_state (threads s1 b) = THREAD_STATE_READY"
    "running_cpu (threads s1 b) = THREAD_CPU_NONE" "\<not> queued (threads s1 b)" "\<not> sleeping (threads s1 b)"
    "rested s1 b"
    using nb by (auto simp: new_block_def rested_def)
  have ni: "\<not> is_idle_thread s1 b"
    using f0(3,6) by (auto simp: is_idle_thread_def list_ex_length C(3))
  have c1: "0 < length (cpus s1)" using f0(3) C(3) by simp
  have fr: "free_thread s1 b" using free_of_state [OF ok1 st(4,5)] st ni by simp
  let ?s2 = "scheduler_update_runnable_peak 0 (queue_append s1 b)"
  let ?s3 = "scheduler_remove_queued_locked ?s2 b"
  note E = enqueue_ok [OF ok1 c1 st(1) fr st(2,3) pr(2)]
  have s: "s = upd_thread b (\<lambda>x. x\<lparr>t_state := THREAD_STATE_READY, running_cpu := THREAD_CPU_NONE\<rparr>)
      (upd_cpu 0 (\<lambda>x. x\<lparr>cpu_idle_thread := Some b\<rparr>) ?s3)"
    using init by (simp add: scheduler_init_def thread_create_with_priority_def cr C(1) E(1) remove_queued_upd_cpu)
  have ok2: "sched_ok ?s2 ((\<lambda>_. [])(THREAD_PRIORITY_BACKGROUND := [b])) []" using E(2) by simp
  have q: "queued (threads ?s2 b)" using lists_wfD(4) [OF sched_okD(1) [OF ok2], of b] E(3) by auto
  have ok3: "sched_ok ?s3 (\<lambda>_. []) []" using remove_queued_ok [OF ok2 q, of THREAD_PRIORITY_BACKGROUND] pr by (simp add: fun_upd_idem)
  have nq: "\<not> queued (threads ?s3 b)" using lists_wfD(4) [OF sched_okD(1) [OF ok3], of b] by simp
  have s4: "s = upd_cpu 0 (\<lambda>x. x\<lparr>cpu_idle_thread := Some b\<rparr>) ?s3"
    unfolding s by (rule upd_thread_id) (use st(2,3) in \<open>simp flip: kernel_thread.surjective\<close>)
  have "sched_ok s (\<lambda>_. []) []"
    unfolding s4 by (rule sched_ok_set_idle [OF ok3]) (use c1 st(1,2) pr nq in simp_all)
  moreover have "live s1 boot" "\<not> context_switch_pending (threads s1 boot)"
    using b(1) by (simp_all add: f1(2) f0(7) live_def bootstrap_block_def zero_thread_def)
  ultimately show ?thesis
    using f0 f1 b(1) C(3) st(6) sched_goodI
    by (auto simp: booted_def s4 live_def rested_def frame_ok_def)
qed

lemma booted_machine:
  assumes bt: "booted boot b s" and init: "cpu_init_bsp d i tps mem gs s = (True, s')"
  shows "machine_ok (machine_of s')"
proof -
  let ?x = "cpu_record_reset True True (cpus s ! 0)"
  note T = cpu_init_bsp_table [OF init]
  have B: "sched_good s" "thread_blocks s = [b, boot]" "boot \<noteq> b" "bootstrap_thread s = boot"
      "current_thread 0 s = Some boot" "idle_thread 0 s = Some b" "live s boot" "rested s b"
      "\<not> context_switch_pending (threads s boot)" "\<not> context_switching (cpus s ! 0)" "length (cpus s) = 1"
    using bt by (auto simp: booted_def)
  have n: "length (cpus s') = length tps" using T by simp
  obtain rq sl where sok: "sched_ok s rq sl" using B(1) by (auto simp: sched_good_def)
  have x0: "cpus s' ! 0 = ?x" by (simp add: T(1))
  have xi: "cpus s' ! j = cpu_record_reset False False zero_cpu_local"
    if "0 < j" "j < length tps" for j
    using that by (simp add: T(1))
  have rest: "threads s' = threads s" "ready_queues s' = ready_queues s"
      "sleeping_threads s' = sleeping_threads s" "thread_blocks s' = thread_blocks s"
      "bootstrap_thread s' = bootstrap_thread s"
    by (simp_all add: T(1))
  have "sched_ok s' rq sl"
  proof (rule sched_okI)
    show "lists_wf s' rq sl"
      using sched_okD(1) [OF sok] unfolding lists_wf_def ready_repr_def rest .
    show "length (cpus s') < 2 ^ 32 - 1" using T(3) n by (simp add: CPU_MAX_COUNT_def)
    fix j assume j: "j < length (cpus s')"
    have z: "0 < length (cpus s)" using B(11) by simp
    show "current_ok s' j"
      using sched_okD(7) [OF sok z] B(5) j n x0 xi
      by (cases "j = 0") (simp_all add: current_ok_def Let_def rest cpu_record_reset_def zero_cpu_local_def)
    show "idle_ok s' j"
      using sched_okD(8) [OF sok z] B(6) j n x0 xi
      by (cases "j = 0") (simp_all add: idle_ok_def Let_def rest cpu_record_reset_def zero_cpu_local_def)
  qed (use sched_okD(3-6) [OF sok] in \<open>auto simp: rest queued_ok_def sleeper_ok_def\<close>)
  then have "sched_good s'" by (rule sched_goodI)
  moreover have cl: "claims (machine_of s') j = (if j = 0 then {boot} else {})" if "j < length tps" for j
    using that x0 xi B(5) by (auto simp: claims_def machine_of_def cpu_record_reset_def zero_cpu_local_def)
  moreover have "phase_ok s' j Executing" if "j < length tps" for j
    using that x0 xi B(5,7,9,10)
    by (cases "j = 0") (auto simp: cpu_record_reset_def zero_cpu_local_def live_def rest)
  moreover have "idle_pinned (machine_of s') j" if "j < length tps" for j
    using that x0 xi B cl n
    by (cases "j = 0") (auto simp: idle_pinned_def machine_of_def rest cpu_record_reset_def zero_cpu_local_def)
  moreover have "rested s' b" using B(8) by (simp add: rested_def rest)
  ultimately show ?thesis
    using n T(2) B(2-4)
    by (auto simp: machine_ok_def claims_apart_def owed_ok_def machine_of_def rest)
qed

lemma machine_start_ok:
  assumes "machine_start m"
  shows "machine_ok m"
proof -
  obtain boot bottom sz b st i tps s s' where b: "b \<noteq> boot" "fresh_stack st THREAD_KERNEL_STACK_SIZE"
    and s: "scheduler_init 0 (boot_scheduler boot) bottom sz (Some b) st = (True, s)"
      "cpu_init_bsp True i tps True True s = (True, s')" "m = machine_of s'"
    using assms unfolding machine_start_def boot_machine_def
    by (elim exE conjE) (simp split: prod.splits bool.splits if_splits)
  show ?thesis unfolding s(3) by (rule booted_machine [OF scheduler_init_booted [OF s(1) b] s(2)])
qed

subsection \<open>Every step keeps the invariant\<close>

lemma unblock_keeps:
  assumes "sched_good s" "c < length (cpus s)" "t \<in> set (thread_blocks s)"
  shows "keeps s (snd (scheduler_unblock c s (Some t)))"
proof (cases "t_state (threads s t) = THREAD_STATE_BLOCKED")
  case True
  from unblock_ok [OF assms this] show ?thesis by (metis snd_conv)
next
  case False
  then show ?thesis using keeps_refl [OF assms(1)] by (simp add: unblock_refuses)
qed

text \<open>The events that leave every CPU with the thread it runs, and those that may begin a switch.\<close>

fun keeping :: "event \<Rightarrow> bool" where
  "keeping (Unblock c t) = True" | "keeping (Enqueue c t) = True" | "keeping (Global_Tick c) = True"
| "keeping (Timer_Tick c) = True" | "keeping (Syscall_Enter c) = True" | "keeping (Syscall_Leave c irq) = True"
| "keeping (Terminate_Thread c t) = True" | "keeping _ = False"

fun switching :: "event \<Rightarrow> bool" where
  "switching (Block c) = True" | "switching (Yield c) = True" | "switching (Sleep c n) = True"
| "switching (Terminate c) = True" | "switching (Preempt c u rip flags) = True"
| "switching (Preempt_Trampoline c) = True" | "switching _ = False"

lemma keeping_ok:
  assumes ok: "machine_ok m" and c: "event_cpu e < length (cpus (sched m))" and en: "enabled m e" and k: "keeping e"
  shows "machine_ok (exec e m)"
proof -
  note g = machine_okD(2) [OF ok] and keep = machine_ok_keeps [OF ok c]
  show ?thesis
  proof (cases e)
    case (Unblock c t)
    then show ?thesis using keep unblock_keeps [OF g, of c t] c en by simp
  next
    case (Enqueue c t)
    then show ?thesis using keep enqueue_keeps [OF g, of c t] c en by simp
  next
    case (Global_Tick c)
    then show ?thesis using keep global_tick_ok [OF g, of c] c by simp
  next
    case (Syscall_Leave c irq)
    then show ?thesis using keep syscall_leave_keeps [OF g, of c irq] ok by (simp split: option.split)
  next
    case (Terminate_Thread c t)
    then show ?thesis using keep terminate_thread_ok(1) [OF g, of t] ok by (simp split: option.split)
  qed (use k keep timer_tick_keeps [OF g] syscall_enter_keeps [OF g] in auto)
qed

lemma switching_ok:
  assumes ok: "machine_ok m" and c: "event_cpu e < length (cpus (sched m))" and en: "enabled m e" and k: "switching e"
    and pat: "patient m (exec e m)"
  shows "machine_ok (exec e m)"
proof (cases e)
  case (Block c)
  then show ?thesis using good_outcome_ok [OF ok _ block_ok(1) [OF ok]] c en pat by auto
next
  case (Yield c)
  then show ?thesis using good_outcome_ok [OF ok _ yield_ok [OF ok]] c en pat by auto
next
  case (Sleep c n)
  then show ?thesis using good_outcome_ok [OF ok _ sleep_ok(1) [OF ok]] c en pat by auto
next
  case (Terminate c)
  then show ?thesis using good_outcome_ok [OF ok _ terminate_ok(1) [OF ok]] c en pat by auto
next
  case (Preempt c u rip flags)
  obtain p s' where r: "scheduler_prepare_preemption c (sched m) u rip flags = (p, s')" by fastforce
  show ?thesis
    using Preempt good_outcome_ok [OF ok] machine_ok_keeps [OF ok, of c s'] preempt_ok [OF ok _ _ _ r] c en pat r
    by (cases p) auto
next
  case (Preempt_Trampoline c)
  then show ?thesis
    using good_outcome_ok [OF ok] trampoline_ok [OF ok, of c] c en pat by (auto split: prod.splits)
qed (use k in auto)

lemma machine_step_ok:
  assumes ok: "machine_ok m" and st: "machine_step m m'"
  shows "machine_ok m'"
proof -
  obtain e where c: "event_cpu e < length (cpus (sched m))" and en: "enabled m e" and m': "m' = exec e m"
    and pat: "patient m (exec e m)"
    using st by (auto simp: machine_step_def elim!: mstep.cases)
  have "machine_ok (exec e m)"
  proof (cases e)
    case (Saved c rsp flags)
    then show ?thesis using saved_ok [OF ok, of c _ _ rsp flags] c en by (auto split: cpu_phase.splits)
  next
    case (Left c)
    then show ?thesis using left_ok [OF ok, of c] c en by (auto split: cpu_phase.splits)
  next
    case (Complete c)
    then show ?thesis using complete_ok [OF ok, of c] c en by (auto split: option.splits list.splits simp: neq_Nil_conv)
  next
    case (Create c n p b st)
    then show ?thesis using create_ok [OF ok, of c b st n p] c en by simp
  next
    case (Create_Suspended c n p b st)
    then show ?thesis using create_suspended_ok [OF ok, of c b st n p] c en by simp
  next
    case (Destroy c t)
    then show ?thesis using destroy_ok [OF ok, of c t] c ok by (simp split: option.split)
  next
    case (Prepare_Idle c i base sz b)
    then show ?thesis using prepare_idle_ok [OF ok, of c b base sz i] c en by simp
  next
    case (Start c)
    then show ?thesis using start_ok [OF ok, of c] c en pat by simp
  qed (use keeping_ok [OF ok c en] switching_ok [OF ok c en _ pat] in simp_all)
  then show ?thesis unfolding m' .
qed

interpretation mach: inductive_invariant machine_start machine_step machine_ok
  by unfold_locales (rule machine_start_ok, assumption, rule machine_step_ok)

end
