(* ===== verification/Machine_Theorems.thy ===== *)
theory Machine_Theorems
  imports Machine_Boot
begin

section \<open>What every run of the machine has\<close>

text \<open>
  The properties of the scheduler over every run from boot, and concrete runs that are executed: a
  list of events runs only when each of them is enabled, and \<open>careful\<close> runs also have no thread become
  current while its own switch is pending.
\<close>

subsection \<open>Executable runs\<close>

fun run :: "(machine \<Rightarrow> machine \<Rightarrow> bool) \<Rightarrow> event list \<Rightarrow> machine \<Rightarrow> machine option" where
  "run ok [] m = Some m"
| "run ok (e # es) m = (if event_cpu e < length (cpus (sched m)) \<and> enabled m e \<and> ok m (exec e m)
     then run ok es (exec e m) else None)"

lemma patient_code [code]:
  "patient m m' \<longleftrightarrow> (\<forall>i<length (cpus (sched m)). case current_thread i (sched m') of None \<Rightarrow> True
     | Some t \<Rightarrow> current_thread i (sched m) = Some t \<or> \<not> context_switch_pending (threads (sched m) t))"
  by (auto simp: patient_def split: option.splits)

lemma run_reach:
  assumes "run ok es m = Some m'" "\<And>x y. mstep x y \<Longrightarrow> ok x y \<Longrightarrow> R x y" "reach S R m"
  shows "reach S R m'"
  using assms
proof (induction es arbitrary: m)
  case (Cons e es)
  then have "R m (exec e m)" by (auto split: if_splits intro: mstep.mstep)
  then have "reach S R (exec e m)" by (rule reach_step [OF Cons.prems(3)])
  with Cons show ?case by (auto split: if_splits)
qed simp

text \<open>A machine with two CPUs; with the second one started; with a worker thread.\<close>

definition two_cpus :: machine where
  "two_cpus = the (boot_machine 1 0x10000 0x4000 2 0x20000 0 [\<lparr>acpi_usable = True, acpi_bsp = True\<rparr>,
     \<lparr>acpi_usable = True, acpi_bsp = False\<rparr>])"



lemma machine_startI:
  "block \<noteq> boot \<Longrightarrow> fresh_stack stack THREAD_KERNEL_STACK_SIZE \<Longrightarrow>
    boot_machine boot bottom sz block stack bsp topology = Some m \<Longrightarrow> machine_start m"
  unfolding machine_start_def by blast

lemma two_cpus_reach: "reach machine_start machine_step two_cpus"
proof (rule reach_start)
  let ?m = "boot_machine 1 0x10000 0x4000 2 0x20000 0 [\<lparr>acpi_usable = True, acpi_bsp = True\<rparr>,
     \<lparr>acpi_usable = True, acpi_bsp = False\<rparr>]"
  have "?m \<noteq> None" by code_simp
  then have "?m = Some two_cpus" by (simp add: two_cpus_def)
  then show "machine_start two_cpus" by (rule machine_startI [rotated 2]) code_simp+
qed

lemma step_reach:
  assumes "reach machine_start machine_step m"
    and "event_cpu e < length (cpus (sched m)) \<and> enabled m e \<and> patient m (exec e m)"
  shows "reach machine_start machine_step (exec e m)"
proof (rule reach_step [OF assms(1)])
  show "machine_step m (exec e m)" using assms(2) unfolding machine_step_def by (blast intro: mstep.mstep)
qed



subsection \<open>Safety\<close>







subsection \<open>Progress\<close>




definition boot_blocks :: machine where "boot_blocks = exec (Block 0) two_cpus"

lemma boot_blocks_reach: "reach machine_start machine_step boot_blocks"
  unfolding boot_blocks_def by (rule step_reach, rule two_cpus_reach) code_simp






subsection \<open>Selection\<close>





subsection \<open>Bringing a CPU online too early\<close>

text \<open>C7. A CPU that is marked online before it has a current thread, as \<^verbatim>\<open>smp_ap_entry\<close> does before it calls
  \<^verbatim>\<open>scheduler_start_cpu\<close>, makes the scheduler's validation fail on every CPU, and until it starts no
  thread can be woken: \<^verbatim>\<open>scheduler_unblock\<close> refuses.\<close>

theorem online_before_start_stops_wakeups:
  assumes "reach machine_start machine_step m" "i < length (cpus (sched m))"
    and "cpu_present (cpus (sched m) ! i)" "current_thread i (sched m) = None"
  shows "\<not> scheduler_validate_locked c (cpu_mark_online i (sched m)) \<and>
    \<not> fst (scheduler_unblock c (cpu_mark_online i (sched m)) (Some t))"
proof -
  note ok = mach.reach_inv [OF assms(1)]
  have ns: "\<not> context_switching (cpus (sched m) ! i)"
    using machine_okD(4) [OF ok assms(2)] assms(4) by (cases "phase m i") auto
  have bad: "\<not> scheduler_validate_locked c s" if "cpus s = cpus (cpu_mark_online i (sched m))" for s
  proof -
    have "i < length (cpus s)" "\<not> cpu_state_valid s i"
      using that assms(2-4) ns by (simp_all add: cpu_mark_online_def cpu_state_valid_def Let_def)
    then show ?thesis by (auto simp: scheduler_validate_locked_def list_all_iff)
  qed
  obtain b s2 where e: "scheduler_enqueue_locked c
      (upd_thread t wake_priority (sleeping_remove (cpu_mark_online i (sched m)) t)) t = (b, s2)" by fastforce
  then have "\<not> b" by (auto simp: scheduler_enqueue_locked_def Let_def bad split: if_splits)
  then show ?thesis using bad e by (simp add: scheduler_unblock_def Let_def)
qed

theorem online_before_start_stops_wakeups_witness:
  "\<not> scheduler_validate_locked 0 (cpu_mark_online 1 (sched boot_blocks)) \<and>
    \<not> fst (scheduler_unblock 0 (cpu_mark_online 1 (sched boot_blocks)) (Some 1))"
  by (rule online_before_start_stops_wakeups [OF boot_blocks_reach]) code_simp+

end
