(* ===== verification/Services.thy ===== *)
theory Services
  imports Identity
begin

section \<open>The kernel's table of system services\<close>

text \<open>
  \<^verbatim>\<open>kernel/src/service.c\<close>: which executable, privileges and endpoint name belong to a service id.
\<close>

definition MG_SERVICE_SESSIOND :: u32 where "MG_SERVICE_SESSIOND = 1"
definition MG_SERVICE_SPROUT :: u32 where "MG_SERVICE_SPROUT = 2"
definition MG_SERVICE_NETWORKD :: u32 where "MG_SERVICE_NETWORKD = 3"
definition MG_SERVICE_DEVICED :: u32 where "MG_SERVICE_DEVICED = 4"
definition MG_SERVICE_LOGIND :: u32 where "MG_SERVICE_LOGIND = 5"
definition MG_SERVICE_LOGD :: u32 where "MG_SERVICE_LOGD = 6"
definition MG_SERVICE_VOLUMED :: u32 where "MG_SERVICE_VOLUMED = 7"

lemmas service_ids = MG_SERVICE_SESSIOND_def MG_SERVICE_SPROUT_def MG_SERVICE_NETWORKD_def
  MG_SERVICE_DEVICED_def MG_SERVICE_LOGIND_def MG_SERVICE_LOGD_def MG_SERVICE_VOLUMED_def

record service_definition =
  sd_id :: u32
  sd_name :: string
  sd_path :: string
  sd_privileges :: u32
  sd_endpoint_name :: "string option"

definition service_definitions :: "service_definition list" where
  "service_definitions = [
     \<lparr>sd_id = MG_SERVICE_SPROUT, sd_name = ''sprout'', sd_path = ''/core/sprout'',
      sd_privileges = IDENTITY_PRIVILEGE_MASK IDENTITY_PRIVILEGE_MANAGE_SERVICES,
      sd_endpoint_name = Some ''sprout''\<rparr>,
     \<lparr>sd_id = MG_SERVICE_SESSIOND, sd_name = ''sessiond'', sd_path = ''/core/sessiond'',
      sd_privileges = IDENTITY_PRIVILEGE_MASK IDENTITY_PRIVILEGE_MANAGE_SESSIONS,
      sd_endpoint_name = Some ''session''\<rparr>,
     \<lparr>sd_id = MG_SERVICE_LOGIND, sd_name = ''logind'', sd_path = ''/core/logind'',
      sd_privileges = IDENTITY_PRIVILEGE_MASK IDENTITY_PRIVILEGE_MANAGE_SESSIONS,
      sd_endpoint_name = None\<rparr>,
     \<lparr>sd_id = MG_SERVICE_NETWORKD, sd_name = ''networkd'', sd_path = ''/core/networkd'',
      sd_privileges = IDENTITY_PRIVILEGE_MASK IDENTITY_PRIVILEGE_MANAGE_NETWORK OR
        IDENTITY_PRIVILEGE_MASK IDENTITY_PRIVILEGE_MANAGE_CONFIGURATION,
      sd_endpoint_name = Some ''network''\<rparr>,
     \<lparr>sd_id = MG_SERVICE_DEVICED, sd_name = ''deviced'', sd_path = ''/core/deviced'',
      sd_privileges = IDENTITY_PRIVILEGE_MASK IDENTITY_PRIVILEGE_MANAGE_DEVICES,
      sd_endpoint_name = Some ''device''\<rparr>,
     \<lparr>sd_id = MG_SERVICE_VOLUMED, sd_name = ''volumed'', sd_path = ''/core/volumed'',
      sd_privileges = IDENTITY_PRIVILEGE_MASK IDENTITY_PRIVILEGE_MANAGE_DEVICES OR
        IDENTITY_PRIVILEGE_MASK IDENTITY_PRIVILEGE_MANAGE_STORAGE,
      sd_endpoint_name = Some ''volume''\<rparr>,
     \<lparr>sd_id = MG_SERVICE_LOGD, sd_name = ''logd'', sd_path = ''/core/logd'',
      sd_privileges = 0, sd_endpoint_name = Some ''log''\<rparr>]"

definition service_definition_lookup :: "u32 \<Rightarrow> service_definition option" where
  "service_definition_lookup i = find (\<lambda>d. sd_id d = i) service_definitions"

text \<open>No two services share an id or an endpoint name, so the lookup names the one definition there is.\<close>

lemma service_ids_distinct: "distinct (map sd_id service_definitions)"
  by code_simp

lemma service_endpoints_distinct:
  "distinct (filter (\<lambda>n. n \<noteq> None) (map sd_endpoint_name service_definitions))"
  by code_simp

lemma service_definition_lookup_iff:
  "service_definition_lookup i = Some d \<longleftrightarrow> d \<in> set service_definitions \<and> sd_id d = i"
proof
  assume "service_definition_lookup i = Some d"
  then show "d \<in> set service_definitions \<and> sd_id d = i"
    by (auto simp: service_definition_lookup_def find_Some_iff)
next
  assume d: "d \<in> set service_definitions \<and> sd_id d = i"
  then obtain e where e: "service_definition_lookup i = Some e"
    by (cases "service_definition_lookup i") (auto simp: service_definition_lookup_def find_None_iff)
  then have "e \<in> set service_definitions" "sd_id e = i"
    by (auto simp: service_definition_lookup_def find_Some_iff)
  with d service_ids_distinct have "e = d" by (metis eq_key_imp_eq_value distinct_map inj_onD)
  with e show "service_definition_lookup i = Some d" by simp
qed

end
