(* ===== verification/Ipc.thy ===== *)
theory Ipc
  imports Ipc_Queue Handles Services Scheduler_Wake
begin

section \<open>Inter-process communication\<close>

text \<open>
  \<^verbatim>\<open>kernel/src/ipc.c\<close>: named endpoints owned by system services, a pool of synchronous requests, event
  subscriptions, and the cleanup when a process exits. A request is its index in the pool, an endpoint
  and a request context the address of the object they embed. The list of endpoints is the list of
  its nodes. A payload array is the list of its bytes up to the length; the rest is zero. Pointers
  that the callers never pass as null (the process and the output arguments) are values.

  Each definition is one critical section under the IPC lock, or the code between two of them; the
  blocking calls are split where they give up the lock (\<open>ipc_request_send\<close>, \<open>ipc_request_poll\<close>,
  \<open>ipc_receive_poll\<close>, \<open>ipc_receive_deliver\<close>). Threads are woken through the scheduler's own
  \<^const>\<open>scheduler_unblock\<close>, handles and references are those of the handle tables.
\<close>

subsection \<open>Data\<close>

definition IPC_MAX_ENDPOINTS :: nat where "IPC_MAX_ENDPOINTS = 8"
definition IPC_MAX_REQUESTS :: nat where "IPC_MAX_REQUESTS = 32"
definition MG_IPC_PROTOCOL_VERSION :: u16 where "MG_IPC_PROTOCOL_VERSION = 1"
definition MG_IPC_SERVICE_NAME_MAX :: nat where "MG_IPC_SERVICE_NAME_MAX = 32"
definition MG_IPC_MESSAGE_PAYLOAD_MAX :: u32 where "MG_IPC_MESSAGE_PAYLOAD_MAX = 1008"
definition MG_IPC_EVENT_MESSAGE :: u16 where "MG_IPC_EVENT_MESSAGE = 0xfff0"
definition MG_EVENT_PROTOCOL_VERSION :: u16 where "MG_EVENT_PROTOCOL_VERSION = 1"
definition MG_EVENT_QUEUE_OVERFLOW :: u16 where "MG_EVENT_QUEUE_OVERFLOW = 11"
definition MG_EVENT_FLAG_OVERFLOW :: u32 where "MG_EVENT_FLAG_OVERFLOW = 1"
definition MG_EVENT_NAME_MAX :: nat where "MG_EVENT_NAME_MAX = 32"
definition MG_EVENT_CLASS_DEVICE :: u32 where "MG_EVENT_CLASS_DEVICE = 1"
definition MG_EVENT_CLASS_NETWORK :: u32 where "MG_EVENT_CLASS_NETWORK = 2"
definition MG_EVENT_CLASS_BLOCK :: u32 where "MG_EVENT_CLASS_BLOCK = 4"
definition MG_EVENT_CLASS_USB :: u32 where "MG_EVENT_CLASS_USB = 8"
definition REQUESTER_NAME_MAX :: nat where "REQUESTER_NAME_MAX = 32"

datatype ipc_request_state =
    IPC_REQUEST_FREE | IPC_REQUEST_PENDING | IPC_REQUEST_DELIVERED | IPC_REQUEST_REPLIED | IPC_REQUEST_FAILED

record mg_ipc_message =
  msg_version :: u16
  msg_type :: u16
  payload_length :: u32
  msg_request_id :: u64
  msg_payload :: "u8 list"

record ipc_request =
  rq_allocated :: bool
  rq_id :: u64
  rq_state :: ipc_request_state
  rq_endpoint :: ptr
  client_process :: ptr
  client_thread :: ptr
  client_active :: bool
  client_blocked :: bool
  context_live :: bool
  authorization_claimed :: bool
  requester_pid :: u64
  requester_session_id :: u64
  requester_service_id :: u32
  requester_system_service :: bool
  request_type :: u16
  request_length :: u32
  request_payload :: "u8 list"
  reply_type :: u16
  reply_length :: u32
  reply_payload :: "u8 list"
  requester_credentials :: process_credentials
  requester_name :: string

definition zero_credentials :: process_credentials where
  "zero_credentials = \<lparr>cred_uid = 0, cred_role = 0, cred_service_privileges = 0\<rparr>"

definition zero_request :: ipc_request where
  "zero_request = \<lparr>rq_allocated = False, rq_id = 0, rq_state = IPC_REQUEST_FREE, rq_endpoint = None,
     client_process = None, client_thread = None, client_active = False, client_blocked = False,
     context_live = False, authorization_claimed = False, requester_pid = 0, requester_session_id = 0,
     requester_service_id = 0, requester_system_service = False, request_type = 0, request_length = 0,
     request_payload = [], reply_type = 0, reply_length = 0, reply_payload = [],
     requester_credentials = zero_credentials, requester_name = []\<rparr>"

record ipc_request_object =
  ctx_request :: "nat option"
  ctx_owner :: addr

text \<open>What a service receives.\<close>

datatype delivery_kind = MG_IPC_DELIVERY_REQUEST | MG_IPC_DELIVERY_EVENT | MG_IPC_DELIVERY_EVENT_OVERFLOW

record mg_ipc_requester =
  rr_pid :: u64
  rr_uid :: u32
  rr_role :: u32
  rr_session_id :: u64
  rr_service_id :: u32
  rr_service_privileges :: u32
  rr_system_service :: bool
  rr_process_name :: string

datatype received =
    Received_Request mg_ipc_message mg_ipc_requester u32
  | Received_Event delivery_kind mg_event

text \<open>The state IPC works on: its own data, the kernel's objects and processes, and the scheduler.\<close>

record kernel =
  endpoints :: "addr \<Rightarrow> ipc_endpoint"
  endpoint_list :: "addr list"
  request_pool :: "ipc_request list"
  endpoint_count :: nat
  next_request_id :: u64
  contexts :: "addr \<Rightarrow> ipc_request_object"
  k_objects :: objects
  k_processes :: "addr \<Rightarrow> process"
  k_identity :: identity_state
  k_sched :: scheduler

definition upd_endpoint :: "addr \<Rightarrow> (ipc_endpoint \<Rightarrow> ipc_endpoint) \<Rightarrow> kernel \<Rightarrow> kernel" where
  "upd_endpoint e f k = k\<lparr>endpoints := (endpoints k)(e := f (endpoints k e))\<rparr>"

definition upd_request :: "nat \<Rightarrow> (ipc_request \<Rightarrow> ipc_request) \<Rightarrow> kernel \<Rightarrow> kernel" where
  "upd_request r f k = k\<lparr>request_pool := (request_pool k)[r := f (request_pool k ! r)]\<rparr>"

definition upd_process :: "addr \<Rightarrow> (process \<Rightarrow> process) \<Rightarrow> kernel \<Rightarrow> kernel" where
  "upd_process p f k = k\<lparr>k_processes := (k_processes k)(p := f (k_processes k p))\<rparr>"

abbreviation req :: "kernel \<Rightarrow> nat \<Rightarrow> ipc_request" where "req k r \<equiv> request_pool k ! r"

subsection \<open>Names and messages\<close>

definition ipc_name_char :: "char \<Rightarrow> bool" where
  "ipc_name_char c \<longleftrightarrow> between CHR ''a'' CHR ''z'' c \<or> between CHR ''0'' CHR ''9'' c \<or>
     c = CHR ''_'' \<or> c = CHR ''-''"

definition ipc_name_valid :: "string option \<Rightarrow> bool" where
  "ipc_name_valid name = (case name of None \<Rightarrow> False
     | Some s \<Rightarrow> s \<noteq> [] \<and> between CHR ''a'' CHR ''z'' (hd s) \<and> list_all ipc_name_char (tl s) \<and>
         length s < MG_IPC_SERVICE_NAME_MAX)"

definition ipc_message_validate :: "mg_ipc_message option \<Rightarrow> mg_status" where
  "ipc_message_validate m = (case m of None \<Rightarrow> MG_ERR_BAD_ARGUMENT
     | Some msg \<Rightarrow>
         if msg_type msg = 0 \<or> payload_length msg > MG_IPC_MESSAGE_PAYLOAD_MAX then MG_ERR_BAD_ARGUMENT
         else if msg_version msg \<noteq> MG_IPC_PROTOCOL_VERSION then MG_ERR_PROTOCOL
         else MG_OK)"

subsection \<open>Requests\<close>

definition request_allocate_locked :: "kernel \<Rightarrow> (nat \<times> kernel) option" where
  "request_allocate_locked k =
     (case first_index (\<lambda>x. \<not> rq_allocated x) (request_pool k) of None \<Rightarrow> None
      | Some r \<Rightarrow> Some (r, upd_request r
          (\<lambda>_. zero_request\<lparr>rq_allocated := True, rq_state := IPC_REQUEST_PENDING\<rparr>) k))"

definition request_free :: "nat \<Rightarrow> kernel \<Rightarrow> kernel" where
  "request_free r k = (if \<not> rq_allocated (req k r) then k else upd_request r (\<lambda>_. zero_request) k)"

definition request_maybe_free :: "nat \<Rightarrow> kernel \<Rightarrow> kernel" where
  "request_maybe_free r k =
     (if \<not> rq_allocated (req k r) \<or> client_active (req k r) \<or> context_live (req k r) then k
      else request_free r k)"

definition request_wake_client :: "nat \<Rightarrow> nat \<Rightarrow> kernel \<Rightarrow> kernel" where
  "request_wake_client c r k =
     (if \<not> client_active (req k r) \<or> \<not> client_blocked (req k r) then k
      else (case client_thread (req k r) of None \<Rightarrow> k
        | Some t \<Rightarrow>
            let k1 = upd_request r (\<lambda>x. x\<lparr>client_blocked := False, client_thread := None\<rparr>) k in
            if t_state (threads (k_sched k1) t) = THREAD_STATE_BLOCKED
            then (case scheduler_unblock c (k_sched k1) (Some t) of
                (True, s) \<Rightarrow> k1\<lparr>k_sched := s\<rparr>
              | (False, s) \<Rightarrow> upd_request r (\<lambda>x. x\<lparr>client_blocked := True, client_thread := Some t\<rparr>)
                  (k1\<lparr>k_sched := s\<rparr>))
            else k1))"

definition request_fail :: "nat \<Rightarrow> nat \<Rightarrow> kernel \<Rightarrow> kernel" where
  "request_fail c r k =
     (if \<not> rq_allocated (req k r) \<or> rq_state (req k r) = IPC_REQUEST_REPLIED \<or>
         rq_state (req k r) = IPC_REQUEST_FAILED then k
      else request_maybe_free r
        (request_wake_client c r (upd_request r (\<lambda>x. x\<lparr>rq_state := IPC_REQUEST_FAILED\<rparr>) k)))"

definition request_context_destroy :: "nat \<Rightarrow> addr \<Rightarrow> kernel \<Rightarrow> kernel" where
  "request_context_destroy c a k = (case ctx_request (contexts k a) of None \<Rightarrow> k
     | Some r \<Rightarrow>
         if rq_allocated (req k r) then
           let k1 = upd_request r (\<lambda>x. x\<lparr>context_live := False\<rparr>) k;
               k2 = (if rq_state (req k1 r) = IPC_REQUEST_PENDING \<or> rq_state (req k1 r) = IPC_REQUEST_DELIVERED
                     then request_fail c r k1 else k1)
           in request_maybe_free r k2
         else k)"

text \<open>Running the destructor that a release reported; the other kinds of object are not IPC's.\<close>

definition run_destructor :: "nat \<Rightarrow> (addr \<times> destroy_fn option) option \<Rightarrow> kernel \<Rightarrow> kernel" where
  "run_destructor c d k = (case d of
       Some (a, Some destroy_fn.request_context_destroy) \<Rightarrow> request_context_destroy c a k
     | _ \<Rightarrow> k)"

subsection \<open>Endpoints\<close>

definition endpoint_allowed_for_process :: "process \<Rightarrow> string \<Rightarrow> u32 option" where
  "endpoint_allowed_for_process p name =
     (if \<not> system_service p then None
      else (case service_definition_lookup (service_id p) of None \<Rightarrow> None
        | Some d \<Rightarrow> if sd_endpoint_name d = Some name then Some (service_id p) else None))"

definition endpoint_find :: "kernel \<Rightarrow> string \<Rightarrow> ptr" where
  "endpoint_find k name =
     find (\<lambda>e. ep_live (endpoints k e) \<and> ep_name (endpoints k e) = name) (endpoint_list k)"

text \<open>The loop over the pool that fails the requests of an endpoint that goes away.\<close>

fun fail_requests :: "nat \<Rightarrow> addr \<Rightarrow> nat list \<Rightarrow> kernel \<Rightarrow> kernel" where
  "fail_requests c e [] k = k"
| "fail_requests c e (r # rs) k = fail_requests c e rs
     (if rq_allocated (req k r) \<and> rq_endpoint (req k r) = Some e
      then request_fail c r (upd_request r (\<lambda>x. x\<lparr>rq_endpoint := None\<rparr>) k) else k)"

definition endpoint_unregister_locked :: "nat \<Rightarrow> addr \<Rightarrow> kernel \<Rightarrow> kernel" where
  "endpoint_unregister_locked c e k =
     (if \<not> ep_live (endpoints k e) then k
      else let
          k1 = upd_endpoint e (\<lambda>x. x\<lparr>ep_live := False, receiver_waiter := None\<rparr>) k;
          k2 = k1\<lparr>endpoint_count := (if endpoint_count k1 \<noteq> 0 then endpoint_count k1 - 1 else 0),
                  endpoint_list := remove1 e (endpoint_list k1)\<rparr>;
          k3 = fail_requests c e [0..<IPC_MAX_REQUESTS] k2
        in (case object_release (k_objects k3) (Some e) of (h, d) \<Rightarrow>
             run_destructor c d (k3\<lparr>k_objects := h\<rparr>)))"

definition ipc_init :: "kernel \<Rightarrow> kernel" where
  "ipc_init k = k\<lparr>endpoint_list := [], endpoint_count := 0, next_request_id := 1,
     request_pool := replicate IPC_MAX_REQUESTS zero_request\<rparr>"

definition new_endpoint :: "addr \<Rightarrow> string \<Rightarrow> u32 \<Rightarrow> ipc_endpoint" where
  "new_endpoint p name sid = \<lparr>ep_name = take (MG_IPC_SERVICE_NAME_MAX - 1) name, ep_owner = p,
     ep_service_id = sid, ep_live = True, ep_queue = replicate IPC_MAX_QUEUE_DEPTH zero_delivery,
     queue_head = 0, queue_tail = 0, queue_count = 0, event_classes = 0, event_overflow = False,
     receiver_waiter = None\<rparr>"

text \<open>\<open>block\<close> is what \<^verbatim>\<open>kmalloc\<close> returned for the endpoint.\<close>

definition ipc_service_register ::
    "nat \<Rightarrow> kernel \<Rightarrow> addr \<Rightarrow> string option \<Rightarrow> ptr \<Rightarrow> (mg_status + u32) \<times> kernel" where
  "ipc_service_register c k p name block =
     (if \<not> ipc_name_valid name then (Inl MG_ERR_BAD_ARGUMENT, k)
      else (case endpoint_allowed_for_process (k_processes k p) (the name) of
          None \<Rightarrow> (Inl MG_ERR_PRIVILEGE_REQUIRED, k)
        | Some sid \<Rightarrow> (case block of None \<Rightarrow> (Inl MG_ERR_NO_MEMORY, k)
          | Some e \<Rightarrow>
              if endpoint_find k (the name) \<noteq> None then (Inl MG_ERR_ALREADY_EXISTS, k)
              else if endpoint_count k \<ge> IPC_MAX_ENDPOINTS then (Inl MG_ERR_NO_MEMORY, k)
              else let
                  k1 = k\<lparr>endpoints := (endpoints k)(e := new_endpoint p (the name) sid),
                    endpoint_list := e # endpoint_list k, endpoint_count := endpoint_count k + 1,
                    k_objects := (k_objects k)(e \<mapsto> object_init OBJECT_TYPE_IPC_ENDPOINT (Some endpoint_destroy))\<rparr>
                in (case process_handle_install (k_objects k1) (k_processes k1 p) (Some e)
                      (OBJECT_RIGHT_READ OR OBJECT_RIGHT_WRITE) of
                      None \<Rightarrow> (Inl MG_ERR_NO_MEMORY, endpoint_unregister_locked c e k1)
                    | Some (h, p', hnd) \<Rightarrow>
                        (Inr hnd, (upd_process p (\<lambda>_. p') k1)\<lparr>k_objects := h\<rparr>)))))"

definition ipc_service_lookup :: "kernel \<Rightarrow> addr \<Rightarrow> string option \<Rightarrow> (mg_status + u32) \<times> kernel" where
  "ipc_service_lookup k p name =
     (if \<not> ipc_name_valid name then (Inl MG_ERR_BAD_ARGUMENT, k)
      else (case endpoint_find k (the name) of
          None \<Rightarrow> (Inl MG_ERR_SERVICE_UNAVAILABLE, k)
        | Some e \<Rightarrow> (case process_handle_install (k_objects k) (k_processes k p) (Some e) OBJECT_RIGHT_WRITE of
              None \<Rightarrow> (Inl MG_ERR_NO_MEMORY, k)
            | Some (h, p', hnd) \<Rightarrow> (Inr hnd, (upd_process p (\<lambda>_. p') k)\<lparr>k_objects := h\<rparr>))))"

subsection \<open>Sending a request\<close>

definition wake_receiver :: "nat \<Rightarrow> addr \<Rightarrow> kernel \<Rightarrow> kernel" where
  "wake_receiver c e k = (case receiver_waiter (endpoints k e) of None \<Rightarrow> k
     | Some t \<Rightarrow> (case scheduler_unblock c (k_sched k) (Some t) of
           (True, s) \<Rightarrow> upd_endpoint e (\<lambda>x. x\<lparr>receiver_waiter := None\<rparr>) (k\<lparr>k_sched := s\<rparr>)
         | (False, s) \<Rightarrow> k\<lparr>k_sched := s\<rparr>))"

definition next_id :: "kernel \<Rightarrow> u64 \<times> kernel" where
  "next_id k = (let i = next_request_id k; n = i + 1 in
     if i = 0 then (n, k\<lparr>next_request_id := n + 1\<rparr>) else (i, k\<lparr>next_request_id := n\<rparr>))"

definition fill_request ::
    "kernel \<Rightarrow> nat \<Rightarrow> addr \<Rightarrow> addr \<Rightarrow> process_credentials \<Rightarrow> mg_ipc_message \<Rightarrow> u64 \<Rightarrow> ipc_request \<Rightarrow> ipc_request" where
  "fill_request k c p e cred msg i x = x\<lparr>rq_endpoint := Some e, client_process := Some p,
     client_thread := current_thread c (k_sched k), client_active := True,
     requester_pid := pid (k_processes k p), requester_session_id := session_id (k_processes k p),
     requester_service_id := service_id (k_processes k p),
     requester_system_service := system_service (k_processes k p),
     request_type := msg_type msg, request_length := payload_length msg, requester_credentials := cred,
     requester_name := take (REQUESTER_NAME_MAX - 1) (proc_name (k_processes k p)),
     request_payload := take (unat (payload_length msg)) (msg_payload msg), rq_id := i\<rparr>"

definition ipc_request_send ::
    "nat \<Rightarrow> kernel \<Rightarrow> addr \<Rightarrow> u32 \<Rightarrow> mg_ipc_message option \<Rightarrow> (mg_status + nat) \<times> kernel" where
  "ipc_request_send c k p hnd m =
     (if m = None then (Inl MG_ERR_BAD_ARGUMENT, k)
      else if ipc_message_validate m \<noteq> MG_OK then (Inl (ipc_message_validate m), k)
      else (case process_handle_lookup (k_objects k) (k_processes k p) hnd OBJECT_TYPE_IPC_ENDPOINT OBJECT_RIGHT_WRITE of
          None \<Rightarrow> (Inl MG_ERR_INVALID_HANDLE, k)
        | Some e \<Rightarrow> (case process_get_credentials (k_identity k) (k_processes k p) of
            None \<Rightarrow> (Inl MG_ERR_ACCESS_DENIED, k)
          | Some cred \<Rightarrow>
              if ipc_outstanding (k_processes k p) \<noteq> None then (Inl MG_ERR_BUSY, k)
              else if \<not> ep_live (endpoints k e) then (Inl MG_ERR_SERVICE_UNAVAILABLE, k)
              else if queue_count (endpoints k e) \<ge> IPC_MAX_QUEUE_DEPTH then (Inl MG_ERR_QUEUE_FULL, k)
              else (case request_allocate_locked k of None \<Rightarrow> (Inl MG_ERR_NO_MEMORY, k)
                | Some (r, k1) \<Rightarrow>
                    (case next_id k1 of (i, k2) \<Rightarrow>
                     let k3 = upd_process p (\<lambda>x. x\<lparr>ipc_outstanding := Some r\<rparr>)
                           (upd_request r (fill_request k2 c p e cred (the m) i) k2)
                     in (case endpoint_enqueue_request (endpoints k3 e) r of
                         None \<Rightarrow> (Inl MG_ERR_QUEUE_FULL, request_free r
                           (upd_request r (\<lambda>x. x\<lparr>client_active := False, client_process := None, client_thread := None\<rparr>)
                             (upd_process p (\<lambda>x. x\<lparr>ipc_outstanding := None\<rparr>) k3)))
                       | Some ep \<Rightarrow> (Inr r, wake_receiver c e (upd_endpoint e (\<lambda>_. ep) k3))))))))"

text \<open>One round of the wait: the request has an answer, or the client marks itself blocked.\<close>

datatype poll_result = Poll_Done mg_status "mg_ipc_message option" | Poll_Wait

definition reply_message :: "ipc_request \<Rightarrow> mg_ipc_message" where
  "reply_message x = \<lparr>msg_version = MG_IPC_PROTOCOL_VERSION, msg_type = reply_type x,
     payload_length = reply_length x, msg_request_id = rq_id x,
     msg_payload = take (unat (reply_length x)) (reply_payload x)\<rparr>"

definition client_leaves :: "addr \<Rightarrow> nat \<Rightarrow> kernel \<Rightarrow> kernel" where
  "client_leaves p r k = request_maybe_free r
     (upd_process p (\<lambda>x. if ipc_outstanding x = Some r then x\<lparr>ipc_outstanding := None\<rparr> else x)
       (upd_request r (\<lambda>x. x\<lparr>client_active := False, client_blocked := False, client_process := None,
          client_thread := None\<rparr>) k))"

definition ipc_request_poll :: "kernel \<Rightarrow> addr \<Rightarrow> nat \<Rightarrow> poll_result \<times> kernel" where
  "ipc_request_poll k p r =
     (if rq_state (req k r) \<noteq> IPC_REQUEST_PENDING \<and> rq_state (req k r) \<noteq> IPC_REQUEST_DELIVERED
      then (if rq_state (req k r) = IPC_REQUEST_REPLIED
            then Poll_Done MG_OK (Some (reply_message (req k r)))
            else Poll_Done MG_ERR_SERVICE_UNAVAILABLE None, client_leaves p r k)
      else (Poll_Wait, upd_request r (\<lambda>x. x\<lparr>client_blocked := True\<rparr>) k))"

text \<open>The way out when the scheduler refuses to block the client.\<close>

definition ipc_request_refused :: "nat \<Rightarrow> kernel \<Rightarrow> addr \<Rightarrow> nat \<Rightarrow> mg_status \<times> kernel" where
  "ipc_request_refused c k p r = (MG_ERR_BUSY,
     client_leaves p r (request_fail c r (upd_request r (\<lambda>x. x\<lparr>client_blocked := False\<rparr>) k)))"

subsection \<open>Receiving\<close>

text \<open>The checks before the wait, and the deadline of a timed receive, which saturates.\<close>

definition ipc_receive_deadline :: "u64 \<Rightarrow> u32 \<Rightarrow> u64" where
  "ipc_receive_deadline now timeout_ms =
     (if now > NOT 0 - ucast timeout_ms then NOT 0 else now + ucast timeout_ms)"

definition ipc_receive_endpoint :: "nat \<Rightarrow> kernel \<Rightarrow> addr \<Rightarrow> u32 \<Rightarrow> bool \<Rightarrow> u32 \<Rightarrow> mg_status + addr \<times> addr" where
  "ipc_receive_endpoint c k p hnd timed timeout_ms =
     (case process_handle_lookup (k_objects k) (k_processes k p) hnd OBJECT_TYPE_IPC_ENDPOINT OBJECT_RIGHT_READ of
        None \<Rightarrow> Inl MG_ERR_INVALID_HANDLE
      | Some e \<Rightarrow>
          if ep_owner (endpoints k e) \<noteq> p then Inl MG_ERR_ACCESS_DENIED
          else (case current_thread c (k_sched k) of None \<Rightarrow> Inl MG_ERR_BUSY
            | Some self \<Rightarrow> if timed \<and> timeout_ms = 0 then Inl MG_ERR_TIMEOUT else Inr (e, self)))"

text \<open>One round of the wait under the lock.\<close>

datatype receive_poll = Receive_Error mg_status | Receive_Overflow | Receive_Delivery ipc_delivery
  | Receive_Block | Receive_Sleep u64

definition ipc_receive_poll ::
    "kernel \<Rightarrow> addr \<Rightarrow> addr \<Rightarrow> bool \<Rightarrow> bool \<Rightarrow> u64 \<Rightarrow> u64 \<Rightarrow> receive_poll \<times> kernel" where
  "ipc_receive_poll k e self wait timed now deadline =
     (let ep = endpoints k e in
      if \<not> ep_live ep then (Receive_Error MG_ERR_SERVICE_UNAVAILABLE, k)
      else if event_overflow ep \<and> queue_count ep = 0
      then (Receive_Overflow, upd_endpoint e (\<lambda>x. x\<lparr>event_overflow := False\<rparr>) k)
      else if queue_count ep \<noteq> 0 then (case endpoint_dequeue ep of
          None \<Rightarrow> (Receive_Error MG_ERR_SERVICE_UNAVAILABLE, k)
        | Some (d, ep') \<Rightarrow> (Receive_Delivery d, upd_endpoint e (\<lambda>_. ep') k))
      else if \<not> wait then (Receive_Error MG_ERR_WOULD_BLOCK, k)
      else if receiver_waiter ep \<noteq> None \<and> receiver_waiter ep \<noteq> Some self then (Receive_Error MG_ERR_BUSY, k)
      else let k1 = upd_endpoint e (\<lambda>x. x\<lparr>receiver_waiter := Some self\<rparr>) k;
               remaining = (if now \<ge> deadline then 0 else deadline - now)
           in if \<not> timed then (Receive_Block, k1)
              else if remaining = 0
              then (Receive_Error MG_ERR_TIMEOUT, upd_endpoint e (\<lambda>x. x\<lparr>receiver_waiter := None\<rparr>) k1)
              else (Receive_Sleep remaining, k1))"

text \<open>The scheduler refused to put the receiver to sleep.\<close>

definition ipc_receive_refused :: "kernel \<Rightarrow> addr \<Rightarrow> addr \<Rightarrow> mg_status \<times> kernel" where
  "ipc_receive_refused k e self = (MG_ERR_BUSY,
     upd_endpoint e (\<lambda>x. if receiver_waiter x = Some self then x\<lparr>receiver_waiter := None\<rparr> else x) k)"

definition ipc_receive_overflow :: "kernel \<Rightarrow> addr \<Rightarrow> received \<times> kernel" where
  "ipc_receive_overflow k e = (Received_Event MG_IPC_DELIVERY_EVENT_OVERFLOW
     (zero_event\<lparr>ev_version := MG_EVENT_PROTOCOL_VERSION, ev_type := MG_EVENT_QUEUE_OVERFLOW,
        ev_flags := MG_EVENT_FLAG_OVERFLOW, ev_class := event_classes (endpoints k e),
        ev_sequence := next_request_id k\<rparr>),
     k\<lparr>next_request_id := next_request_id k + 1\<rparr>)"

definition request_fill_received :: "ipc_request \<Rightarrow> u32 \<Rightarrow> received" where
  "request_fill_received x hnd = Received_Request
     \<lparr>msg_version = MG_IPC_PROTOCOL_VERSION, msg_type = request_type x, payload_length = request_length x,
      msg_request_id = rq_id x, msg_payload = take (unat (request_length x)) (request_payload x)\<rparr>
     \<lparr>rr_pid = requester_pid x, rr_uid = cred_uid (requester_credentials x),
      rr_role = cred_role (requester_credentials x), rr_session_id = requester_session_id x,
      rr_service_id = requester_service_id x,
      rr_service_privileges = cred_service_privileges (requester_credentials x),
      rr_system_service = requester_system_service x, rr_process_name = requester_name x\<rparr> hnd"

text \<open>
  The three sections that turn a dequeued request into a handle: mark it delivered, attach a context
  object (\<open>block\<close> is what \<^verbatim>\<open>kmalloc\<close> returned for it), install the handle.
\<close>

definition ipc_receive_mark :: "kernel \<Rightarrow> nat \<Rightarrow> kernel option" where
  "ipc_receive_mark k r =
     (if \<not> rq_allocated (req k r) \<or> rq_state (req k r) \<noteq> IPC_REQUEST_PENDING then None
      else Some (upd_request r (\<lambda>x. x\<lparr>rq_state := IPC_REQUEST_DELIVERED\<rparr>) k))"

definition ipc_receive_context :: "nat \<Rightarrow> kernel \<Rightarrow> addr \<Rightarrow> nat \<Rightarrow> ptr \<Rightarrow> (mg_status + addr) \<times> kernel" where
  "ipc_receive_context c k p r block = (case block of
       None \<Rightarrow> (Inl MG_ERR_NO_MEMORY, request_fail c r k)
     | Some a \<Rightarrow>
         if \<not> rq_allocated (req k r) \<or> rq_state (req k r) \<noteq> IPC_REQUEST_DELIVERED
         then (Inl MG_ERR_SERVICE_UNAVAILABLE, k)
         else (Inr a, upd_request r (\<lambda>x. x\<lparr>context_live := True\<rparr>)
           (k\<lparr>contexts := (contexts k)(a := \<lparr>ctx_request = Some r, ctx_owner = p\<rparr>),
              k_objects := (k_objects k)(a \<mapsto> object_init OBJECT_TYPE_IPC_REQUEST (Some destroy_fn.request_context_destroy))\<rparr>)))"

definition ipc_receive_install :: "nat \<Rightarrow> kernel \<Rightarrow> addr \<Rightarrow> nat \<Rightarrow> addr \<Rightarrow> (mg_status + received) \<times> kernel" where
  "ipc_receive_install c k p r a =
     (case process_handle_install (k_objects k) (k_processes k p) (Some a) OBJECT_RIGHT_WRITE of
        None \<Rightarrow>
          let k1 = request_fail c r (upd_request r (\<lambda>x. x\<lparr>context_live := False\<rparr>) k)
          in (case object_release (k_objects k1) (Some a) of (h, d) \<Rightarrow>
               (Inl MG_ERR_NO_MEMORY, run_destructor c d (k1\<lparr>k_objects := h\<rparr>)))
      | Some (h, p', hnd) \<Rightarrow>
          (case object_release h (Some a) of (h', d) \<Rightarrow>
            let k1 = run_destructor c d ((upd_process p (\<lambda>_. p') k)\<lparr>k_objects := h'\<rparr>)
            in (Inr (request_fill_received (req k1 r) hnd), k1)))"

definition ipc_receive_deliver ::
    "nat \<Rightarrow> kernel \<Rightarrow> addr \<Rightarrow> ipc_delivery \<Rightarrow> ptr \<Rightarrow> (mg_status + received) \<times> kernel" where
  "ipc_receive_deliver c k p d block =
     (if is_event d then (Inr (Received_Event MG_IPC_DELIVERY_EVENT (dl_event d)), k)
      else (case dl_request d of None \<Rightarrow> (Inl MG_ERR_SERVICE_UNAVAILABLE, k)
        | Some r \<Rightarrow> (case ipc_receive_mark k r of None \<Rightarrow> (Inl MG_ERR_SERVICE_UNAVAILABLE, k)
          | Some k1 \<Rightarrow> (case ipc_receive_context c k1 p r block of
              (Inl err, k2) \<Rightarrow> (Inl err, k2)
            | (Inr a, k2) \<Rightarrow> ipc_receive_install c k2 p r a))))"

text \<open>A receive that finds something in its first round; the blocking ones repeat the round.\<close>

definition ipc_receive_round ::
    "nat \<Rightarrow> kernel \<Rightarrow> addr \<Rightarrow> addr \<Rightarrow> addr \<Rightarrow> bool \<Rightarrow> bool \<Rightarrow> u64 \<Rightarrow> u64 \<Rightarrow> ptr \<Rightarrow>
      (mg_status + received) option \<times> kernel" where
  "ipc_receive_round c k p e self wait timed now deadline block =
     (case ipc_receive_poll k e self wait timed now deadline of
        (Receive_Error err, k1) \<Rightarrow> (Some (Inl err), k1)
      | (Receive_Overflow, k1) \<Rightarrow> (case ipc_receive_overflow k1 e of (x, k2) \<Rightarrow> (Some (Inr x), k2))
      | (Receive_Delivery d, k1) \<Rightarrow> (case ipc_receive_deliver c k1 p d block of (x, k2) \<Rightarrow> (Some x, k2))
      | (_, k1) \<Rightarrow> (None, k1))"

definition ipc_kernel_try_receive ::
    "nat \<Rightarrow> kernel \<Rightarrow> addr \<Rightarrow> u32 \<Rightarrow> ptr \<Rightarrow> (mg_status + received) option \<times> kernel" where
  "ipc_kernel_try_receive c k p hnd block =
     (case ipc_receive_endpoint c k p hnd False 0 of
        Inl err \<Rightarrow> (Some (Inl err), k)
      | Inr (e, self) \<Rightarrow> ipc_receive_round c k p e self False False 0 0 block)"

subsection \<open>Replying, and what a service may ask about a request\<close>

definition context_for :: "kernel \<Rightarrow> addr \<Rightarrow> u32 \<Rightarrow> mg_status + nat" where
  "context_for k p hnd =
     (case process_handle_lookup (k_objects k) (k_processes k p) hnd OBJECT_TYPE_IPC_REQUEST OBJECT_RIGHT_WRITE of
        None \<Rightarrow> Inl MG_ERR_INVALID_HANDLE
      | Some a \<Rightarrow> (case ctx_request (contexts k a) of None \<Rightarrow> Inl MG_ERR_ACCESS_DENIED
        | Some r \<Rightarrow> if ctx_owner (contexts k a) \<noteq> p then Inl MG_ERR_ACCESS_DENIED else Inr r))"

definition request_open :: "ipc_request \<Rightarrow> bool" where
  "request_open x \<longleftrightarrow> \<not> (\<not> rq_allocated x \<or> \<not> context_live x \<or> rq_state x \<noteq> IPC_REQUEST_DELIVERED)"

definition ipc_kernel_reply :: "nat \<Rightarrow> kernel \<Rightarrow> addr \<Rightarrow> u32 \<Rightarrow> mg_ipc_message option \<Rightarrow> mg_status \<times> kernel" where
  "ipc_kernel_reply c k p hnd m =
     (if m = None then (MG_ERR_BAD_ARGUMENT, k)
      else if ipc_message_validate m \<noteq> MG_OK then (ipc_message_validate m, k)
      else (case context_for k p hnd of Inl err \<Rightarrow> (err, k)
        | Inr r \<Rightarrow>
            if \<not> request_open (req k r) then (MG_ERR_SERVICE_UNAVAILABLE, k)
            else (MG_OK, request_wake_client c r (upd_request r (\<lambda>x. x\<lparr>reply_type := msg_type (the m),
              reply_length := payload_length (the m),
              reply_payload := take (unat (payload_length (the m))) (msg_payload (the m)),
              rq_state := IPC_REQUEST_REPLIED\<rparr>) k))))"

text \<open>\<open>cur\<close> is the current process; \<open>n\<close> the size of the caller's name buffer.\<close>

definition ipc_request_context_claim ::
    "kernel \<Rightarrow> addr \<Rightarrow> ptr \<Rightarrow> u32 \<Rightarrow> nat \<Rightarrow> (process_credentials \<times> string) option \<times> kernel" where
  "ipc_request_context_claim k p cur hnd n =
     (if Some p \<noteq> cur \<or> n = 0 \<or> \<not> system_service (k_processes k p) then (None, k)
      else (case context_for k p hnd of Inl err \<Rightarrow> (None, k)
        | Inr r \<Rightarrow>
            if \<not> request_open (req k r) \<or> authorization_claimed (req k r) \<or>
               length (requester_name (req k r)) \<ge> n \<or>
               \<not> identity_credentials_valid (requester_credentials (req k r)) then (None, k)
            else (Some (requester_credentials (req k r), requester_name (req k r)),
              upd_request r (\<lambda>x. x\<lparr>authorization_claimed := True\<rparr>) k)))"

definition ipc_request_context_origin :: "kernel \<Rightarrow> addr \<Rightarrow> ptr \<Rightarrow> u32 \<Rightarrow> u32 \<Rightarrow> u64 option" where
  "ipc_request_context_origin k p cur hnd expected =
     (if Some p \<noteq> cur \<or> \<not> system_service (k_processes k p) \<or> expected = 0 then None
      else (case context_for k p hnd of Inl err \<Rightarrow> None
        | Inr r \<Rightarrow>
            if \<not> request_open (req k r) \<or> \<not> requester_system_service (req k r) \<or>
               requester_service_id (req k r) \<noteq> expected then None
            else Some (requester_pid (req k r))))"

subsection \<open>Events\<close>

definition event_subscription_allowed :: "kernel \<Rightarrow> addr \<Rightarrow> u32 \<Rightarrow> bool" where
  "event_subscription_allowed k e classes =
     (let ep = endpoints k e; p = k_processes k (ep_owner ep);
          holds = identity_credentials_has_privilege (k_identity k) (credentials p)
      in if \<not> system_service p then False
         else if ep_service_id ep = MG_SERVICE_DEVICED then
           holds IDENTITY_PRIVILEGE_MANAGE_DEVICES \<and> classes \<noteq> 0 \<and>
           classes AND NOT (MG_EVENT_CLASS_DEVICE OR MG_EVENT_CLASS_BLOCK OR MG_EVENT_CLASS_USB OR
             MG_EVENT_CLASS_NETWORK) = 0
         else if ep_service_id ep = MG_SERVICE_VOLUMED then
           holds IDENTITY_PRIVILEGE_MANAGE_DEVICES \<and> classes \<noteq> 0 \<and>
           classes AND NOT (MG_EVENT_CLASS_DEVICE OR MG_EVENT_CLASS_BLOCK OR MG_EVENT_CLASS_USB) = 0
         else if ep_service_id ep = MG_SERVICE_NETWORKD then
           holds IDENTITY_PRIVILEGE_MANAGE_NETWORK \<and> classes \<noteq> 0 \<and> classes AND NOT MG_EVENT_CLASS_NETWORK = 0
         else False)"

definition ipc_kernel_event_subscribe :: "kernel \<Rightarrow> addr \<Rightarrow> u32 \<Rightarrow> u32 \<Rightarrow> mg_status \<times> kernel" where
  "ipc_kernel_event_subscribe k p hnd classes =
     (if classes = 0 then (MG_ERR_BAD_ARGUMENT, k)
      else (case process_handle_lookup (k_objects k) (k_processes k p) hnd OBJECT_TYPE_IPC_ENDPOINT OBJECT_RIGHT_READ of
          None \<Rightarrow> (MG_ERR_INVALID_HANDLE, k)
        | Some e \<Rightarrow>
            if \<not> ep_live (endpoints k e) \<or> ep_owner (endpoints k e) \<noteq> p \<or> \<not> event_subscription_allowed k e classes
            then (MG_ERR_PRIVILEGE_REQUIRED, k)
            else (MG_OK, upd_endpoint e (\<lambda>x. (endpoint_discard_events x)\<lparr>event_classes := classes\<rparr>) k)))"

definition ipc_kernel_event_unsubscribe :: "kernel \<Rightarrow> addr \<Rightarrow> u32 \<Rightarrow> mg_status \<times> kernel" where
  "ipc_kernel_event_unsubscribe k p hnd =
     (case process_handle_lookup (k_objects k) (k_processes k p) hnd OBJECT_TYPE_IPC_ENDPOINT OBJECT_RIGHT_READ of
        None \<Rightarrow> (MG_ERR_INVALID_HANDLE, k)
      | Some e \<Rightarrow>
          if \<not> ep_live (endpoints k e) \<or> ep_owner (endpoints k e) \<noteq> p then (MG_ERR_ACCESS_DENIED, k)
          else (MG_OK, upd_endpoint e (\<lambda>x. (endpoint_discard_events x)\<lparr>event_classes := 0\<rparr>) k))"

fun publish_to :: "nat \<Rightarrow> u32 \<Rightarrow> mg_event \<Rightarrow> addr list \<Rightarrow> kernel \<Rightarrow> kernel" where
  "publish_to c cls ev [] k = k"
| "publish_to c cls ev (e # es) k = publish_to c cls ev es
     (if \<not> ep_live (endpoints k e) \<or> event_classes (endpoints k e) AND cls = 0 then k
      else (case endpoint_enqueue_event (endpoints k e) ev of
          None \<Rightarrow> upd_endpoint e (\<lambda>x. x\<lparr>event_overflow := True\<rparr>) k
        | Some ep \<Rightarrow> wake_receiver c e (upd_endpoint e (\<lambda>_. ep) k)))"

definition ipc_publish_event :: "nat \<Rightarrow> u32 \<Rightarrow> u16 \<Rightarrow> u64 \<Rightarrow> string option \<Rightarrow> kernel \<Rightarrow> kernel" where
  "ipc_publish_event c cls typ resource name k =
     (if cls = 0 \<or> typ = 0 then k
      else (case next_id k of (i, k1) \<Rightarrow>
        publish_to c cls (zero_event\<lparr>ev_version := MG_EVENT_PROTOCOL_VERSION, ev_type := typ, ev_class := cls,
            ev_resource_id := resource, ev_sequence := i,
            ev_name := (case name of None \<Rightarrow> [] | Some s \<Rightarrow> take (MG_EVENT_NAME_MAX - 1) s)\<rparr>)
          (endpoint_list k1) k1))"

subsection \<open>A process exits\<close>

fun unregister_owned :: "nat \<Rightarrow> addr \<Rightarrow> addr list \<Rightarrow> kernel \<Rightarrow> kernel" where
  "unregister_owned c p [] k = k"
| "unregister_owned c p (e # es) k = unregister_owned c p es
     (if ep_owner (endpoints k e) = p then endpoint_unregister_locked c e k else k)"

definition abandon_request :: "nat \<Rightarrow> addr \<Rightarrow> nat \<Rightarrow> kernel \<Rightarrow> kernel" where
  "abandon_request c p r k =
     (if rq_allocated (req k r) \<and> client_process (req k r) = Some p then
        let k1 = (case rq_endpoint (req k r) of
              Some e \<Rightarrow> if rq_state (req k r) = IPC_REQUEST_PENDING
                then upd_request r (\<lambda>x. x\<lparr>rq_endpoint := None\<rparr>)
                  (upd_endpoint e (\<lambda>x. endpoint_remove_request x r) k) else k
            | None \<Rightarrow> k);
            k2 = upd_request r (\<lambda>x. x\<lparr>client_active := False, client_blocked := False,
              client_thread := None, client_process := None\<rparr>) k1;
            k3 = upd_process p (\<lambda>x. if ipc_outstanding x = Some r then x\<lparr>ipc_outstanding := None\<rparr> else x) k2
        in request_maybe_free r (request_fail c r k3)
      else k)"

fun abandon_requests :: "nat \<Rightarrow> addr \<Rightarrow> nat list \<Rightarrow> kernel \<Rightarrow> kernel" where
  "abandon_requests c p [] k = k"
| "abandon_requests c p (r # rs) k = abandon_requests c p rs (abandon_request c p r k)"

definition ipc_process_exit :: "nat \<Rightarrow> addr \<Rightarrow> kernel \<Rightarrow> kernel" where
  "ipc_process_exit c p k = upd_process p (\<lambda>x. x\<lparr>ipc_outstanding := None\<rparr>)
     (abandon_requests c p [0..<IPC_MAX_REQUESTS] (unregister_owned c p (endpoint_list k) k))"

end
