(* ===== verification/Ipc_Inv.thy ===== *)
theory Ipc_Inv
  imports Ipc
begin

section \<open>The invariant of inter-process communication\<close>

text \<open>
  How the request pool, the endpoint queues, the clients' outstanding requests and the request
  contexts fit together, and that every operation of \<^theory_text>\<open>Ipc\<close> keeps it.
\<close>

subsection \<open>The invariant\<close>

lemma upd_kernel_sel [simp]:
  "endpoints (upd_endpoint e f k) = (endpoints k)(e := f (endpoints k e))"
  "endpoint_list (upd_endpoint e f k) = endpoint_list k" "request_pool (upd_endpoint e f k) = request_pool k"
  "endpoint_count (upd_endpoint e f k) = endpoint_count k" "next_request_id (upd_endpoint e f k) = next_request_id k"
  "contexts (upd_endpoint e f k) = contexts k" "k_objects (upd_endpoint e f k) = k_objects k"
  "k_processes (upd_endpoint e f k) = k_processes k" "k_identity (upd_endpoint e f k) = k_identity k"
  "k_sched (upd_endpoint e f k) = k_sched k"
  "endpoints (upd_request r g k) = endpoints k" "endpoint_list (upd_request r g k) = endpoint_list k"
  "request_pool (upd_request r g k) = (request_pool k)[r := g (request_pool k ! r)]"
  "endpoint_count (upd_request r g k) = endpoint_count k" "next_request_id (upd_request r g k) = next_request_id k"
  "contexts (upd_request r g k) = contexts k" "k_objects (upd_request r g k) = k_objects k"
  "k_processes (upd_request r g k) = k_processes k" "k_identity (upd_request r g k) = k_identity k"
  "k_sched (upd_request r g k) = k_sched k"
  "endpoints (upd_process p h k) = endpoints k" "endpoint_list (upd_process p h k) = endpoint_list k"
  "request_pool (upd_process p h k) = request_pool k"
  "endpoint_count (upd_process p h k) = endpoint_count k" "next_request_id (upd_process p h k) = next_request_id k"
  "contexts (upd_process p h k) = contexts k" "k_objects (upd_process p h k) = k_objects k"
  "k_processes (upd_process p h k) = (k_processes k)(p := h (k_processes k p))"
  "k_identity (upd_process p h k) = k_identity k" "k_sched (upd_process p h k) = k_sched k"
  by (simp_all add: upd_endpoint_def upd_request_def upd_process_def)

text \<open>A slot of the pool: free and clean, or held by a client or a context.\<close>

definition request_ok :: "ipc_request \<Rightarrow> bool" where
  "request_ok x \<longleftrightarrow> (if rq_allocated x then rq_state x \<noteq> IPC_REQUEST_FREE \<and>
       (client_active x \<or> context_live x) \<and> (client_active x \<longleftrightarrow> client_process x \<noteq> None) \<and>
       (rq_state x = IPC_REQUEST_PENDING \<longrightarrow> client_active x \<and> \<not> context_live x \<and> \<not> authorization_claimed x)
     else x = zero_request)"

text \<open>Where a request waits to be delivered, when it is pending.\<close>

definition pending_at :: "ipc_request \<Rightarrow> ptr option" where
  "pending_at x = (if rq_allocated x \<and> rq_state x = IPC_REQUEST_PENDING then Some (rq_endpoint x) else None)"

definition queue_requests :: "ipc_endpoint \<Rightarrow> nat option list" where
  "queue_requests ep = map dl_request (filter (\<lambda>d. \<not> is_event d) (queue_list ep))"

definition pool_ok :: "kernel \<Rightarrow> bool" where
  "pool_ok k \<longleftrightarrow> length (request_pool k) = IPC_MAX_REQUESTS \<and> (\<forall>r<IPC_MAX_REQUESTS. request_ok (req k r))"

definition registry_ok :: "kernel \<Rightarrow> bool" where
  "registry_ok k \<longleftrightarrow> distinct (endpoint_list k) \<and> (\<forall>e. ep_live (endpoints k e) \<longleftrightarrow> e \<in> set (endpoint_list k)) \<and>
     endpoint_count k = length (endpoint_list k) \<and> length (endpoint_list k) \<le> IPC_MAX_ENDPOINTS \<and>
     inj_on (\<lambda>e. ep_name (endpoints k e)) (set (endpoint_list k))"

text \<open>A live endpoint's queue holds exactly the pending requests addressed to it, each of them once.\<close>

definition queues_ok :: "kernel \<Rightarrow> bool" where
  "queues_ok k \<longleftrightarrow> (\<forall>e\<in>set (endpoint_list k). ring_wf (endpoints k e) \<and>
       distinct (queue_requests (endpoints k e)) \<and>
       set (queue_requests (endpoints k e)) =
         Some ` {r. r < IPC_MAX_REQUESTS \<and> pending_at (req k r) = Some (Some e)}) \<and>
     (\<forall>r<IPC_MAX_REQUESTS. pending_at (req k r) \<noteq> None \<longrightarrow>
       (\<exists>e\<in>set (endpoint_list k). pending_at (req k r) = Some (Some e)))"

definition clients_ok :: "kernel \<Rightarrow> bool" where
  "clients_ok k \<longleftrightarrow> (\<forall>p r. ipc_outstanding (k_processes k p) = Some r \<longleftrightarrow>
     r < IPC_MAX_REQUESTS \<and> client_process (req k r) = Some p)"

definition is_context :: "kernel \<Rightarrow> addr \<Rightarrow> bool" where
  "is_context k a \<longleftrightarrow> map_option obj_type (k_objects k a) = Some OBJECT_TYPE_IPC_REQUEST"

definition contexts_ok :: "kernel \<Rightarrow> bool" where
  "contexts_ok k \<longleftrightarrow>
     (\<forall>a. is_context k a \<longrightarrow> map_option destroy (k_objects k a) = Some (Some destroy_fn.request_context_destroy) \<and>
        (\<exists>r<IPC_MAX_REQUESTS. ctx_request (contexts k a) = Some r \<and> context_live (req k r))) \<and>
     (\<forall>a b. is_context k a \<longrightarrow> is_context k b \<longrightarrow> ctx_request (contexts k a) = ctx_request (contexts k b) \<longrightarrow> a = b) \<and>
     (\<forall>r<IPC_MAX_REQUESTS. context_live (req k r) \<longrightarrow>
        (\<exists>a. is_context k a \<and> ctx_request (contexts k a) = Some r))"

definition ipc_ok :: "kernel \<Rightarrow> bool" where
  "ipc_ok k \<longleftrightarrow> pool_ok k \<and> registry_ok k \<and> queues_ok k \<and> clients_ok k \<and> contexts_ok k"

lemmas ipc_parts = pool_ok_def registry_ok_def queues_ok_def clients_ok_def contexts_ok_def

lemma ipc_okD:
  assumes "ipc_ok k"
  shows "pool_ok k" "registry_ok k" "queues_ok k" "clients_ok k" "contexts_ok k"
  using assms by (auto simp: ipc_ok_def)

lemma pool_okD:
  assumes "pool_ok k"
  shows "length (request_pool k) = IPC_MAX_REQUESTS" "r < IPC_MAX_REQUESTS \<Longrightarrow> request_ok (req k r)"
  using assms by (auto simp: pool_ok_def)

lemma zero_request_ok [simp]: "request_ok zero_request"
  by (simp add: request_ok_def zero_request_def)

subsection \<open>Changes of the pool\<close>

text \<open>
  \<open>alike\<close>: the request as it was, except that its client may have been woken. A \<open>pool_change\<close> replaces
  every request by its image, up to such wakeups, and leaves everything else but the scheduler.
\<close>

definition alike :: "ipc_request \<Rightarrow> ipc_request \<Rightarrow> bool" where
  "alike x y \<longleftrightarrow> y = x\<lparr>client_blocked := client_blocked y, client_thread := client_thread y\<rparr> \<and>
     (\<not> client_active x \<longrightarrow> y = x)"

definition pool_change :: "(nat \<Rightarrow> ipc_request \<Rightarrow> ipc_request) \<Rightarrow> kernel \<Rightarrow> kernel \<Rightarrow> bool" where
  "pool_change g k k' \<longleftrightarrow> length (request_pool k') = length (request_pool k) \<and>
     (\<forall>r<length (request_pool k). alike (g r (req k r)) (req k' r)) \<and>
     k' = k\<lparr>request_pool := request_pool k', k_sched := k_sched k'\<rparr>"

lemma alike_refl [simp]: "alike x x"
  by (simp add: alike_def)

lemma alike_sel:
  assumes "alike x y"
  shows "rq_allocated y = rq_allocated x" "rq_state y = rq_state x" "rq_endpoint y = rq_endpoint x"
    "client_process y = client_process x" "client_active y = client_active x" "context_live y = context_live x"
    "authorization_claimed y = authorization_claimed x" "rq_id y = rq_id x"
    "reply_message y = reply_message x" "request_fill_received y h = request_fill_received x h"
proof -
  obtain b t where y: "y = x\<lparr>client_blocked := b, client_thread := t\<rparr>" using assms unfolding alike_def by blast
  show "rq_allocated y = rq_allocated x" "rq_state y = rq_state x" "rq_endpoint y = rq_endpoint x"
    "client_process y = client_process x" "client_active y = client_active x" "context_live y = context_live x"
    "authorization_claimed y = authorization_claimed x" "rq_id y = rq_id x"
    "reply_message y = reply_message x" "request_fill_received y h = request_fill_received x h"
    by (simp_all add: y reply_message_def request_fill_received_def)
qed

lemma alike_pending: "alike x y \<Longrightarrow> pending_at y = pending_at x"
  using alike_sel(1-3) [of x y] by (simp add: pending_at_def)

lemma alike_ok:
  assumes "alike x y" "request_ok x"
  shows "request_ok y"
proof (cases "rq_allocated x")
  case True
  then have "request_ok y = request_ok x"
    unfolding request_ok_def by (simp only: alike_sel(1-7) [OF assms(1)] if_True)
  with assms(2) show ?thesis by simp
next
  case False
  then have "x = zero_request" using assms(2) by (simp add: request_ok_def)
  then have "\<not> client_active x" by (simp add: zero_request_def)
  then have "y = x" using assms(1) unfolding alike_def by blast
  then show ?thesis using assms(2) by simp
qed

lemma pool_changeD:
  assumes "pool_change g k k'"
  shows "endpoints k' = endpoints k" "endpoint_list k' = endpoint_list k" "endpoint_count k' = endpoint_count k"
    "next_request_id k' = next_request_id k" "contexts k' = contexts k" "k_objects k' = k_objects k"
    "k_processes k' = k_processes k" "k_identity k' = k_identity k"
    "length (request_pool k') = length (request_pool k)"
    "r < length (request_pool k) \<Longrightarrow> alike (g r (req k r)) (req k' r)"
proof -
  obtain P S where k': "k' = k\<lparr>request_pool := P, k_sched := S\<rparr>" using assms unfolding pool_change_def by blast
  show "endpoints k' = endpoints k" "endpoint_list k' = endpoint_list k" "endpoint_count k' = endpoint_count k"
    "next_request_id k' = next_request_id k" "contexts k' = contexts k" "k_objects k' = k_objects k"
    "k_processes k' = k_processes k" "k_identity k' = k_identity k"
    by (simp_all add: k')
qed (use assms in \<open>auto simp: pool_change_def\<close>)

lemma pool_change_upd:
  "pool_change (\<lambda>i x. if i = r then f x else x) k (upd_request r f k)"
  by (auto simp: pool_change_def nth_list_update upd_request_def)

lemma alike_trans: "alike x y \<Longrightarrow> alike y z \<Longrightarrow> alike x z"
proof -
  assume a: "alike x y" "alike y z"
  obtain b t where y: "y = x\<lparr>client_blocked := b, client_thread := t\<rparr>" using a(1) unfolding alike_def by blast
  obtain b' t' where z: "z = y\<lparr>client_blocked := b', client_thread := t'\<rparr>" using a(2) unfolding alike_def by blast
  have "z = x\<lparr>client_blocked := b', client_thread := t'\<rparr>" by (simp add: y z)
  moreover have "\<not> client_active x \<Longrightarrow> z = x" using a alike_sel(5) [OF a(1)] unfolding alike_def by simp
  ultimately show ?thesis unfolding alike_def by simp
qed

lemma pool_change_trans:
  assumes a: "pool_change g k k1" and b: "pool_change h k1 k2"
    and h: "\<And>i x y. alike x y \<Longrightarrow> alike (h i x) (h i y)"
  shows "pool_change (\<lambda>i x. h i (g i x)) k k2"
proof -
  obtain P S where k1: "k1 = k\<lparr>request_pool := P, k_sched := S\<rparr>" using a unfolding pool_change_def by blast
  obtain P' S' where k2: "k2 = k1\<lparr>request_pool := P', k_sched := S'\<rparr>" using b unfolding pool_change_def by blast
  show ?thesis
    unfolding pool_change_def
  proof (intro conjI allI impI)
    fix r assume r: "r < length (request_pool k)"
    have "alike (h r (g r (req k r))) (h r (req k1 r))" by (rule h [OF pool_changeD(10) [OF a r]])
    moreover have "alike (h r (req k1 r)) (req k2 r)"
      by (rule pool_changeD(10) [OF b]) (use r pool_changeD(9) [OF a] in simp)
    ultimately show "alike (h r (g r (req k r))) (req k2 r)" by (rule alike_trans)
  next
    show "k2 = k\<lparr>request_pool := request_pool k2, k_sched := k_sched k2\<rparr>" by (simp add: k1 k2)
  qed (use pool_changeD(9) [OF a] pool_changeD(9) [OF b] in simp)
qed

definition freed :: "ipc_request \<Rightarrow> ipc_request" where
  "freed x = (if \<not> rq_allocated x \<or> client_active x \<or> context_live x then x else zero_request)"

definition failed :: "ipc_request \<Rightarrow> ipc_request" where
  "failed x = (if \<not> rq_allocated x \<or> rq_state x = IPC_REQUEST_REPLIED \<or> rq_state x = IPC_REQUEST_FAILED then x
     else freed (x\<lparr>rq_state := IPC_REQUEST_FAILED\<rparr>))"

abbreviation at :: "nat \<Rightarrow> (ipc_request \<Rightarrow> ipc_request) \<Rightarrow> nat \<Rightarrow> ipc_request \<Rightarrow> ipc_request" where
  "at r f \<equiv> (\<lambda>i x. if i = r then f x else x)"

lemma at_at: "(\<lambda>i x. at r f i (at r g i x)) = at r (f \<circ> g)"
  by (auto simp: fun_eq_iff)

lemma alike_upd:
  assumes "alike x y"
  shows "alike (x\<lparr>rq_state := st\<rparr>) (y\<lparr>rq_state := st\<rparr>)" "alike (x\<lparr>rq_endpoint := e\<rparr>) (y\<lparr>rq_endpoint := e\<rparr>)"
proof -
  obtain b t where y: "y = x\<lparr>client_blocked := b, client_thread := t\<rparr>" and s: "\<not> client_active x \<Longrightarrow> y = x"
    using assms unfolding alike_def by blast
  show "alike (x\<lparr>rq_state := st\<rparr>) (y\<lparr>rq_state := st\<rparr>)" "alike (x\<lparr>rq_endpoint := e\<rparr>) (y\<lparr>rq_endpoint := e\<rparr>)"
    using s unfolding alike_def by (simp_all add: y)
qed

lemma alike_freed: "alike x y \<Longrightarrow> alike (freed x) (freed y)"
  using alike_sel(1,5,6) [of x y] by (simp add: freed_def)

lemma alike_failed: "alike x y \<Longrightarrow> alike (failed x) (failed y)"
  using alike_sel(1,2) [of x y] alike_freed [OF alike_upd(1), of x y] by (simp add: failed_def)

lemma maybe_free_change: "pool_change (at r freed) k (request_maybe_free r k)"
proof -
  have "request_maybe_free r k = upd_request r freed k"
    by (simp add: request_maybe_free_def request_free_def freed_def upd_request_def)
  then show ?thesis using pool_change_upd by simp
qed

lemma wake_client_change: "pool_change (\<lambda>i x. x) k (request_wake_client c r k)"
proof (cases "client_active (req k r) \<and> client_blocked (req k r) \<and> r < length (request_pool k)")
  case True
  define k1 where "k1 = upd_request r (\<lambda>x. x\<lparr>client_blocked := False, client_thread := None\<rparr>) k"
  have "alike (req k i) (req (upd_request r (\<lambda>x. x\<lparr>client_blocked := b, client_thread := t\<rparr>) k) i)" for i b t
    using True by (cases "i = r") (simp_all add: alike_def)
  then have ch: "pool_change (\<lambda>i x. x) k ((upd_request r (\<lambda>x. x\<lparr>client_blocked := b, client_thread := t\<rparr>) k)\<lparr>k_sched := s\<rparr>)" for b t s
    by (simp add: pool_change_def upd_request_def)
  show ?thesis
  proof (cases "client_thread (req k r)")
    case (Some t)
    obtain b s where u: "scheduler_unblock c (k_sched k1) (Some t) = (b, s)" by fastforce
    have restore: "(upd_request r (\<lambda>x. x\<lparr>client_blocked := True, client_thread := Some t\<rparr>) (k1\<lparr>k_sched := s\<rparr>)) =
        (upd_request r (\<lambda>x. x\<lparr>client_blocked := True, client_thread := Some t\<rparr>) k)\<lparr>k_sched := s\<rparr>"
      using True by (simp add: k1_def upd_request_def)
    have "pool_change (\<lambda>i x. x) k k1" "pool_change (\<lambda>i x. x) k (k1\<lparr>k_sched := s\<rparr>)"
      using ch [where b = False and t = None and s = "k_sched k"] ch [where b = False and t = None and s = s]
      by (simp_all add: k1_def upd_request_def)
    then show ?thesis
      using True Some u ch [where b = True and t = "Some t" and s = s]
      unfolding request_wake_client_def Let_def k1_def [symmetric] by (cases b) (simp_all add: restore)
  qed (simp add: request_wake_client_def pool_change_def)
next
  case False
  show ?thesis
  proof (cases "r < length (request_pool k)")
    case True
    with False show ?thesis by (simp add: request_wake_client_def pool_change_def)
  next
    case False
    then have "upd_request r f j = j" if "length (request_pool j) = length (request_pool k)" for f j
      using that False by (simp add: upd_request_def list_update_beyond)
    then show ?thesis
      by (auto simp: request_wake_client_def Let_def pool_change_def split: option.split prod.split bool.split)
  qed
qed

lemma fail_change: "pool_change (at r failed) k (request_fail c r k)"
proof (cases "\<not> rq_allocated (req k r) \<or> rq_state (req k r) = IPC_REQUEST_REPLIED \<or> rq_state (req k r) = IPC_REQUEST_FAILED")
  case True
  then show ?thesis by (auto simp: request_fail_def pool_change_def failed_def)
next
  case False
  let ?f = "\<lambda>x. x\<lparr>rq_state := IPC_REQUEST_FAILED\<rparr>"
  have "pool_change (at r ?f) k (request_wake_client c r (upd_request r ?f k))"
    using pool_change_trans [OF pool_change_upd [of r ?f k] wake_client_change] by simp
  from pool_change_trans [OF this maybe_free_change [of r]]
  have "pool_change (\<lambda>i x. at r freed i (at r ?f i x)) k (request_fail c r k)"
    using False by (simp add: request_fail_def alike_freed)
  then show ?thesis using False by (auto simp: pool_change_def failed_def)
qed

subsection \<open>What the parts of the invariant depend on\<close>

lemma pool_ok_change:
  assumes "pool_ok k" "pool_change g k k'" "\<And>r. r < IPC_MAX_REQUESTS \<Longrightarrow> request_ok (g r (req k r))"
  shows "pool_ok k'"
  using assms(1,3) pool_changeD(9) [OF assms(2)] alike_ok [OF pool_changeD(10) [OF assms(2)]]
  unfolding pool_ok_def by simp

lemma registry_ok_cong:
  assumes "registry_ok k" "endpoint_list k' = endpoint_list k" "endpoint_count k' = endpoint_count k"
    and "\<And>e. ep_live (endpoints k' e) = ep_live (endpoints k e)"
    and "\<And>e. ep_name (endpoints k' e) = ep_name (endpoints k e)"
  shows "registry_ok k'"
  using assms(1) unfolding registry_ok_def assms(2-5) .

lemma queues_ok_cong:
  assumes "queues_ok k" "endpoint_list k' = endpoint_list k"
    and "\<And>e. e \<in> set (endpoint_list k) \<Longrightarrow> ring_wf (endpoints k' e) \<and>
      queue_requests (endpoints k' e) = queue_requests (endpoints k e)"
    and "\<And>r. r < IPC_MAX_REQUESTS \<Longrightarrow> pending_at (req k' r) = pending_at (req k r)"
  shows "queues_ok k'"
  using assms unfolding queues_ok_def by (simp cong: conj_cong)

lemma clients_ok_cong:
  assumes "clients_ok k" "\<And>p. ipc_outstanding (k_processes k' p) = ipc_outstanding (k_processes k p)"
    and "\<And>r. r < IPC_MAX_REQUESTS \<Longrightarrow> client_process (req k' r) = client_process (req k r)"
  shows "clients_ok k'"
  using assms unfolding clients_ok_def by auto

lemma contexts_ok_cong:
  assumes "contexts_ok k" "\<And>a. map_option obj_type (k_objects k' a) = map_option obj_type (k_objects k a)"
    and "\<And>a. map_option destroy (k_objects k' a) = map_option destroy (k_objects k a)"
    and "contexts k' = contexts k"
    and "\<And>r. r < IPC_MAX_REQUESTS \<Longrightarrow> context_live (req k' r) = context_live (req k r)"
  shows "contexts_ok k'"
proof -
  have "is_context k' a = is_context k a" for a unfolding is_context_def assms(2) ..
  then show ?thesis using assms(1,5) unfolding contexts_ok_def assms(3,4) by auto
qed

text \<open>Replacing requests by images that the other parts cannot tell apart.\<close>

definition same_view :: "ipc_request \<Rightarrow> ipc_request \<Rightarrow> bool" where
  "same_view x y \<longleftrightarrow> pending_at y = pending_at x \<and> client_process y = client_process x \<and>
     context_live y = context_live x"

lemma ipc_ok_pool:
  assumes ok: "ipc_ok k" and ch: "pool_change g k k'"
    and g: "\<And>r. r < IPC_MAX_REQUESTS \<Longrightarrow> request_ok (g r (req k r)) \<and> same_view (req k r) (g r (req k r))"
  shows "ipc_ok k'"
proof -
  note D = ipc_okD [OF ok] and C = pool_changeD [OF ch]
  have len: "length (request_pool k) = IPC_MAX_REQUESTS" by (rule pool_okD(1) [OF D(1)])
  have v: "same_view (req k r) (req k' r)" if "r < IPC_MAX_REQUESTS" for r
    using g [OF that] alike_sel(4,6) [OF C(10)] alike_pending [OF C(10)] that len by (simp add: same_view_def)
  have "pool_ok k'" by (rule pool_ok_change [OF D(1) ch]) (use g in simp)
  moreover have "registry_ok k'" by (rule registry_ok_cong [OF D(2)]) (simp_all add: C)
  moreover have "queues_ok k'"
  proof (rule queues_ok_cong [OF D(3) C(2)])
    show "ring_wf (endpoints k' e) \<and> queue_requests (endpoints k' e) = queue_requests (endpoints k e)"
      if "e \<in> set (endpoint_list k)" for e
      using D(3) that by (simp add: C queues_ok_def)
  qed (use v in \<open>auto simp: same_view_def\<close>)
  moreover have "clients_ok k'" by (rule clients_ok_cong [OF D(4)]) (use v in \<open>auto simp: C same_view_def\<close>)
  moreover have "contexts_ok k'" by (rule contexts_ok_cong [OF D(5)]) (use v in \<open>auto simp: C same_view_def\<close>)
  ultimately show ?thesis by (simp add: ipc_ok_def)
qed

lemma ipc_ok_upd_request:
  assumes "ipc_ok k" "request_ok (f (req k r))" "same_view (req k r) (f (req k r))"
  shows "ipc_ok (upd_request r f k)"
  by (rule ipc_ok_pool [OF assms(1) pool_change_upd])
    (use assms pool_okD [OF ipc_okD(1) [OF assms(1)]] in \<open>auto simp: same_view_def\<close>)

lemma wake_client_ok: "ipc_ok k \<Longrightarrow> ipc_ok (request_wake_client c r k)"
  by (rule ipc_ok_pool [OF _ wake_client_change]) (auto simp: same_view_def dest!: ipc_okD(1) pool_okD(2))

text \<open>Failing a request that is not pending changes nothing the other parts see.\<close>

lemma failed_view:
  assumes "request_ok x" "rq_state x \<noteq> IPC_REQUEST_PENDING"
  shows "request_ok (failed x)" "same_view x (failed x)"
  using assms by (auto simp: failed_def freed_def request_ok_def same_view_def pending_at_def)

lemma fail_ok:
  assumes "ipc_ok k" "r < IPC_MAX_REQUESTS" "rq_state (req k r) \<noteq> IPC_REQUEST_PENDING"
  shows "ipc_ok (request_fail c r k)"
  by (rule ipc_ok_pool [OF assms(1) fail_change])
    (use assms failed_view pool_okD [OF ipc_okD(1) [OF assms(1)]] in \<open>auto simp: same_view_def\<close>)

lemma maybe_free_ok: "ipc_ok k \<Longrightarrow> request_maybe_free r k = k"
proof -
  assume ok: "ipc_ok k"
  note P = pool_okD [OF ipc_okD(1) [OF ok]]
  show ?thesis
  proof (cases "r < IPC_MAX_REQUESTS")
    case True
    then show ?thesis using P(2) [OF True] by (auto simp: request_maybe_free_def request_ok_def split: if_splits)
  next
    case False
    then show ?thesis using P(1) by (simp add: request_maybe_free_def request_free_def upd_request_def list_update_beyond)
  qed
qed

subsection \<open>The client\<close>

lemma client_unique:
  assumes "clients_ok k" "r < IPC_MAX_REQUESTS" "client_process (req k r) = Some p"
    and "client_process (req k i) = Some p" "i < IPC_MAX_REQUESTS"
  shows "i = r"
proof -
  have "ipc_outstanding (k_processes k p) = Some r" "ipc_outstanding (k_processes k p) = Some i"
    using assms by (simp_all add: clients_ok_def)
  then show ?thesis by simp
qed

lemma poll_ok:
  assumes ok: "ipc_ok k" and r: "r < IPC_MAX_REQUESTS" "client_process (req k r) = Some p"
  shows "ipc_ok (snd (ipc_request_poll k p r))"
proof -
  note D = ipc_okD [OF ok] and P = pool_okD [OF ipc_okD(1) [OF ok]]
  let ?x = "req k r"
  have x: "rq_allocated ?x" "client_active ?x" "request_ok ?x"
    using P(2) [OF r(1)] r(2) by (auto simp: request_ok_def zero_request_def split: if_splits)
  show ?thesis
  proof (cases "rq_state ?x = IPC_REQUEST_PENDING \<or> rq_state ?x = IPC_REQUEST_DELIVERED")
    case True
    then show ?thesis
      using ipc_ok_upd_request [OF ok, of "\<lambda>x. x\<lparr>client_blocked := True\<rparr>" r] x
      by (auto simp: ipc_request_poll_def request_ok_def same_view_def pending_at_def)
  next
    case False
    define cl where "cl = (\<lambda>x :: ipc_request. x\<lparr>client_active := False, client_blocked := False, client_process := None, client_thread := None\<rparr>)"
    define k1 where "k1 = request_maybe_free r (upd_request r cl k)"
    have ch: "pool_change (at r (freed \<circ> cl)) k k1"
      unfolding k1_def at_at [symmetric]
      by (rule pool_change_trans [OF pool_change_upd maybe_free_change]) (simp add: alike_freed)
    note C = pool_changeD [OF ch]
    have fr: "request_ok (freed (cl ?x))" "context_live (freed (cl ?x)) = context_live ?x"
        "client_process (freed (cl ?x)) = None" "pending_at (freed (cl ?x)) = pending_at ?x"
      using x False by (auto simp: freed_def cl_def request_ok_def zero_request_def pending_at_def)
    have y: "context_live (req k1 i) = context_live (req k i)"
        "client_process (req k1 i) = (if i = r then None else client_process (req k i))"
        "pending_at (req k1 i) = pending_at (req k i)"
      if "i < IPC_MAX_REQUESTS" for i
      using alike_sel(4,6) [OF C(10), of i] alike_pending [OF C(10), of i] fr that P(1) by (auto split: if_splits)
    have out: "client_leaves p r k = upd_process p (\<lambda>x. if ipc_outstanding x = Some r then x\<lparr>ipc_outstanding := None\<rparr> else x) k1"
      by (simp add: client_leaves_def k1_def cl_def request_maybe_free_def request_free_def upd_process_def upd_request_def)
    have "pool_ok k1" by (rule pool_ok_change [OF D(1) ch]) (use fr(1) P(2) in auto)
    then have "pool_ok (client_leaves p r k)" by (simp add: out pool_ok_def)
    moreover have "registry_ok (client_leaves p r k)" by (rule registry_ok_cong [OF D(2)]) (simp_all add: out C)
    moreover have "queues_ok (client_leaves p r k)"
      by (rule queues_ok_cong [OF D(3)])
        (use y(3) D(3) in \<open>auto simp: out C queues_ok_def\<close>)
    moreover have "contexts_ok (client_leaves p r k)" by (rule contexts_ok_cong [OF D(5)]) (simp_all add: out C y)
    moreover have "clients_ok (client_leaves p r k)"
      using D(4) r y(2) unfolding clients_ok_def by (auto simp: out C dest: client_unique [OF D(4) r] split: if_splits)
    ultimately have "ipc_ok (client_leaves p r k)" by (simp add: ipc_ok_def)
    then show ?thesis using False by (simp add: ipc_request_poll_def)
  qed
qed

text \<open>Waking the receiver, and the other changes of an endpoint that its queue does not show.\<close>

lemma ipc_ok_endpoint:
  assumes ok: "ipc_ok k" and f: "ep_live (f (endpoints k e)) = ep_live (endpoints k e)"
      "ep_name (f (endpoints k e)) = ep_name (endpoints k e)"
    and q: "e \<in> set (endpoint_list k) \<Longrightarrow> ring_wf (f (endpoints k e)) \<and>
      queue_requests (f (endpoints k e)) = queue_requests (endpoints k e)"
  shows "ipc_ok (upd_endpoint e f k)"
proof -
  note D = ipc_okD [OF ok]
  have "queues_ok (upd_endpoint e f k)"
    by (rule queues_ok_cong [OF D(3)]) (use q D(3) in \<open>auto simp: queues_ok_def\<close>)
  moreover have "registry_ok (upd_endpoint e f k)" by (rule registry_ok_cong [OF D(2)]) (simp_all add: f)
  moreover have "contexts_ok (upd_endpoint e f k)" by (rule contexts_ok_cong [OF D(5)]) simp_all
  ultimately show ?thesis using D(1,4) by (simp add: ipc_ok_def pool_ok_def clients_ok_def)
qed

lemma ipc_ok_sched [simp]: "ipc_ok (k\<lparr>k_sched := s\<rparr>) = ipc_ok k"
  by (simp add: ipc_ok_def ipc_parts is_context_def)

lemma ipc_ok_next_id [simp]: "ipc_ok (k\<lparr>next_request_id := n\<rparr>) = ipc_ok k"
  by (simp add: ipc_ok_def ipc_parts is_context_def)

lemma ring_wf_waiter [simp]:
  "ring_wf (ep\<lparr>receiver_waiter := t\<rparr>) = ring_wf ep" "ring_wf (ep\<lparr>event_overflow := b\<rparr>) = ring_wf ep"
  "ring_wf (ep\<lparr>event_classes := c\<rparr>) = ring_wf ep"
  "queue_requests (ep\<lparr>receiver_waiter := t\<rparr>) = queue_requests ep"
  "queue_requests (ep\<lparr>event_overflow := b\<rparr>) = queue_requests ep"
  "queue_requests (ep\<lparr>event_classes := c\<rparr>) = queue_requests ep"
  by (simp_all add: ring_wf_def ring_index_def queue_requests_def queue_list_def)

lemma queues_okD:
  assumes "ipc_ok k" "e \<in> set (endpoint_list k)"
  shows "ring_wf (endpoints k e)" "distinct (queue_requests (endpoints k e))"
    "set (queue_requests (endpoints k e)) = Some ` {r. r < IPC_MAX_REQUESTS \<and> pending_at (req k r) = Some (Some e)}"
  using assms by (auto simp: ipc_ok_def queues_ok_def)

lemma wake_receiver_ok: "ipc_ok k \<Longrightarrow> ipc_ok (wake_receiver c e k)"
  unfolding wake_receiver_def
  by (auto split: option.split prod.split bool.split intro!: ipc_ok_endpoint dest: queues_okD(1))

lemma endpoint_put_requests:
  assumes "ring_wf ep" "queue_count ep < IPC_MAX_QUEUE_DEPTH"
  shows "queue_requests (endpoint_put ep (request_delivery r)) = queue_requests ep @ [Some r]"
    "queue_requests (endpoint_put ep (event_delivery v)) = queue_requests ep"
  using endpoint_put_list [OF assms]
  by (simp_all add: queue_requests_def request_delivery_def event_delivery_def)

lemma enqueue_new_ok:
  assumes ok: "ipc_ok k" and e: "e \<in> set (endpoint_list k)" "queue_count (endpoints k e) < IPC_MAX_QUEUE_DEPTH"
    and p: "ipc_outstanding (k_processes k p) = None" and r: "r < IPC_MAX_REQUESTS" "\<not> rq_allocated (req k r)"
    and x: "pending_at x = Some (Some e)" "request_ok x" "client_process x = Some p" "\<not> context_live x"
  shows "ipc_ok (upd_endpoint e (\<lambda>y. endpoint_put y (request_delivery r))
    (upd_process p (\<lambda>y. y\<lparr>ipc_outstanding := Some r\<rparr>) (upd_request r (\<lambda>_. x) k)))" (is "ipc_ok ?k")
proof -
  note D = ipc_okD [OF ok] and P = pool_okD [OF ipc_okD(1) [OF ok]] and Q = queues_okD [OF ok e(1)]
  have z: "req k r = zero_request" using P(2) [OF r(1)] r(2) by (simp add: request_ok_def)
  have z': "pending_at (req k r) = None" "client_process (req k r) = None" "\<not> context_live (req k r)"
    by (simp_all add: z pending_at_def zero_request_def)
  have rq: "req ?k i = (if i = r then x else req k i)" if "i < IPC_MAX_REQUESTS" for i
    using that P(1) by simp
  have pe: "{i. i < IPC_MAX_REQUESTS \<and> pending_at (req ?k i) = Some (Some e')} =
      (if e' = e then insert r else id) {i. i < IPC_MAX_REQUESTS \<and> pending_at (req k i) = Some (Some e')}" for e'
    using rq r(1) x(1) z'(1) by (auto split: if_splits)
  have new: "Some r \<notin> set (queue_requests (endpoints k e))" using Q(3) z'(1) by auto
  have "request_ok (req ?k i)" if "i < IPC_MAX_REQUESTS" for i
    unfolding rq [OF that] using P(2) [OF that] x(2) by simp
  then have "pool_ok ?k" using P(1) unfolding pool_ok_def by simp
  moreover have "registry_ok ?k" by (rule registry_ok_cong [OF D(2)]) (simp_all add: endpoint_put_def)
  moreover have "queues_ok ?k"
    unfolding queues_ok_def
  proof (intro conjI ballI allI impI)
    fix e' assume "e' \<in> set (endpoint_list ?k)"
    then have e': "e' \<in> set (endpoint_list k)" by simp
    note Q' = queues_okD [OF ok e']
    show "ring_wf (endpoints ?k e')" using Q(1) Q'(1) e(2) endpoint_put_wf by simp
    show "distinct (queue_requests (endpoints ?k e'))"
      using Q(2) Q'(2) new endpoint_put_requests [OF Q(1) e(2)] by simp
    show "set (queue_requests (endpoints ?k e')) =
        Some ` {i. i < IPC_MAX_REQUESTS \<and> pending_at (req ?k i) = Some (Some e')}"
      unfolding pe using Q'(3) Q(3) endpoint_put_requests [OF Q(1) e(2)] by simp
  next
    fix i assume "i < IPC_MAX_REQUESTS" "pending_at (req ?k i) \<noteq> None"
    then show "\<exists>e'\<in>set (endpoint_list ?k). pending_at (req ?k i) = Some (Some e')"
      using rq x(1) e(1) D(3) by (auto simp: queues_ok_def split: if_splits)
  qed
  moreover have "client_process (req k i) \<noteq> Some p" if "i < IPC_MAX_REQUESTS" for i
    using D(4) p that by (metis clients_ok_def option.distinct(1))
  then have "clients_ok ?k"
    using D(4) rq x(3) r(1) z'(2) p unfolding clients_ok_def by (auto split: if_splits)
  moreover have "contexts_ok ?k"
    by (rule contexts_ok_cong [OF D(5)]) (use rq x(4) z'(3) in simp_all)
  ultimately show ?thesis by (simp add: ipc_ok_def)
qed

lemma upd_request_twice: "upd_request r f (upd_request r g k) = upd_request r (\<lambda>x. f (g x)) k"
  by (cases "r < length (request_pool k)") (simp_all add: upd_request_def list_update_beyond)

lemma next_id_eq:
  "next_id k = (if next_request_id k = 0 then 1 else next_request_id k,
     k\<lparr>next_request_id := (if next_request_id k = 0 then 2 else next_request_id k + 1)\<rparr>)"
  by (simp add: next_id_def Let_def)

lemma upd_request_next_id [simp]:
  "upd_request r f (k\<lparr>next_request_id := n\<rparr>) = (upd_request r f k)\<lparr>next_request_id := n\<rparr>"
  "upd_process p h (k\<lparr>next_request_id := n\<rparr>) = (upd_process p h k)\<lparr>next_request_id := n\<rparr>"
  "upd_endpoint e g (k\<lparr>next_request_id := n\<rparr>) = (upd_endpoint e g k)\<lparr>next_request_id := n\<rparr>"
  by (simp_all add: upd_request_def upd_process_def upd_endpoint_def)

text \<open>A send changes nothing, or puts a new pending request at the end of the endpoint's queue.\<close>

lemma send_cases:
  obtains "snd (ipc_request_send c k p hnd m) = k" "\<exists>err. fst (ipc_request_send c k p hnd m) = Inl err"
  | e cred r i n where "m \<noteq> None" "ipc_message_validate m = MG_OK"
      "process_handle_lookup (k_objects k) (k_processes k p) hnd OBJECT_TYPE_IPC_ENDPOINT OBJECT_RIGHT_WRITE = Some e"
      "process_get_credentials (k_identity k) (k_processes k p) = Some cred"
      "ep_live (endpoints k e)" "queue_count (endpoints k e) < IPC_MAX_QUEUE_DEPTH"
      "ipc_outstanding (k_processes k p) = None" "first_index (\<lambda>x. \<not> rq_allocated x) (request_pool k) = Some r"
      "ipc_request_send c k p hnd m = (Inr r, wake_receiver c e ((upd_endpoint e (\<lambda>y. endpoint_put y (request_delivery r))
        (upd_process p (\<lambda>y. y\<lparr>ipc_outstanding := Some r\<rparr>) (upd_request r (\<lambda>_. fill_request k c p e cred (the m) i
          (zero_request\<lparr>rq_allocated := True, rq_state := IPC_REQUEST_PENDING\<rparr>)) k)))\<lparr>next_request_id := n\<rparr>))"
proof (cases "\<exists>err. ipc_request_send c k p hnd m = (Inl err, k)")
  case True
  then show ?thesis using that(1) by auto
next
  case False
  then obtain e cred r where c: "m \<noteq> None" "ipc_message_validate m = MG_OK"
      "process_handle_lookup (k_objects k) (k_processes k p) hnd OBJECT_TYPE_IPC_ENDPOINT OBJECT_RIGHT_WRITE = Some e"
      "process_get_credentials (k_identity k) (k_processes k p) = Some cred"
      "ep_live (endpoints k e)" "queue_count (endpoints k e) < IPC_MAX_QUEUE_DEPTH"
      "ipc_outstanding (k_processes k p) = None" "first_index (\<lambda>x. \<not> rq_allocated x) (request_pool k) = Some r"
    unfolding ipc_request_send_def request_allocate_locked_def
    by (auto simp: not_le split: if_splits option.splits)
  have f: "fill_request (k'\<lparr>next_request_id := n\<rparr>) c p e cred msg i = fill_request k' c p e cred msg i"
    "fill_request (upd_request r g k') c p e cred msg i = fill_request k' c p e cred msg i" for n k' msg i g
    by (simp_all add: fill_request_def fun_eq_iff)
  let ?k1 = "upd_request r (\<lambda>_. zero_request\<lparr>rq_allocated := True, rq_state := IPC_REQUEST_PENDING\<rparr>) k"
  obtain i n where ni: "next_id ?k1 = (i, ?k1\<lparr>next_request_id := n\<rparr>)" using next_id_eq by blast
  have up: "upd_endpoint e (\<lambda>_. endpoint_put (endpoints k e) d) k' = upd_endpoint e (\<lambda>y. endpoint_put y d) k'"
    if "endpoints k' = endpoints k" for d k'
    using that by (simp add: upd_endpoint_def)
  show ?thesis
    by (rule that(2) [OF c, where i = i and n = n])
      (use c ni in \<open>simp add: ipc_request_send_def request_allocate_locked_def Let_def f upd_request_twice
        endpoint_enqueue_request_def up\<close>)
qed

lemma registry_live: "ipc_ok k \<Longrightarrow> ep_live (endpoints k e) \<longleftrightarrow> e \<in> set (endpoint_list k)"
  by (simp add: ipc_ok_def registry_ok_def)

lemma send_ok:
  assumes ok: "ipc_ok k"
  shows "ipc_ok (snd (ipc_request_send c k p hnd m))"
proof (rule send_cases [of c k p hnd m])
  fix e cred r i n
  assume e: "ep_live (endpoints k e)" "queue_count (endpoints k e) < IPC_MAX_QUEUE_DEPTH"
    and p: "ipc_outstanding (k_processes k p) = None"
    and fi: "first_index (\<lambda>x. \<not> rq_allocated x) (request_pool k) = Some r"
    and s: "ipc_request_send c k p hnd m = (Inr r, wake_receiver c e ((upd_endpoint e (\<lambda>y. endpoint_put y (request_delivery r))
        (upd_process p (\<lambda>y. y\<lparr>ipc_outstanding := Some r\<rparr>) (upd_request r (\<lambda>_. fill_request k c p e cred (the m) i
          (zero_request\<lparr>rq_allocated := True, rq_state := IPC_REQUEST_PENDING\<rparr>)) k)))\<lparr>next_request_id := n\<rparr>))"
  have r: "r < IPC_MAX_REQUESTS" "\<not> rq_allocated (req k r)"
    using first_index_SomeD [OF fi] pool_okD(1) [OF ipc_okD(1) [OF ok]] by auto
  show ?thesis
    unfolding s snd_conv
    by (intro wake_receiver_ok, simp, intro enqueue_new_ok ok e(2) p r)
      (use e registry_live [OF ok] in \<open>simp_all add: pending_at_def request_ok_def fill_request_def zero_request_def\<close>)
qed (use ok in simp)

subsection \<open>Receiving\<close>

lemma queue_requests_Cons:
  "queue_list ep = d # ds \<Longrightarrow> queue_list ep' = ds \<Longrightarrow>
    queue_requests ep = (if is_event d then queue_requests ep' else dl_request d # queue_requests ep')"
  by (simp add: queue_requests_def)

lemma dequeue_frame:
  "endpoint_dequeue ep = Some (d, ep') \<Longrightarrow> ep_live ep' = ep_live ep \<and> ep_name ep' = ep_name ep \<and> ep_owner ep' = ep_owner ep"
  by (auto simp: endpoint_dequeue_def split: if_splits)

text \<open>Taking an event off the queue; taking a request off the queue and marking it delivered.\<close>

lemma dequeue_ok:
  assumes ok: "ipc_ok k" and e: "ep_live (endpoints k e)" and d: "endpoint_dequeue (endpoints k e) = Some (d, ep')"
  shows "is_event d \<Longrightarrow> ipc_ok (upd_endpoint e (\<lambda>_. ep') k)"
    and "\<not> is_event d \<Longrightarrow> \<exists>r<IPC_MAX_REQUESTS. dl_request d = Some r \<and> pending_at (req k r) = Some (Some e) \<and>
      ipc_ok (upd_request r (\<lambda>x. x\<lparr>rq_state := IPC_REQUEST_DELIVERED\<rparr>) (upd_endpoint e (\<lambda>_. ep') k))"
proof -
  note D = ipc_okD [OF ok] and P = pool_okD [OF ipc_okD(1) [OF ok]]
  have el: "e \<in> set (endpoint_list k)" using e registry_live [OF ok] by simp
  note Q = queues_okD [OF ok el] and F = dequeue_frame [OF d]
  have ne: "queue_list (endpoints k e) \<noteq> []" using d endpoint_dequeue_None [of "endpoints k e"] by auto
  then obtain d' ds where q: "queue_list (endpoints k e) = d' # ds" by (cases "queue_list (endpoints k e)") auto
  from endpoint_dequeue_Some [OF Q(1) this] d have wf: "ring_wf ep'" "queue_list ep' = ds" "d' = d" by auto
  note qr = queue_requests_Cons [OF q [unfolded wf(3)] wf(2)]
  show "ipc_ok (upd_endpoint e (\<lambda>_. ep') k)" if "is_event d"
    by (rule ipc_ok_endpoint [OF ok]) (use F wf qr that in simp_all)
  assume ev: "\<not> is_event d"
  have "dl_request d \<in> Some ` {r. r < IPC_MAX_REQUESTS \<and> pending_at (req k r) = Some (Some e)}"
    using Q(3) qr ev by (metis list.set_intros(1))
  then obtain r where r: "r < IPC_MAX_REQUESTS" "dl_request d = Some r" "pending_at (req k r) = Some (Some e)" by auto
  let ?f = "\<lambda>x. x\<lparr>rq_state := IPC_REQUEST_DELIVERED\<rparr>"
  let ?k = "upd_request r ?f (upd_endpoint e (\<lambda>_. ep') k)"
  have rq: "req ?k i = (if i = r then ?f (req k i) else req k i)" if "i < IPC_MAX_REQUESTS" for i
    using that P(1) by simp
  have pe: "pending_at (req ?k i) = (if i = r then None else pending_at (req k i))" if "i < IPC_MAX_REQUESTS" for i
    using rq [OF that] by (simp add: pending_at_def)
  have x: "rq_allocated (req k r)" "client_active (req k r)" "request_ok (req k r)"
    using r(3) P(2) [OF r(1)] by (auto simp: pending_at_def request_ok_def split: if_splits)
  have "pool_ok ?k"
    using D(1) x r(1) unfolding pool_ok_def by (auto simp: nth_list_update request_ok_def)
  moreover have "registry_ok ?k" by (rule registry_ok_cong [OF D(2)]) (simp_all add: F)
  moreover have "queues_ok ?k"
    unfolding queues_ok_def
  proof (intro conjI ballI allI impI)
    fix e' assume "e' \<in> set (endpoint_list ?k)"
    then have e': "e' \<in> set (endpoint_list k)" by simp
    note Q' = queues_okD [OF ok e']
    show "ring_wf (endpoints ?k e')" using Q'(1) wf(1) by simp
    show "distinct (queue_requests (endpoints ?k e'))" using Q'(2) Q(2) qr ev by simp
    have "{i. i < IPC_MAX_REQUESTS \<and> pending_at (req ?k i) = Some (Some e')} =
        {i. i < IPC_MAX_REQUESTS \<and> pending_at (req k i) = Some (Some e')} - {r}"
      using pe by (auto split: if_splits)
    moreover have "set (queue_requests (endpoints ?k e')) = set (queue_requests (endpoints k e')) - {Some r}"
      using Q(2) qr ev r(2,3) Q'(3) by (cases "e' = e") auto
    ultimately show "set (queue_requests (endpoints ?k e')) =
        Some ` {i. i < IPC_MAX_REQUESTS \<and> pending_at (req ?k i) = Some (Some e')}"
      unfolding Q'(3) by auto
  next
    fix i assume "i < IPC_MAX_REQUESTS" "pending_at (req ?k i) \<noteq> None"
    then show "\<exists>e'\<in>set (endpoint_list ?k). pending_at (req ?k i) = Some (Some e')"
      using pe D(3) by (auto simp: queues_ok_def split: if_splits)
  qed
  moreover have "clients_ok ?k" by (rule clients_ok_cong [OF D(4)]) (use rq in auto)
  moreover have "contexts_ok ?k" by (rule contexts_ok_cong [OF D(5)]) (use rq in auto)
  ultimately show "\<exists>r<IPC_MAX_REQUESTS. dl_request d = Some r \<and> pending_at (req k r) = Some (Some e) \<and>
      ipc_ok (upd_request r ?f (upd_endpoint e (\<lambda>_. ep') k))"
    using r by (auto simp: ipc_ok_def)
qed

end
