(* ===== verification/Ipc_Steps.thy ===== *)
theory Ipc_Steps
  imports Ipc_Inv
begin

section \<open>The remaining operations keep the invariant\<close>

text \<open>
  Request contexts come and go, endpoints are registered and unregistered, processes exit: the
  operations of \<^theory_text>\<open>Ipc\<close> that create or destroy something keep \<^const>\<open>ipc_ok\<close>.
\<close>

subsection \<open>Request contexts\<close>

lemma contexts_ok_objects:
  assumes "contexts_ok k" "\<And>a. is_context k a \<Longrightarrow> contexts k' a = contexts k a"
    and "\<And>a. is_context k' a = is_context k a"
    and "\<And>a. is_context k a \<Longrightarrow> map_option destroy (k_objects k' a) = map_option destroy (k_objects k a)"
    and "\<And>r. r < IPC_MAX_REQUESTS \<Longrightarrow> context_live (req k' r) = context_live (req k r)"
  shows "contexts_ok k'"
  unfolding contexts_ok_def assms(3)
proof (intro conjI allI impI)
  note C = assms(1) [unfolded contexts_ok_def]
  fix a assume a: "is_context k a"
  show "map_option destroy (k_objects k' a) = Some (Some destroy_fn.request_context_destroy)"
    using C a assms(4) [OF a] by simp
  show "\<exists>r<IPC_MAX_REQUESTS. ctx_request (contexts k' a) = Some r \<and> context_live (req k' r)"
    using C a assms(5) unfolding assms(2) [OF a] by blast
  show "a = b" if "is_context k b" "ctx_request (contexts k' a) = ctx_request (contexts k' b)" for b
    using C a that unfolding assms(2) [OF a] assms(2) [OF that(1)] by blast
next
  note C = assms(1) [unfolded contexts_ok_def]
  fix r assume "r < IPC_MAX_REQUESTS" "context_live (req k' r)"
  then obtain a where "is_context k a" "ctx_request (contexts k a) = Some r" using C assms(5) by blast
  then show "\<exists>a. is_context k a \<and> ctx_request (contexts k' a) = Some r" using assms(2) by auto
qed

lemma ipc_ok_frame:
  assumes ok: "ipc_ok k" and "request_pool k' = request_pool k" "endpoints k' = endpoints k"
    "endpoint_list k' = endpoint_list k" "endpoint_count k' = endpoint_count k"
    "\<And>p. ipc_outstanding (k_processes k' p) = ipc_outstanding (k_processes k p)"
    and "contexts_ok k'"
  shows "ipc_ok k'"
proof -
  have "registry_ok k'" "queues_ok k'" "clients_ok k'" "pool_ok k'"
    using ipc_okD [OF ok] unfolding ipc_parts assms(2-6) by blast+
  then show ?thesis using assms(7) by (simp add: ipc_ok_def)
qed

lemma add_context_ok:
  assumes ok: "ipc_ok k" and r: "r < IPC_MAX_REQUESTS" "rq_state (req k r) = IPC_REQUEST_DELIVERED"
      "rq_allocated (req k r)" "\<not> context_live (req k r)" and a: "k_objects k a = None"
  shows "ipc_ok (upd_request r (\<lambda>x. x\<lparr>context_live := True\<rparr>)
    (k\<lparr>contexts := (contexts k)(a := \<lparr>ctx_request = Some r, ctx_owner = p\<rparr>),
       k_objects := (k_objects k)(a \<mapsto> object_init OBJECT_TYPE_IPC_REQUEST (Some destroy_fn.request_context_destroy))\<rparr>))"
    (is "ipc_ok ?k")
proof -
  note D = ipc_okD [OF ok] and P = pool_okD [OF ipc_okD(1) [OF ok]]
  have rq: "req ?k i = (if i = r then (req k i)\<lparr>context_live := True\<rparr> else req k i)" if "i < IPC_MAX_REQUESTS" for i
    using that P(1) by simp
  have ctx: "is_context ?k b \<longleftrightarrow> b = a \<or> is_context k b" for b by (simp add: is_context_def object_init_def)
  have na: "\<not> is_context k a" using a by (simp add: is_context_def)
  have fresh: "ctx_request (contexts k b) \<noteq> Some r" if "is_context k b" for b
    using D(5) r(1,4) that unfolding contexts_ok_def by auto
  have "request_ok (req ?k i)" if "i < IPC_MAX_REQUESTS" for i
    unfolding rq [OF that] using P(2) [OF that] r by (cases "i = r") (auto simp: request_ok_def)
  then have "pool_ok ?k" using P(1) by (simp add: pool_ok_def)
  moreover have "registry_ok ?k" by (rule registry_ok_cong [OF D(2)]) simp_all
  moreover have "queues_ok ?k"
    by (rule queues_ok_cong [OF D(3)]) (use rq D(3) in \<open>auto simp: queues_ok_def pending_at_def\<close>)
  moreover have "clients_ok ?k" by (rule clients_ok_cong [OF D(4)]) (use rq in auto)
  moreover have "contexts_ok ?k"
    unfolding contexts_ok_def
  proof (intro conjI allI impI)
    fix b assume b: "is_context ?k b"
    show "map_option destroy (k_objects ?k b) = Some (Some destroy_fn.request_context_destroy)"
      using b D(5) unfolding ctx contexts_ok_def by (auto simp: object_init_def)
    show "\<exists>i<IPC_MAX_REQUESTS. ctx_request (contexts ?k b) = Some i \<and> context_live (req ?k i)"
    proof (cases "b = a")
      case True
      then show ?thesis using r(1) rq [OF r(1)] by (intro exI [of _ r]) simp
    next
      case False
      then obtain i where i: "i < IPC_MAX_REQUESTS" "ctx_request (contexts k b) = Some i" "context_live (req k i)"
        using b D(5) unfolding ctx contexts_ok_def by blast
      then show ?thesis using False rq [OF i(1)] by (intro exI [of _ i]) simp
    qed
  next
    fix b b' assume "is_context ?k b" "is_context ?k b'" "ctx_request (contexts ?k b) = ctx_request (contexts ?k b')"
    then show "b = b'" using D(5) fresh unfolding ctx contexts_ok_def by (auto split: if_splits)
  next
    fix i assume i: "i < IPC_MAX_REQUESTS" "context_live (req ?k i)"
    show "\<exists>b. is_context ?k b \<and> ctx_request (contexts ?k b) = Some i"
    proof (cases "i = r")
      case False
      then obtain b where "is_context k b" "ctx_request (contexts k b) = Some i"
        using D(5) i rq unfolding contexts_ok_def by auto
      then show ?thesis using na unfolding ctx by (intro exI [of _ b]) auto
    qed (use ctx in auto)
  qed
  ultimately show ?thesis by (simp add: ipc_ok_def)
qed

text \<open>The last handle of a context is closed: the context goes, and with it the claim on its request.\<close>

definition dropped :: "ipc_request \<Rightarrow> ipc_request" where
  "dropped x = (let y = x\<lparr>context_live := False\<rparr> in
     freed (if rq_state y = IPC_REQUEST_PENDING \<or> rq_state y = IPC_REQUEST_DELIVERED then failed y else y))"

lemma pool_change_cong:
  assumes "pool_change g k k'" "\<And>i. i < length (request_pool k) \<Longrightarrow> g i (req k i) = h i (req k i)"
  shows "pool_change h k k'"
  using assms(1) unfolding pool_change_def using assms(2) by (metis (no_types, lifting))

lemma context_destroy_change:
  assumes "ctx_request (contexts k a) = Some r" "rq_allocated (req k r)" "r < length (request_pool k)"
  shows "pool_change (at r dropped) k (request_context_destroy c a k)"
proof -
  let ?f = "\<lambda>x :: ipc_request. x\<lparr>context_live := False\<rparr>"
  define opn where "opn = (rq_state (req k r) = IPC_REQUEST_PENDING \<or> rq_state (req k r) = IPC_REQUEST_DELIVERED)"
  define k2 where "k2 = (if opn then request_fail c r (upd_request r ?f k) else upd_request r ?f k)"
  have d: "request_context_destroy c a k = request_maybe_free r k2"
    using assms by (simp add: request_context_destroy_def k2_def opn_def Let_def)
  have "pool_change (at r (if opn then failed \<circ> ?f else ?f)) k k2"
  proof (cases opn)
    case True
    have "pool_change (at r (failed \<circ> ?f)) k (request_fail c r (upd_request r ?f k))"
      unfolding at_at [symmetric] by (rule pool_change_trans [OF pool_change_upd fail_change]) (simp add: alike_failed)
    with True show ?thesis by (simp add: k2_def)
  qed (use pool_change_upd [of r ?f k] in \<open>simp add: k2_def\<close>)
  from pool_change_trans [OF this maybe_free_change [of r]]
  have "pool_change (\<lambda>i x. at r freed i (at r (if opn then failed \<circ> ?f else ?f) i x)) k (request_context_destroy c a k)"
    by (simp add: d alike_freed)
  then show ?thesis by (rule pool_change_cong) (simp add: dropped_def opn_def Let_def)
qed

lemma dropped_view:
  assumes "request_ok x" "context_live x"
  shows "request_ok (dropped x)" "pending_at (dropped x) = pending_at x"
    "client_process (dropped x) = client_process x" "\<not> context_live (dropped x)"
proof -
  have x: "rq_allocated x" "rq_state x \<noteq> IPC_REQUEST_PENDING" "rq_state x \<noteq> IPC_REQUEST_FREE"
    "client_active x \<longleftrightarrow> client_process x \<noteq> None"
    using assms by (auto simp: request_ok_def zero_request_def split: if_splits)
  then show "request_ok (dropped x)" "pending_at (dropped x) = pending_at x"
    "client_process (dropped x) = client_process x" "\<not> context_live (dropped x)"
    by (auto simp: dropped_def freed_def failed_def request_ok_def pending_at_def zero_request_def Let_def)
qed

lemma drop_context_ok:
  assumes ok: "ipc_ok k" and a: "is_context k a"
  shows "ipc_ok (request_context_destroy c a (k\<lparr>k_objects := (k_objects k)(a := None)\<rparr>))" (is "ipc_ok ?k'")
proof -
  let ?k = "k\<lparr>k_objects := (k_objects k)(a := None)\<rparr>"
  note D = ipc_okD [OF ok] and P = pool_okD [OF ipc_okD(1) [OF ok]]
  obtain r where r: "r < IPC_MAX_REQUESTS" "ctx_request (contexts k a) = Some r" "context_live (req k r)"
    using D(5) a unfolding contexts_ok_def by blast
  have al: "rq_allocated (req k r)" using P(2) [OF r(1)] r(3) by (auto simp: request_ok_def zero_request_def split: if_splits)
  have ch: "pool_change (at r dropped) ?k ?k'" by (rule context_destroy_change) (use r P(1) al in simp_all)
  note C = pool_changeD [OF ch] and V = dropped_view [OF P(2) [OF r(1)] r(3)]
  have y: "pending_at (req ?k' i) = pending_at (req k i)" "client_process (req ?k' i) = client_process (req k i)"
      "context_live (req ?k' i) \<longleftrightarrow> context_live (req k i) \<and> i \<noteq> r"
    if "i < IPC_MAX_REQUESTS" for i
    using alike_sel(4,6) [OF C(10), of i] alike_pending [OF C(10), of i] V that P(1) by (auto split: if_splits)
  have ctx: "is_context ?k' b \<longleftrightarrow> is_context k b \<and> b \<noteq> a" for b by (simp add: is_context_def C)
  have "pool_ok ?k" using D(1) by (simp add: pool_ok_def)
  then have "pool_ok ?k'" by (rule pool_ok_change [OF _ ch]) (use P(2) V(1) in auto)
  moreover have "registry_ok ?k'" by (rule registry_ok_cong [OF D(2)]) (simp_all add: C)
  moreover have "queues_ok ?k'" by (rule queues_ok_cong [OF D(3)]) (use y(1) D(3) in \<open>auto simp: C queues_ok_def\<close>)
  moreover have "clients_ok ?k'" by (rule clients_ok_cong [OF D(4)]) (use y(2) in \<open>auto simp: C\<close>)
  moreover have "contexts_ok ?k'"
    unfolding contexts_ok_def
  proof (intro conjI allI impI)
    fix b assume "is_context ?k' b"
    then have b: "is_context k b" "b \<noteq> a" unfolding ctx by auto
    show "map_option destroy (k_objects ?k' b) = Some (Some destroy_fn.request_context_destroy)"
      using b D(5) by (simp add: C contexts_ok_def)
    obtain i where i: "i < IPC_MAX_REQUESTS" "ctx_request (contexts k b) = Some i" "context_live (req k i)"
      using D(5) b(1) unfolding contexts_ok_def by blast
    then have "i \<noteq> r" using D(5) a b r(2) unfolding contexts_ok_def by metis
    then show "\<exists>i<IPC_MAX_REQUESTS. ctx_request (contexts ?k' b) = Some i \<and> context_live (req ?k' i)"
      using i y(3) by (auto simp: C)
  next
    fix b b' assume "is_context ?k' b" "is_context ?k' b'" "ctx_request (contexts ?k' b) = ctx_request (contexts ?k' b')"
    then show "b = b'" using D(5) unfolding ctx contexts_ok_def by (simp add: C)
  next
    fix i assume "i < IPC_MAX_REQUESTS" "context_live (req ?k' i)"
    then have i: "i < IPC_MAX_REQUESTS" "context_live (req k i)" "i \<noteq> r" using y(3) by auto
    then obtain b where "is_context k b" "ctx_request (contexts k b) = Some i"
      using D(5) unfolding contexts_ok_def by blast
    then show "\<exists>b. is_context ?k' b \<and> ctx_request (contexts ?k' b) = Some i"
      using i(3) r(2) unfolding ctx by (intro exI [of _ b]) (auto simp: C)
  qed
  ultimately show ?thesis by (simp add: ipc_ok_def)
qed

subsection \<open>Receiving\<close>

lemma install_frame:
  assumes "process_handle_install h p ob r = Some (h', p', x)"
  shows "ipc_outstanding p' = ipc_outstanding p" "object_reference h ob = Some h'"
  using assms by (auto elim!: process_handle_install_Some)

lemma upd_request_undo:
  assumes "\<not> context_live (req k r)"
  shows "upd_request r (\<lambda>x. x\<lparr>context_live := False\<rparr>) (upd_request r (\<lambda>x. x\<lparr>context_live := True\<rparr>) k) = k"
    "upd_request r (\<lambda>x. x\<lparr>context_live := False\<rparr>) k = k"
proof -
  have "(req k r)\<lparr>context_live := False\<rparr> = req k r" using assms by simp
  then show "upd_request r (\<lambda>x. x\<lparr>context_live := False\<rparr>) k = k" by (simp add: upd_request_def)
  then show "upd_request r (\<lambda>x. x\<lparr>context_live := False\<rparr>) (upd_request r (\<lambda>x. x\<lparr>context_live := True\<rparr>) k) = k"
    by (simp add: upd_request_twice)
qed

lemma pool_change_objects:
  assumes "pool_change g (k\<lparr>k_objects := h\<rparr>) k'"
  shows "pool_change g k (k'\<lparr>k_objects := k_objects k\<rparr>)"
proof -
  obtain P S where k': "k' = k\<lparr>k_objects := h\<rparr>\<lparr>request_pool := P, k_sched := S\<rparr>"
    using assms unfolding pool_change_def by blast
  show ?thesis using assms unfolding pool_change_def k' by simp
qed

text \<open>A context object that could not be installed: its request fails and nothing of it remains.\<close>

lemma install_refused_ok:
  assumes ok: "ipc_ok k" and r: "r < IPC_MAX_REQUESTS" "rq_state (req k r) = IPC_REQUEST_DELIVERED"
      "\<not> context_live (req k r)" and al: "rq_allocated (req k r)" and a: "k_objects k a = None"
    and k2: "k2 = k\<lparr>contexts := (contexts k)(a := \<lparr>ctx_request = Some r, ctx_owner = p\<rparr>), k_objects := h\<rparr>"
  shows "ipc_ok (request_context_destroy c a ((request_fail c r k2)\<lparr>k_objects := k_objects k\<rparr>))"
proof -
  define k1 where "k1 = k\<lparr>contexts := (contexts k)(a := \<lparr>ctx_request = Some r, ctx_owner = p\<rparr>)\<rparr>"
  define k3 where "k3 = (request_fail c r k2)\<lparr>k_objects := k_objects k\<rparr>"
  have na: "\<not> is_context k a" using a by (simp add: is_context_def)
  have c1: "contexts_ok k1"
    by (rule contexts_ok_objects [OF ipc_okD(5) [OF ok]]) (use na in \<open>auto simp: k1_def is_context_def\<close>)
  have k1: "ipc_ok k1" by (rule ipc_ok_frame [OF ok _ _ _ _ _ c1]) (simp_all add: k1_def)
  have ch: "pool_change (at r failed) k1 k3"
  proof -
    have k2': "k2 = k1\<lparr>k_objects := h\<rparr>" "k_objects k1 = k_objects k" by (simp_all add: k1_def k2)
    show ?thesis
      using pool_change_objects [OF fail_change [of r "k1\<lparr>k_objects := h\<rparr>" c]] unfolding k3_def k2' .
  qed
  note C = pool_changeD [OF ch]
  have k3: "ipc_ok k3"
    by (rule ipc_ok_pool [OF k1 ch])
      (use r failed_view [of "req k r"] pool_okD(2) [OF ipc_okD(1) [OF ok]] in \<open>simp add: k1_def same_view_def\<close>)
  have f: "\<not> context_live (failed (req k r))" "rq_state (failed (req k r)) \<noteq> IPC_REQUEST_PENDING"
      "rq_state (failed (req k r)) \<noteq> IPC_REQUEST_DELIVERED"
    using r al by (simp_all add: failed_def freed_def zero_request_def)
  have "alike (failed (req k r)) (req k3 r)" using C(10) [of r] r(1) pool_okD(1) [OF ipc_okD(1) [OF ok]] by (simp add: k1_def)
  then have x: "\<not> context_live (req k3 r)" "rq_state (req k3 r) \<noteq> IPC_REQUEST_PENDING" "rq_state (req k3 r) \<noteq> IPC_REQUEST_DELIVERED"
    using f alike_sel(2,6) by metis+
  have "contexts k3 a = \<lparr>ctx_request = Some r, ctx_owner = p\<rparr>" by (simp add: C k1_def)
  then have "request_context_destroy c a k3 = k3"
    using x maybe_free_ok [OF k3] by (simp add: request_context_destroy_def upd_request_undo Let_def)
  then show ?thesis using k3 unfolding k3_def by simp
qed

lemma upd_process_ok:
  assumes ok: "ipc_ok k" and f: "ipc_outstanding (f (k_processes k p)) = ipc_outstanding (k_processes k p)"
  shows "ipc_ok (upd_process p f k)"
proof -
  have "contexts_ok (upd_process p f k)" by (rule contexts_ok_cong [OF ipc_okD(5) [OF ok]]) simp_all
  then show ?thesis by (intro ipc_ok_frame [OF ok]) (use f in simp_all)
qed

lemma deliver_context_ok:
  assumes ok: "ipc_ok k" and r: "r < IPC_MAX_REQUESTS" "rq_state (req k r) = IPC_REQUEST_DELIVERED"
      "rq_allocated (req k r)" "\<not> context_live (req k r)" and a: "k_objects k a = None"
    and k2: "k2 = upd_request r (\<lambda>x. x\<lparr>context_live := True\<rparr>)
      (k\<lparr>contexts := (contexts k)(a := \<lparr>ctx_request = Some r, ctx_owner = p\<rparr>),
         k_objects := (k_objects k)(a \<mapsto> object_init OBJECT_TYPE_IPC_REQUEST (Some destroy_fn.request_context_destroy))\<rparr>)"
  shows "ipc_ok (snd (ipc_receive_install c k2 p r a))"
proof (cases "process_handle_install (k_objects k2) (k_processes k2 p) (Some a) OBJECT_RIGHT_WRITE")
  case None
  let ?k = "k\<lparr>contexts := (contexts k)(a := \<lparr>ctx_request = Some r, ctx_owner = p\<rparr>),
         k_objects := (k_objects k)(a \<mapsto> object_init OBJECT_TYPE_IPC_REQUEST (Some destroy_fn.request_context_destroy))\<rparr>"
  have u: "upd_request r (\<lambda>x. x\<lparr>context_live := False\<rparr>) k2 = ?k"
    unfolding k2 by (rule upd_request_undo) (use r(4) in simp)
  have "k_objects (request_fail c r ?k) = k_objects ?k" by (rule pool_changeD(6) [OF fail_change])
  then have "object_release (k_objects (request_fail c r ?k)) (Some a) =
      (k_objects k, Some (a, Some destroy_fn.request_context_destroy))"
    using a by (simp add: object_release_def object_init_def fun_upd_idem)
  then show ?thesis
    using None install_refused_ok [OF ok r(1,2,4,3) a refl]
    unfolding ipc_receive_install_def by (simp add: u Let_def run_destructor_def)
next
  case (Some q)
  obtain h p' hnd where q: "q = (h, p', hnd)" by (cases q)
  note I = install_frame [OF Some [unfolded q]]
  have "object_release h (Some a) = (k_objects k2, None)" by (rule object_reference_release [OF I(2)])
  moreover have "ipc_ok (upd_process p (\<lambda>_. p') k2)"
    by (rule upd_process_ok) (use I(1) in \<open>simp_all add: k2 add_context_ok [OF ok r a, simplified]\<close>)
  ultimately show ?thesis
    using Some unfolding ipc_receive_install_def
    by (simp add: q run_destructor_def upd_process_def)
qed

lemma marked_request:
  assumes ok: "ipc_ok k" and r: "r < IPC_MAX_REQUESTS" and pe: "pending_at (req k r) = Some e"
    and k1: "request_pool k1 = request_pool k"
  shows "ipc_receive_mark k1 r = Some (upd_request r (\<lambda>x. x\<lparr>rq_state := IPC_REQUEST_DELIVERED\<rparr>) k1)"
    "rq_state (req (upd_request r (\<lambda>x. x\<lparr>rq_state := IPC_REQUEST_DELIVERED\<rparr>) k1) r) = IPC_REQUEST_DELIVERED"
    "rq_allocated (req (upd_request r (\<lambda>x. x\<lparr>rq_state := IPC_REQUEST_DELIVERED\<rparr>) k1) r)"
    "\<not> context_live (req (upd_request r (\<lambda>x. x\<lparr>rq_state := IPC_REQUEST_DELIVERED\<rparr>) k1) r)"
proof -
  have "r < length (request_pool k)" using r pool_okD(1) [OF ipc_okD(1) [OF ok]] by simp
  moreover have "rq_allocated (req k r)" "rq_state (req k r) = IPC_REQUEST_PENDING" "\<not> context_live (req k r)"
    using pe pool_okD(2) [OF ipc_okD(1) [OF ok] r] by (auto simp: pending_at_def request_ok_def split: if_splits)
  ultimately show "ipc_receive_mark k1 r = Some (upd_request r (\<lambda>x. x\<lparr>rq_state := IPC_REQUEST_DELIVERED\<rparr>) k1)"
    "rq_state (req (upd_request r (\<lambda>x. x\<lparr>rq_state := IPC_REQUEST_DELIVERED\<rparr>) k1) r) = IPC_REQUEST_DELIVERED"
    "rq_allocated (req (upd_request r (\<lambda>x. x\<lparr>rq_state := IPC_REQUEST_DELIVERED\<rparr>) k1) r)"
    "\<not> context_live (req (upd_request r (\<lambda>x. x\<lparr>rq_state := IPC_REQUEST_DELIVERED\<rparr>) k1) r)"
    by (simp_all add: ipc_receive_mark_def k1)
qed

lemma receive_deliver_ok:
  assumes ok: "ipc_ok k" and e: "ep_live (endpoints k e)" and d: "endpoint_dequeue (endpoints k e) = Some (d, ep')"
    and b: "\<And>a. block = Some a \<Longrightarrow> k_objects k a = None"
  shows "ipc_ok (snd (ipc_receive_deliver c (upd_endpoint e (\<lambda>_. ep') k) p d block))"
proof (cases "is_event d")
  case True
  then show ?thesis using dequeue_ok(1) [OF ok e d] by (simp add: ipc_receive_deliver_def)
next
  case False
  let ?k1 = "upd_endpoint e (\<lambda>_. ep') k"
  from dequeue_ok(2) [OF ok e d False] obtain r where r: "r < IPC_MAX_REQUESTS" "dl_request d = Some r"
      "pending_at (req k r) = Some (Some e)"
    and k2: "ipc_ok (upd_request r (\<lambda>x. x\<lparr>rq_state := IPC_REQUEST_DELIVERED\<rparr>) ?k1)" by blast
  define k2 where "k2 = upd_request r (\<lambda>x. x\<lparr>rq_state := IPC_REQUEST_DELIVERED\<rparr>) ?k1"
  have del: "ipc_receive_deliver c ?k1 p d block = (case ipc_receive_context c k2 p r block of
      (Inl err, k2) \<Rightarrow> (Inl err, k2) | (Inr a, k2) \<Rightarrow> ipc_receive_install c k2 p r a)"
    using False r(2) marked_request(1) [OF ok r(1,3), of ?k1] by (simp add: ipc_receive_deliver_def k2_def)
  have st: "rq_state (req k2 r) = IPC_REQUEST_DELIVERED" "rq_allocated (req k2 r)" "\<not> context_live (req k2 r)"
    using marked_request(2-4) [OF ok r(1,3), of ?k1] by (simp_all add: k2_def)
  show ?thesis
  proof (cases block)
    case None
    then show ?thesis using fail_ok [OF k2 [folded k2_def] r(1)] st unfolding del unfolding None by (simp add: ipc_receive_context_def)
  next
    case (Some a)
    have "k_objects k2 a = None" using b [OF Some] by (simp add: k2_def)
    from deliver_context_ok [OF k2 [folded k2_def] r(1) st this refl]
    show ?thesis using st unfolding del unfolding Some by (simp add: ipc_receive_context_def)
  qed
qed

lemma receive_round_ok:
  assumes ok: "ipc_ok k" and b: "\<And>a. block = Some a \<Longrightarrow> k_objects k a = None"
  shows "ipc_ok (snd (ipc_receive_round c k p e self wait timed now deadline block))"
proof -
  have quiet: "ipc_ok (upd_endpoint e (\<lambda>x. x\<lparr>receiver_waiter := t\<rparr>) k')"
      "ipc_ok (upd_endpoint e (\<lambda>x. x\<lparr>event_overflow := v\<rparr>) k')" if "ipc_ok k'" for t v k'
    by (rule ipc_ok_endpoint [OF that]; simp add: queues_okD(1) [OF that])+
  have dl: "ipc_ok (snd (ipc_receive_deliver c (upd_endpoint e (\<lambda>_. ep') k) p d block))"
    if "ep_live (endpoints k e)" "endpoint_dequeue (endpoints k e) = Some (d, ep')" for d ep'
    by (rule receive_deliver_ok [OF ok that b])
  show ?thesis
    unfolding ipc_receive_round_def ipc_receive_poll_def
    using ok dl by (simp add: ipc_receive_overflow_def Let_def case_prod_beta quiet split: option.split)
qed

lemma receive_refused_ok: "ipc_ok k \<Longrightarrow> ipc_ok (snd (ipc_receive_refused k e self))"
  by (simp add: ipc_receive_refused_def ipc_ok_endpoint queues_okD(1))

subsection \<open>Replies, claims and events\<close>

lemma request_ok_open:
  assumes "ipc_ok k" "request_open (req k r)" "context_for k p hnd = Inr r"
  shows "r < IPC_MAX_REQUESTS" "request_ok (req k r)"
proof -
  obtain a where a: "process_handle_lookup (k_objects k) (k_processes k p) hnd OBJECT_TYPE_IPC_REQUEST OBJECT_RIGHT_WRITE = Some a"
      "ctx_request (contexts k a) = Some r"
    using assms(3) by (auto simp: context_for_def split: option.splits if_splits)
  have "is_context k a"
    using a(1) by (rule lookup_SomeD) (auto simp: slot_matches_def is_context_def split: option.splits)
  then show "r < IPC_MAX_REQUESTS" using ipc_okD(5) [OF assms(1)] a(2) unfolding contexts_ok_def by fastforce
  then show "request_ok (req k r)" by (rule pool_okD(2) [OF ipc_okD(1) [OF assms(1)]])
qed

lemma reply_ok:
  assumes ok: "ipc_ok k"
  shows "ipc_ok (snd (ipc_kernel_reply c k p hnd m))"
proof -
  have "ipc_ok (upd_request r (\<lambda>x. x\<lparr>reply_type := t, reply_length := l, reply_payload := q,
      rq_state := IPC_REQUEST_REPLIED\<rparr>) k)"
    if "context_for k p hnd = Inr r" "request_open (req k r)" for r t l q
    by (rule ipc_ok_upd_request [OF ok])
      (use that request_ok_open(2) [OF ok that(2,1)] in
        \<open>simp_all add: request_open_def request_ok_def same_view_def pending_at_def\<close>)
  then show ?thesis using ok by (simp add: ipc_kernel_reply_def wake_client_ok split: sum.split)
qed

lemma claim_ok:
  assumes ok: "ipc_ok k"
  shows "ipc_ok (snd (ipc_request_context_claim k p cur hnd n))"
proof -
  have "ipc_ok (upd_request r (\<lambda>x. x\<lparr>authorization_claimed := True\<rparr>) k)"
    if "context_for k p hnd = Inr r" "request_open (req k r)" for r
    by (rule ipc_ok_upd_request [OF ok])
      (use that request_ok_open(2) [OF ok that(2,1)] in
        \<open>simp_all add: request_open_def request_ok_def same_view_def pending_at_def\<close>)
  then show ?thesis using ok by (simp add: ipc_request_context_claim_def split: sum.split)
qed

lemma discard_events_ok:
  assumes ok: "ipc_ok k"
  shows "ipc_ok (upd_endpoint e (\<lambda>x. (endpoint_discard_events x)\<lparr>event_classes := cls\<rparr>) k)"
proof (rule ipc_ok_endpoint [OF ok])
  assume "e \<in> set (endpoint_list k)"
  note E = endpoint_discard_events_wf [OF queues_okD(1) [OF ok this]]
  show "ring_wf ((endpoint_discard_events (endpoints k e))\<lparr>event_classes := cls\<rparr>) \<and>
      queue_requests ((endpoint_discard_events (endpoints k e))\<lparr>event_classes := cls\<rparr>) = queue_requests (endpoints k e)"
    using E(1) queue_requests_def [of "endpoint_discard_events (endpoints k e)"] E(2)
    by (simp add: queue_requests_def [of "endpoints k e"])
qed (simp_all add: endpoint_discard_events_def Let_def)

lemma subscribe_ok: "ipc_ok k \<Longrightarrow> ipc_ok (snd (ipc_kernel_event_subscribe k p hnd classes))"
  by (simp add: ipc_kernel_event_subscribe_def discard_events_ok split: option.split)

lemma unsubscribe_ok: "ipc_ok k \<Longrightarrow> ipc_ok (snd (ipc_kernel_event_unsubscribe k p hnd))"
  by (simp add: ipc_kernel_event_unsubscribe_def discard_events_ok split: option.split)

lemma publish_to_ok: "ipc_ok k \<Longrightarrow> ipc_ok (publish_to c cls ev es k)"
proof (induction es arbitrary: k)
  case (Cons e es)
  have "ipc_ok (upd_endpoint e (\<lambda>_. ep) k)" if "endpoint_enqueue_event (endpoints k e) ev = Some ep" for ep
  proof (rule ipc_ok_endpoint [OF Cons.prems])
    from that have q: "queue_count (endpoints k e) < IPC_MAX_QUEUE_DEPTH" and ep: "ep = endpoint_put (endpoints k e) (event_delivery ev)"
      by (auto simp: endpoint_enqueue_event_def split: if_splits)
    show "ep_live ep = ep_live (endpoints k e)" "ep_name ep = ep_name (endpoints k e)" by (simp_all add: ep endpoint_put_def)
    show "ring_wf ep \<and> queue_requests ep = queue_requests (endpoints k e)" if "e \<in> set (endpoint_list k)"
      using queues_okD(1) [OF Cons.prems that] q by (simp add: ep endpoint_put_wf endpoint_put_requests)
  qed
  moreover have "ipc_ok (upd_endpoint e (\<lambda>x. x\<lparr>event_overflow := True\<rparr>) k)"
    by (rule ipc_ok_endpoint [OF Cons.prems]) (simp_all add: queues_okD(1) [OF Cons.prems])
  ultimately show ?case
    using Cons by (simp add: wake_receiver_ok split: option.split)
qed simp

lemma publish_event_ok: "ipc_ok k \<Longrightarrow> ipc_ok (ipc_publish_event c cls typ resource name k)"
  by (simp add: ipc_publish_event_def next_id_eq publish_to_ok)

subsection \<open>Registering and unregistering an endpoint\<close>

definition orphaned :: "addr \<Rightarrow> ipc_request \<Rightarrow> ipc_request" where
  "orphaned e x = (if rq_allocated x \<and> rq_endpoint x = Some e then failed (x\<lparr>rq_endpoint := None\<rparr>) else x)"

lemma alike_orphaned: "alike x y \<Longrightarrow> alike (orphaned e x) (orphaned e y)"
  using alike_sel(1,3) [of x y] alike_failed [OF alike_upd(2), of x y] by (simp add: orphaned_def)

lemma fail_requests_change:
  "distinct rs \<Longrightarrow> pool_change (\<lambda>i x. if i \<in> set rs then orphaned e x else x) k (fail_requests c e rs k)"
proof (induction rs arbitrary: k)
  case (Cons r rs)
  let ?f = "\<lambda>x. x\<lparr>rq_endpoint := None\<rparr>"
  define k1 where "k1 = (if rq_allocated (req k r) \<and> rq_endpoint (req k r) = Some e
    then request_fail c r (upd_request r ?f k) else k)"
  have "pool_change (at r (failed \<circ> ?f)) k (request_fail c r (upd_request r ?f k))"
    unfolding at_at [symmetric] by (rule pool_change_trans [OF pool_change_upd fail_change]) (simp add: alike_failed)
  then have "pool_change (at r (orphaned e)) k k1"
    unfolding k1_def by (auto intro: pool_change_cong simp: orphaned_def pool_change_def)
  from pool_change_trans [OF this Cons.IH [of k1]] Cons.prems
  have "pool_change (\<lambda>i x. if i \<in> set rs then orphaned e (at r (orphaned e) i x) else at r (orphaned e) i x) k
      (fail_requests c e rs k1)"
    by (simp add: alike_orphaned)
  then have "pool_change (\<lambda>i x. if i \<in> set (r # rs) then orphaned e x else x) k (fail_requests c e rs k1)"
    by (rule pool_change_cong) (use Cons.prems in auto)
  then show ?case by (simp add: k1_def)
qed (simp add: pool_change_def)

lemma orphaned_view:
  assumes "request_ok x"
  shows "request_ok (orphaned e x)" "client_process (orphaned e x) = client_process x"
    "context_live (orphaned e x) = context_live x"
    "pending_at (orphaned e x) = (if pending_at x = Some (Some e) then None else pending_at x)"
  using assms
  by (auto simp: orphaned_def failed_def freed_def request_ok_def pending_at_def zero_request_def)

text \<open>What unregistering leaves, before the requests of the endpoint are failed.\<close>

definition unlisted :: "addr \<Rightarrow> kernel \<Rightarrow> kernel" where
  "unlisted e k = (upd_endpoint e (\<lambda>x. x\<lparr>ep_live := False, receiver_waiter := None\<rparr>) k)
     \<lparr>endpoint_count := endpoint_count k - 1, endpoint_list := remove1 e (endpoint_list k)\<rparr>"

lemma unlisted_sel [simp]:
  "endpoints (unlisted e k) = (endpoints k)(e := (endpoints k e)\<lparr>ep_live := False, receiver_waiter := None\<rparr>)"
  "endpoint_list (unlisted e k) = remove1 e (endpoint_list k)" "request_pool (unlisted e k) = request_pool k"
  "endpoint_count (unlisted e k) = endpoint_count k - 1" "contexts (unlisted e k) = contexts k"
  "k_objects (unlisted e k) = k_objects k" "k_processes (unlisted e k) = k_processes k"
  by (simp_all add: unlisted_def)

definition endpoint_object :: "kernel \<Rightarrow> addr \<Rightarrow> bool" where
  "endpoint_object k e \<longleftrightarrow> map_option obj_type (k_objects k e) = Some OBJECT_TYPE_IPC_ENDPOINT \<and>
     map_option destroy (k_objects k e) = Some (Some endpoint_destroy)"

lemma release_types:
  assumes "object_release h (Some e) = (h', d)"
  shows "a \<noteq> e \<Longrightarrow> h' a = h a" "map_option obj_type (h' e) \<in> {None, map_option obj_type (h e)}"
    "map_option destroy (h' e) \<in> {None, map_option destroy (h e)}"
    "d = None \<or> (h' e = None \<and> (\<exists>f. d = Some (e, f) \<and> map_option destroy (h e) = Some f))"
  using assms by (auto simp: object_release_def Let_def split: option.splits if_splits)

lemma unregister_eq:
  assumes "ep_live (endpoints k e)" "endpoint_object k e"
  shows "endpoint_unregister_locked c e k = (fail_requests c e [0..<IPC_MAX_REQUESTS] (unlisted e k))
    \<lparr>k_objects := fst (object_release (k_objects k) (Some e))\<rparr>"
proof -
  define k3 where "k3 = fail_requests c e [0..<IPC_MAX_REQUESTS] (unlisted e k)"
  have o: "k_objects k3 = k_objects k"
    using pool_changeD(6) [OF fail_requests_change [of "[0..<IPC_MAX_REQUESTS]" e "unlisted e k" c]] by (simp add: k3_def)
  obtain h d where h: "object_release (k_objects k) (Some e) = (h, d)" by fastforce
  have "run_destructor c d (k3\<lparr>k_objects := h\<rparr>) = k3\<lparr>k_objects := h\<rparr>"
    using release_types(4) [OF h] assms(2) by (auto simp: run_destructor_def endpoint_object_def)
  moreover have u: "(upd_endpoint e (\<lambda>x. x\<lparr>ep_live := False, receiver_waiter := None\<rparr>) k)
      \<lparr>endpoint_count := (if endpoint_count (upd_endpoint e (\<lambda>x. x\<lparr>ep_live := False, receiver_waiter := None\<rparr>) k) \<noteq> 0
         then endpoint_count (upd_endpoint e (\<lambda>x. x\<lparr>ep_live := False, receiver_waiter := None\<rparr>) k) - 1 else 0),
       endpoint_list := remove1 e (endpoint_list (upd_endpoint e (\<lambda>x. x\<lparr>ep_live := False, receiver_waiter := None\<rparr>) k))\<rparr>
     = unlisted e k"
    by (simp add: unlisted_def)
  ultimately show ?thesis
    using assms(1) unfolding endpoint_unregister_locked_def Let_def u k3_def [symmetric] by (simp add: o h)
qed

lemma unregister_ok:
  assumes ok: "ipc_ok k" and e: "ep_live (endpoints k e)" "endpoint_object k e"
  shows "ipc_ok (endpoint_unregister_locked c e k)"
proof -
  define k3 where "k3 = fail_requests c e [0..<IPC_MAX_REQUESTS] (unlisted e k)"
  define k' where "k' = k3\<lparr>k_objects := fst (object_release (k_objects k) (Some e))\<rparr>"
  note D = ipc_okD [OF ok] and P = pool_okD [OF ipc_okD(1) [OF ok]]
  have ch: "pool_change (\<lambda>i x. if i < IPC_MAX_REQUESTS then orphaned e x else x) (unlisted e k) k3"
    using fail_requests_change [of "[0..<IPC_MAX_REQUESTS]" e "unlisted e k" c] by (simp add: k3_def)
  note C = pool_changeD [OF ch, simplified]
  have el: "e \<in> set (endpoint_list k)" using e registry_live [OF ok] by simp
  have y: "client_process (req k3 i) = client_process (req k i)" "context_live (req k3 i) = context_live (req k i)"
      "pending_at (req k3 i) = (if pending_at (req k i) = Some (Some e) then None else pending_at (req k i))"
    if "i < IPC_MAX_REQUESTS" for i
    using alike_sel(4,6) [OF C(10), of i] alike_pending [OF C(10), of i] orphaned_view [OF P(2) [OF that], of e] that P(1) by simp_all
  have "pool_ok (unlisted e k)" using D(1) by (simp add: pool_ok_def)
  then have "pool_ok k3" by (rule pool_ok_change [OF _ ch]) (use P(2) orphaned_view(1) in simp)
  moreover have "registry_ok k3"
    using D(2) el by (auto simp: registry_ok_def C length_remove1 inj_on_def)
  moreover have "queues_ok k3"
    using D(2,3) y(3) unfolding queues_ok_def registry_ok_def by (auto simp: C split: if_splits)
  moreover have "clients_ok k3" by (rule clients_ok_cong [OF D(4)]) (simp_all add: C y)
  moreover have "contexts_ok k3" by (rule contexts_ok_cong [OF D(5)]) (simp_all add: C y)
  ultimately have k3: "ipc_ok k3" by (simp add: ipc_ok_def)
  obtain h d where h: "object_release (k_objects k) (Some e) = (h, d)" by fastforce
  note R = release_types [OF h]
  have na: "\<not> is_context k e" using e(2) by (auto simp: is_context_def endpoint_object_def)
  have "contexts_ok k'"
  proof (rule contexts_ok_objects [OF ipc_okD(5) [OF k3]])
    have "map_option obj_type (h e) \<noteq> Some OBJECT_TYPE_IPC_REQUEST" using R(2) na unfolding is_context_def by (metis empty_iff insert_iff option.distinct(1))
    then show "is_context k' a = is_context k3 a" for a
      using R(1) na by (cases "a = e") (auto simp: is_context_def k'_def h C)
    show "map_option destroy (k_objects k' a) = map_option destroy (k_objects k3 a)" if "is_context k3 a" for a
      using R(1) na that by (cases "a = e") (auto simp: is_context_def k'_def h C)
  qed (simp_all add: k'_def)
  then have "ipc_ok k'" by (intro ipc_ok_frame [OF k3]) (simp_all add: k'_def)
  then show ?thesis unfolding unregister_eq [OF e] k'_def k3_def .
qed

subsection \<open>A process exits\<close>

lemma remove_first_requests:
  "map dl_request (filter (\<lambda>d. \<not> is_event d) (remove_first (is_request r) ds)) =
     remove1 (Some r) (map dl_request (filter (\<lambda>d. \<not> is_event d) ds))"
  by (induction ds) (auto simp: is_request_def)

lemma remove_request_queue:
  assumes "ring_wf ep"
  shows "ring_wf (endpoint_remove_request ep r)"
    "queue_requests (endpoint_remove_request ep r) = remove1 (Some r) (queue_requests ep)"
  using endpoint_remove_request_wf [OF assms] by (simp_all add: queue_requests_def remove_first_requests)

lemma remove_request_frame:
  "ep_live (endpoint_remove_request ep r) = ep_live ep" "ep_name (endpoint_remove_request ep r) = ep_name ep"
  "ep_owner (endpoint_remove_request ep r) = ep_owner ep"
  by (simp_all add: endpoint_remove_request_def split: option.split prod.split)

text \<open>Withdrawing a request from its endpoint and its client.\<close>

definition abandoned :: "ipc_request \<Rightarrow> ipc_request" where
  "abandoned x = freed (failed ((if rq_state x = IPC_REQUEST_PENDING then x\<lparr>rq_endpoint := None\<rparr> else x)
     \<lparr>client_active := False, client_blocked := False, client_thread := None, client_process := None\<rparr>))"

lemma abandoned_view:
  assumes "request_ok x" "rq_allocated x"
  shows "request_ok (abandoned x)" "client_process (abandoned x) = None" "pending_at (abandoned x) = None"
    "context_live (abandoned x) = context_live x"
  using assms by (auto simp: abandoned_def failed_def freed_def request_ok_def pending_at_def zero_request_def)

text \<open>The kernel after the withdrawal, but for the request itself.\<close>

definition withdrawn :: "addr \<Rightarrow> nat \<Rightarrow> kernel \<Rightarrow> kernel" where
  "withdrawn p r k = upd_process p (\<lambda>x. if ipc_outstanding x = Some r then x\<lparr>ipc_outstanding := None\<rparr> else x)
     (case pending_at (req k r) of Some (Some e) \<Rightarrow> upd_endpoint e (\<lambda>x. endpoint_remove_request x r) k | _ \<Rightarrow> k)"

lemma withdrawn_sel [simp]:
  "request_pool (withdrawn p r k) = request_pool k" "endpoint_list (withdrawn p r k) = endpoint_list k"
  "endpoint_count (withdrawn p r k) = endpoint_count k" "contexts (withdrawn p r k) = contexts k"
  "k_objects (withdrawn p r k) = k_objects k"
  "k_processes (withdrawn p r k) = (k_processes k)(p := (if ipc_outstanding (k_processes k p) = Some r
     then (k_processes k p)\<lparr>ipc_outstanding := None\<rparr> else k_processes k p))"
  "endpoints (withdrawn p r k) e = (if pending_at (req k r) = Some (Some e)
     then endpoint_remove_request (endpoints k e) r else endpoints k e)"
  by (auto simp: withdrawn_def fun_eq_iff split: option.split)

lemma upd_commute:
  "upd_request r f (upd_process p g k) = upd_process p g (upd_request r f k)"
  "upd_request r f (upd_endpoint e h k) = upd_endpoint e h (upd_request r f k)"
  by (cases k, simp add: upd_request_def upd_process_def upd_endpoint_def)+

lemma abandon_change:
  assumes "rq_allocated (req k r)" "client_process (req k r) = Some p" "r < length (request_pool k)"
    and "pending_at (req k r) \<noteq> Some None"
  shows "pool_change (at r abandoned) (withdrawn p r k) (abandon_request c p r k)"
proof -
  let ?f = "\<lambda>x :: ipc_request. (if rq_state x = IPC_REQUEST_PENDING then x\<lparr>rq_endpoint := None\<rparr> else x)
     \<lparr>client_active := False, client_blocked := False, client_thread := None, client_process := None\<rparr>"
  have "abandon_request c p r k = request_maybe_free r (request_fail c r (upd_request r ?f (withdrawn p r k)))"
  proof (cases "rq_state (req k r) = IPC_REQUEST_PENDING")
    case True
    let ?c = "\<lambda>x :: ipc_request. x\<lparr>rq_endpoint := None, client_active := False, client_blocked := False,
      client_thread := None, client_process := None\<rparr>"
    have eq: "upd_request r ?c k = upd_request r ?f k" using True by (simp add: upd_request_def)
    obtain e where "rq_endpoint (req k r) = Some e" using assms(1,4) True by (auto simp: pending_at_def)
    then show ?thesis
      using assms True by (simp add: abandon_request_def withdrawn_def pending_at_def Let_def upd_commute upd_request_twice eq)
  next
    case False
    let ?c = "\<lambda>x :: ipc_request. x\<lparr>client_active := False, client_blocked := False, client_thread := None, client_process := None\<rparr>"
    have eq: "upd_request r ?c k = upd_request r ?f k" using False by (simp add: upd_request_def)
    show ?thesis
      using assms False by (simp add: abandon_request_def withdrawn_def pending_at_def Let_def upd_commute eq split: option.split)
  qed
  moreover have "pool_change (at r (failed \<circ> ?f)) (withdrawn p r k) (request_fail c r (upd_request r ?f (withdrawn p r k)))"
    unfolding at_at [symmetric] by (rule pool_change_trans [OF pool_change_upd fail_change]) (simp add: alike_failed)
  ultimately have "pool_change (at r (freed \<circ> (failed \<circ> ?f))) (withdrawn p r k) (abandon_request c p r k)"
    unfolding at_at [of r freed, symmetric] by (simp only:) (rule pool_change_trans [OF _ maybe_free_change], simp_all add: alike_freed)
  then show ?thesis by (rule pool_change_cong) (simp add: abandoned_def)
qed

lemma abandon_ok:
  assumes ok: "ipc_ok k" and r: "r < IPC_MAX_REQUESTS"
  shows "ipc_ok (abandon_request c p r k)"
proof (cases "rq_allocated (req k r) \<and> client_process (req k r) = Some p")
  case True
  note D = ipc_okD [OF ok] and P = pool_okD [OF ipc_okD(1) [OF ok]]
  define k' where "k' = abandon_request c p r k"
  have "pending_at (req k r) \<noteq> Some None" using D(3) r unfolding queues_ok_def by fastforce
  then have ch: "pool_change (at r abandoned) (withdrawn p r k) k'"
    unfolding k'_def using True r P(1) by (intro abandon_change) auto
  note C = pool_changeD [OF ch, simplified] and V = abandoned_view [OF P(2) [OF r] conjunct1 [OF True]]
  have y: "client_process (req k' i) = (if i = r then None else client_process (req k i))"
      "context_live (req k' i) = context_live (req k i)"
      "pending_at (req k' i) = (if i = r then None else pending_at (req k i))"
    if "i < IPC_MAX_REQUESTS" for i
    using alike_sel(4,6) [OF C(10), of i] alike_pending [OF C(10), of i] V that P(1) by (auto split: if_splits)
  have "pool_ok (withdrawn p r k)" using D(1) by (simp add: pool_ok_def)
  then have "pool_ok k'" by (rule pool_ok_change [OF _ ch]) (use P(2) V(1) in auto)
  moreover have "registry_ok k'" by (rule registry_ok_cong [OF D(2)]) (simp_all add: C remove_request_frame)
  moreover have "queues_ok k'"
    unfolding queues_ok_def
  proof (intro conjI ballI allI impI)
    fix e assume "e \<in> set (endpoint_list k')"
    then have e: "e \<in> set (endpoint_list k)" by (simp add: C)
    note Q = queues_okD [OF ok e] and R = remove_request_queue [OF queues_okD(1) [OF ok e], of r]
    show "ring_wf (endpoints k' e)" using Q(1) R(1) by (simp add: C)
    show "distinct (queue_requests (endpoints k' e))" using Q(2) R(2) by (simp add: C)
    have "set (queue_requests (endpoints k' e)) = set (queue_requests (endpoints k e)) - {Some r}"
      using Q(2,3) R(2) by (auto simp: C)
    then show "set (queue_requests (endpoints k' e)) = Some ` {i. i < IPC_MAX_REQUESTS \<and> pending_at (req k' i) = Some (Some e)}"
      unfolding Q(3) using y(3) by (auto split: if_splits)
  next
    fix i assume "i < IPC_MAX_REQUESTS" "pending_at (req k' i) \<noteq> None"
    then show "\<exists>e\<in>set (endpoint_list k'). pending_at (req k' i) = Some (Some e)"
      using y(3) D(3) by (auto simp: queues_ok_def C split: if_splits)
  qed
  moreover have "clients_ok k'"
    using D(4) r y(1) conjunct2 [OF True] unfolding clients_ok_def
    by (auto simp: C dest: client_unique [OF D(4) r] split: if_splits)
  moreover have "contexts_ok k'" by (rule contexts_ok_cong [OF D(5)]) (simp_all add: C y)
  ultimately show ?thesis by (simp add: ipc_ok_def k'_def)
qed (use ok in \<open>auto simp: abandon_request_def\<close>)

end
