(* ===== verification/Ipc_Runs.thy ===== *)
theory Ipc_Runs
  imports Ipc_Steps
begin

section \<open>Runs of the kernel's IPC operations\<close>

text \<open>
  The invariant of \<^theory_text>\<open>Ipc_Inv\<close> together with the account of object references over all
  processes, the transition relation whose steps are the IPC operations, handle closing and
  whatever the rest of the kernel may do in between, and its interpretation as an inductive
  invariant.
\<close>

subsection \<open>The account of references over all processes\<close>

text \<open>
  \<open>P\<close> are the kernel's process records and \<open>base a\<close> the references held on \<open>a\<close> by other parts of the
  kernel. The registry holds one reference on every registered endpoint.
\<close>

definition registry_refs :: "kernel \<Rightarrow> addr \<Rightarrow> nat" where
  "registry_refs k a = (if a \<in> set (endpoint_list k) then 1 else 0)"

definition refs_ok :: "addr set \<Rightarrow> (addr \<Rightarrow> nat) \<Rightarrow> kernel \<Rightarrow> bool" where
  "refs_ok P base k \<longleftrightarrow> finite P \<and> (\<forall>p\<in>P. table_wf (handle_table (k_processes k p))) \<and>
     (\<forall>a. refs (k_objects k) a = (\<Sum>p\<in>P. handle_refs (handle_table (k_processes k p)) a) + registry_refs k a + base a) \<and>
     (\<forall>a\<in>dom (k_objects k). 0 < refs (k_objects k) a)"

lemma refs_okD:
  assumes "refs_ok P base k"
  shows "finite P" "p \<in> P \<Longrightarrow> table_wf (handle_table (k_processes k p))"
    "\<forall>a\<in>dom (k_objects k). 0 < refs (k_objects k) a"
    "a \<in> set (endpoint_list k) \<Longrightarrow> 0 < refs (k_objects k) a"
proof -
  show "\<forall>a\<in>dom (k_objects k). 0 < refs (k_objects k) a" using assms unfolding refs_ok_def by blast
qed (use assms in \<open>auto simp: refs_ok_def registry_refs_def\<close>)

definition types_ok :: "kernel \<Rightarrow> bool" where
  "types_ok k \<longleftrightarrow> (\<forall>e\<in>set (endpoint_list k). endpoint_object k e) \<and>
     (\<forall>a. map_option destroy (k_objects k a) = Some (Some destroy_fn.request_context_destroy) \<longrightarrow> is_context k a)"

definition kernel_ok :: "addr set \<Rightarrow> (addr \<Rightarrow> nat) \<Rightarrow> kernel \<Rightarrow> bool" where
  "kernel_ok P base k \<longleftrightarrow> ipc_ok k \<and> refs_ok P base k \<and> types_ok k"

lemma kernel_okD:
  assumes "kernel_ok P base k"
  shows "ipc_ok k" "refs_ok P base k" "types_ok k"
  using assms by (auto simp: kernel_ok_def)

text \<open>The references on an object that are not in \<open>p\<close>'s own table.\<close>

definition others :: "addr set \<Rightarrow> (addr \<Rightarrow> nat) \<Rightarrow> kernel \<Rightarrow> addr \<Rightarrow> addr \<Rightarrow> nat" where
  "others P base k p a = (\<Sum>q\<in>P - {p}. handle_refs (handle_table (k_processes k q)) a) + registry_refs k a + base a"

lemma refs_ok_accounted:
  assumes "refs_ok P base k" "p \<in> P"
  shows "accounted (others P base k p) (k_objects k) (handle_table (k_processes k p))"
    "table_wf (handle_table (k_processes k p))"
proof -
  have "finite P" using assms(1) by (simp add: refs_ok_def)
  note split = sum.remove [OF this assms(2), of "\<lambda>q. handle_refs (handle_table (k_processes k q)) a" for a]
  show "accounted (others P base k p) (k_objects k) (handle_table (k_processes k p))"
  proof (rule accountedI)
    show "refs (k_objects k) a = handle_refs (handle_table (k_processes k p)) a + others P base k p a" for a
      using assms(1) split [of a] by (simp only: refs_ok_def others_def add.assoc)
    show "\<forall>a\<in>dom (k_objects k). 0 < refs (k_objects k) a" using assms(1) unfolding refs_ok_def by blast
  qed
qed (use assms in \<open>simp add: refs_ok_def\<close>)

lemma refs_ok_process:
  assumes ok: "refs_ok P base k" and p: "p \<in> P"
    and ac: "accounted (others P base k p) (k_objects k') (handle_table (k_processes k' p))"
    and wf: "table_wf (handle_table (k_processes k' p))"
    and fr: "\<And>q. q \<noteq> p \<Longrightarrow> handle_table (k_processes k' q) = handle_table (k_processes k q)"
    and el: "set (endpoint_list k') = set (endpoint_list k)"
  shows "refs_ok P base k'"
proof -
  have fin: "finite P" using ok by (simp add: refs_ok_def)
  have "others P base k p = others P base k' p" using fr el by (simp add: others_def fun_eq_iff registry_refs_def)
  note ac' = ac [unfolded this]
  have "refs (k_objects k') a = (\<Sum>q\<in>P. handle_refs (handle_table (k_processes k' q)) a) + registry_refs k' a + base a" for a
    using accountedD(1) [OF ac', of a] sum.remove [OF fin p, of "\<lambda>q. handle_refs (handle_table (k_processes k' q)) a"]
    by (simp only: others_def add.assoc)
  moreover have "\<forall>q\<in>P. table_wf (handle_table (k_processes k' q))"
    using ok wf fr unfolding refs_ok_def by metis
  ultimately show ?thesis using fin accountedD(2) [OF ac] by (simp add: refs_ok_def)
qed

lemma refs_ok_frame:
  assumes "refs_ok P base k" "k_objects k' = k_objects k" "set (endpoint_list k') = set (endpoint_list k)"
    and "\<And>p. handle_table (k_processes k' p) = handle_table (k_processes k p)"
  shows "refs_ok P base k'"
  using assms(1) unfolding refs_ok_def registry_refs_def assms(2-4) .

lemma types_ok_frame:
  assumes "types_ok k" "k_objects k' = k_objects k" "set (endpoint_list k') \<subseteq> set (endpoint_list k)"
  shows "types_ok k'"
  using assms(1,3) unfolding types_ok_def endpoint_object_def is_context_def assms(2) by blast

text \<open>Operations that touch neither the objects, nor the registry, nor a handle table.\<close>

definition same_refs :: "kernel \<Rightarrow> kernel \<Rightarrow> bool" where
  "same_refs k k' \<longleftrightarrow> k_objects k' = k_objects k \<and> endpoint_list k' = endpoint_list k \<and>
     (\<forall>p. handle_table (k_processes k' p) = handle_table (k_processes k p))"

lemma kernel_ok_same:
  assumes "kernel_ok P base k" "ipc_ok k'" "same_refs k k'"
  shows "kernel_ok P base k'"
proof -
  have "refs_ok P base k'" by (rule refs_ok_frame [OF kernel_okD(2) [OF assms(1)]]) (use assms(3) in \<open>auto simp: same_refs_def\<close>)
  moreover have "types_ok k'" by (rule types_ok_frame [OF kernel_okD(3) [OF assms(1)]]) (use assms(3) in \<open>auto simp: same_refs_def\<close>)
  ultimately show ?thesis using assms(2) by (simp add: kernel_ok_def)
qed

lemma same_refs_refl [simp]: "same_refs k k"
  by (simp add: same_refs_def)

lemma same_refs_trans: "same_refs k k1 \<Longrightarrow> same_refs k1 k2 \<Longrightarrow> same_refs k k2"
  by (simp add: same_refs_def)

lemma same_refs_upd [simp]:
  "same_refs k (upd_endpoint e f k') = same_refs k k'" "same_refs k (upd_request r g k') = same_refs k k'"
  "same_refs k (k'\<lparr>k_sched := s\<rparr>) = same_refs k k'" "same_refs k (k'\<lparr>next_request_id := n\<rparr>) = same_refs k k'"
  "(\<And>x. handle_table (h x) = handle_table x) \<Longrightarrow> same_refs k (upd_process p h k') = same_refs k k'"
  by (auto simp: same_refs_def)

lemma pool_change_refs: "pool_change g k k' \<Longrightarrow> same_refs k k'"
  using pool_changeD(2,6,7) by (simp add: same_refs_def)

lemma wake_receiver_refs [simp]: "same_refs k (wake_receiver c e k') = same_refs k k'"
  by (simp add: wake_receiver_def split: option.split prod.split bool.split)

lemma publish_to_refs: "same_refs k (publish_to c cls ev es k') = same_refs k k'"
proof (induction es arbitrary: k')
  case (Cons e es)
  show ?case by (simp add: Cons.IH split: option.split)
qed simp

lemma abandon_refs: "same_refs k (abandon_request c p r k)"
proof -
  have f: "same_refs j (request_fail c r j)" "same_refs j (request_maybe_free r j)" for j
    using pool_change_refs [OF fail_change] pool_change_refs [OF maybe_free_change] by blast+
  have "same_refs k (request_maybe_free r (request_fail c r j))" if "same_refs k j" for j
    by (rule same_refs_trans [OF that same_refs_trans [OF f]])
  then show ?thesis by (simp add: abandon_request_def Let_def split: option.split)
qed

lemma abandon_requests_ok:
  "kernel_ok P base k \<Longrightarrow> \<forall>r\<in>set rs. r < IPC_MAX_REQUESTS \<Longrightarrow> kernel_ok P base (abandon_requests c p rs k)"
proof (induction rs arbitrary: k)
  case (Cons r rs)
  have "kernel_ok P base (abandon_request c p r k)"
    by (rule kernel_ok_same [OF Cons.prems(1) abandon_ok [OF kernel_okD(1) [OF Cons.prems(1)]] abandon_refs])
      (use Cons.prems in simp)
  with Cons show ?case by simp
qed simp

subsection \<open>Steps that leave the references alone\<close>

lemma quiet_steps_ok:
  assumes "kernel_ok P base k"
  shows "kernel_ok P base (snd (ipc_request_send c k p hnd m))"
    "ipc_outstanding (k_processes k p) = Some r \<Longrightarrow> kernel_ok P base (snd (ipc_request_poll k p r))"
    "kernel_ok P base (snd (ipc_receive_refused k e self))"
    "kernel_ok P base (snd (ipc_kernel_reply c k p hnd m))"
    "kernel_ok P base (snd (ipc_request_context_claim k p cur hnd n))"
    "kernel_ok P base (snd (ipc_kernel_event_subscribe k p hnd classes))"
    "kernel_ok P base (snd (ipc_kernel_event_unsubscribe k p hnd))"
    "kernel_ok P base (ipc_publish_event c cls typ resource name k)"
proof -
  note ok = kernel_okD(1) [OF assms] and same = kernel_ok_same [OF assms]
  show "kernel_ok P base (snd (ipc_request_send c k p hnd m))"
    by (rule same [OF send_ok [OF ok]], rule send_cases [of c k p hnd m]) simp_all
  show "kernel_ok P base (snd (ipc_request_poll k p r))" if "ipc_outstanding (k_processes k p) = Some r"
  proof (rule same [OF poll_ok [OF ok]])
    show "r < IPC_MAX_REQUESTS" "client_process (req k r) = Some p"
      using that ipc_okD(4) [OF ok] by (simp_all add: clients_ok_def)
    have "same_refs k (client_leaves p r k)"
      unfolding client_leaves_def by (rule same_refs_trans [OF _ pool_change_refs [OF maybe_free_change]]) simp
    then show "same_refs k (snd (ipc_request_poll k p r))" by (simp add: ipc_request_poll_def)
  qed
  show "kernel_ok P base (snd (ipc_receive_refused k e self))"
    by (rule same [OF receive_refused_ok [OF ok]]) (simp add: ipc_receive_refused_def)
  show "kernel_ok P base (snd (ipc_kernel_reply c k p hnd m))"
  proof (rule same [OF reply_ok [OF ok]])
    have "same_refs k (request_wake_client c r j)" if "same_refs k j" for r j
      by (rule same_refs_trans [OF that pool_change_refs [OF wake_client_change]])
    then show "same_refs k (snd (ipc_kernel_reply c k p hnd m))" by (simp add: ipc_kernel_reply_def split: sum.split)
  qed
  show "kernel_ok P base (snd (ipc_request_context_claim k p cur hnd n))"
    by (rule same [OF claim_ok [OF ok]]) (simp add: ipc_request_context_claim_def split: sum.split)
  show "kernel_ok P base (snd (ipc_kernel_event_subscribe k p hnd classes))"
    by (rule same [OF subscribe_ok [OF ok]]) (simp add: ipc_kernel_event_subscribe_def split: option.split)
  show "kernel_ok P base (snd (ipc_kernel_event_unsubscribe k p hnd))"
    by (rule same [OF unsubscribe_ok [OF ok]]) (simp add: ipc_kernel_event_unsubscribe_def split: option.split)
  show "kernel_ok P base (ipc_publish_event c cls typ resource name k)"
    by (rule same [OF publish_event_ok [OF ok]]) (simp add: ipc_publish_event_def next_id_eq publish_to_refs)
qed

subsection \<open>Unregistering and exiting\<close>

lemma unregister_frame:
  assumes "ep_live (endpoints k e)" "endpoint_object k e"
  shows "endpoint_list (endpoint_unregister_locked c e k) = remove1 e (endpoint_list k)"
    "k_processes (endpoint_unregister_locked c e k) = k_processes k"
    "endpoints (endpoint_unregister_locked c e k) = (endpoints k)(e := (endpoints k e)\<lparr>ep_live := False, receiver_waiter := None\<rparr>)"
    "k_objects (endpoint_unregister_locked c e k) = fst (object_release (k_objects k) (Some e))"
    "contexts (endpoint_unregister_locked c e k) = contexts k"
proof -
  note C = pool_changeD [OF fail_requests_change [of "[0..<IPC_MAX_REQUESTS]" e "unlisted e k" c], simplified]
  show "endpoint_list (endpoint_unregister_locked c e k) = remove1 e (endpoint_list k)"
    "k_processes (endpoint_unregister_locked c e k) = k_processes k"
    "endpoints (endpoint_unregister_locked c e k) = (endpoints k)(e := (endpoints k e)\<lparr>ep_live := False, receiver_waiter := None\<rparr>)"
    "k_objects (endpoint_unregister_locked c e k) = fst (object_release (k_objects k) (Some e))"
    "contexts (endpoint_unregister_locked c e k) = contexts k"
    unfolding unregister_eq [OF assms] by (simp_all add: C)
qed

lemma unregister_kernel_ok:
  assumes ok: "kernel_ok P base k" and live: "ep_live (endpoints k e)"
  shows "kernel_ok P base (endpoint_unregister_locked c e k)"
proof -
  let ?k = "endpoint_unregister_locked c e k"
  note K = kernel_okD [OF ok]
  have el: "e \<in> set (endpoint_list k)" and dis: "distinct (endpoint_list k)"
    using live registry_live [OF K(1)] ipc_okD(2) [OF K(1)] by (simp_all add: registry_ok_def)
  have eo: "endpoint_object k e" using K(3) el by (simp add: types_ok_def)
  note F = unregister_frame [OF live eo, of c]
  obtain h d where h: "object_release (k_objects k) (Some e) = (h, d)" by fastforce
  have set: "set (endpoint_list ?k) = set (endpoint_list k) - {e}" using dis by (simp add: F)
  have rf: "refs h = (refs (k_objects k))(e := refs (k_objects k) e - 1)" by (rule object_release_refs [OF h])
  have "refs h a = (\<Sum>p\<in>P. handle_refs (handle_table (k_processes k p)) a) + (if a \<in> set (endpoint_list k) - {e} then 1 else 0) + base a" for a
    using K(2) el unfolding rf refs_ok_def registry_refs_def by (cases "a = e") auto
  moreover have "\<forall>a\<in>dom h. 0 < refs h a"
    by (rule release_dom_pos [OF h refs_okD(3) [OF K(2)]])
  ultimately have "refs_ok P base ?k" using K(2) unfolding refs_ok_def registry_refs_def set F(2,4) h by simp
  moreover have "types_ok ?k"
  proof -
    note R = release_types [OF h]
    have "h a = k_objects k a" if "a \<noteq> e" for a using R(1) that .
    moreover have "map_option destroy (h e) \<noteq> Some (Some destroy_fn.request_context_destroy)"
      using R(3) eo unfolding endpoint_object_def by auto
    ultimately show ?thesis
      using K(3) unfolding types_ok_def set endpoint_object_def is_context_def F(4) h fst_conv by (metis DiffD1 DiffD2 insertI1)
  qed
  ultimately show ?thesis using unregister_ok [OF K(1) live eo] by (simp add: kernel_ok_def)
qed

lemma unregister_owned_ok: "kernel_ok P base k \<Longrightarrow> kernel_ok P base (unregister_owned c p es k)"
proof (induction es arbitrary: k)
  case (Cons e es)
  then show ?case
    using unregister_kernel_ok [OF Cons.prems, of e c]
    by (cases "ep_live (endpoints k e)") (simp_all add: endpoint_unregister_locked_def)
qed simp

lemma abandon_clients:
  assumes ok: "ipc_ok k" and r: "r < IPC_MAX_REQUESTS" and i: "i < IPC_MAX_REQUESTS"
  shows "client_process (req (abandon_request c p r k) i) =
    (if i = r \<and> client_process (req k r) = Some p then None else client_process (req k i))"
proof (cases "client_process (req k r) = Some p")
  case True
  note P = pool_okD [OF ipc_okD(1) [OF ok]]
  have al: "rq_allocated (req k r)" using P(2) [OF r] True by (auto simp: request_ok_def zero_request_def split: if_splits)
  have "pending_at (req k r) \<noteq> Some None" using ipc_okD(3) [OF ok] r unfolding queues_ok_def by fastforce
  then have ch: "pool_change (at r abandoned) (withdrawn p r k) (abandon_request c p r k)"
    using True al r P(1) by (intro abandon_change) auto
  then show ?thesis
    using alike_sel(4) [OF pool_changeD(10) [OF ch], of i] abandoned_view(2) [OF P(2) [OF r] al] True i P(1) by (auto split: if_splits)
qed (simp add: abandon_request_def)

lemma abandon_requests_clients:
  "ipc_ok k \<Longrightarrow> \<forall>r\<in>set rs. r < IPC_MAX_REQUESTS \<Longrightarrow> i < IPC_MAX_REQUESTS \<Longrightarrow>
    client_process (req (abandon_requests c p rs k) i) =
      (if i \<in> set rs \<and> client_process (req k i) = Some p then None else client_process (req k i))"
proof (induction rs arbitrary: k)
  case (Cons r rs)
  then show ?case using Cons.IH [OF abandon_ok [OF Cons.prems(1), of r c p]] by (auto simp: abandon_clients)
qed simp

lemma exit_clean:
  assumes ok: "kernel_ok P base k"
  shows "kernel_ok P base (ipc_process_exit c p k)" "ipc_outstanding (k_processes (ipc_process_exit c p k) p) = None"
    "i < IPC_MAX_REQUESTS \<Longrightarrow> client_process (req (ipc_process_exit c p k) i) \<noteq> Some p"
proof -
  define k1 where "k1 = unregister_owned c p (endpoint_list k) k"
  define k2 where "k2 = abandon_requests c p [0..<IPC_MAX_REQUESTS] k1"
  have k1: "kernel_ok P base k1" unfolding k1_def by (rule unregister_owned_ok [OF ok])
  have k2: "kernel_ok P base k2" unfolding k2_def by (rule abandon_requests_ok [OF k1]) simp
  have cl: "client_process (req k2 i) \<noteq> Some p" if "i < IPC_MAX_REQUESTS" for i
    using abandon_requests_clients [OF kernel_okD(1) [OF k1], of "[0..<IPC_MAX_REQUESTS]" i c p] that by (simp add: k2_def)
  have "ipc_outstanding (k_processes k2 p) \<noteq> Some r" for r
    using ipc_okD(4) [OF kernel_okD(1) [OF k2]] cl unfolding clients_ok_def by auto
  then have "ipc_outstanding (k_processes k2 p) = None" by auto
  then show "kernel_ok P base (ipc_process_exit c p k)"
    unfolding ipc_process_exit_def k1_def [symmetric] k2_def [symmetric]
    by (intro kernel_ok_same [OF k2] upd_process_ok kernel_okD(1) [OF k2]) simp_all
  show "ipc_outstanding (k_processes (ipc_process_exit c p k) p) = None" by (simp add: ipc_process_exit_def)
  show "client_process (req (ipc_process_exit c p k) i) \<noteq> Some p" if "i < IPC_MAX_REQUESTS"
    using cl [OF that] by (simp add: ipc_process_exit_def k1_def k2_def)
qed

subsection \<open>Closing a handle\<close>

text \<open>
  \<^verbatim>\<open>process_handle_close\<close> with the destructor it may run: the last handle of a request context
  takes the context's claim on its request with it.
\<close>

definition close_handle :: "nat \<Rightarrow> kernel \<Rightarrow> addr \<Rightarrow> u32 \<Rightarrow> kernel" where
  "close_handle c k p hnd = (case process_handle_close (k_objects k) (k_processes k p) hnd of None \<Rightarrow> k
     | Some (h, p', d) \<Rightarrow> run_destructor c d ((upd_process p (\<lambda>_. p') k)\<lparr>k_objects := h\<rparr>))"

lemma close_frame:
  assumes "process_handle_close h p hnd = Some (h', p', d)" "table_wf (handle_table p)"
  obtains a where "object_release h (Some a) = (h', d)" "ipc_outstanding p' = ipc_outstanding p"
  using assms(1)
proof (rule process_handle_close_Some)
  fix i g
  assume i: "i < length (handle_table p)" "slot_active (handle_table p ! i)"
    and r: "object_release h (slot_object (handle_table p ! i)) = (h', d)"
    and p': "p' = p\<lparr>handle_table := (handle_table p)[i := clear_slot (handle_table p ! i)]\<rparr>"
  have "slot_object (handle_table p ! i) \<noteq> None"
    using assms(2) i by (auto simp: table_wf_def slot_wf_def list_all_length)
  then show thesis using that r p' by auto
qed

lemma context_destroy_refs: "same_refs k (request_context_destroy c a k)"
proof (cases "ctx_request (contexts k a)")
  case (Some r)
  have "same_refs k (request_maybe_free r (if b then request_fail c r j else j))" if "same_refs k j" for b j
    using same_refs_trans [OF that same_refs_trans [OF pool_change_refs [OF fail_change] pool_change_refs [OF maybe_free_change]]]
      same_refs_trans [OF that pool_change_refs [OF maybe_free_change]] by (cases b) simp_all
  then show ?thesis using Some by (simp add: request_context_destroy_def Let_def)
qed (simp add: request_context_destroy_def)

text \<open>Objects that are not contexts may lose a reference, or go, without IPC noticing.\<close>

lemma release_ipc_ok:
  assumes ok: "ipc_ok k" and t: "types_ok k" and h: "object_release (k_objects k) (Some a) = (h, d)"
    and c: "d = Some (a, Some destroy_fn.request_context_destroy) \<Longrightarrow> False"
  shows "ipc_ok (k\<lparr>k_objects := h\<rparr>)"
proof -
  note C = ipc_okD(5) [OF ok] and R = release_types [OF h]
  have keep: "map_option obj_type (h b) = map_option obj_type (k_objects k b) \<and>
      map_option destroy (h b) = map_option destroy (k_objects k b) \<or> \<not> is_context k b \<and> h b = None" for b
  proof (cases "b = a")
    case True
    show ?thesis
    proof (cases d)
      case None
      then show ?thesis using h True by (auto simp: object_release_def Let_def split: option.splits if_splits)
    next
      case (Some q)
      then obtain f where f: "d = Some (a, f)" "map_option destroy (k_objects k a) = Some f" "h a = None" using R(4) by auto
      have "\<not> is_context k a"
      proof
        assume "is_context k a"
        then have "map_option destroy (k_objects k a) = Some (Some destroy_fn.request_context_destroy)"
          using C unfolding contexts_ok_def by blast
        then show False using f c by simp
      qed
      then show ?thesis using f(3) True by simp
    qed
  qed (use R(1) in simp)
  have "contexts_ok (k\<lparr>k_objects := h\<rparr>)"
  proof (rule contexts_ok_objects [OF C])
    show "is_context (k\<lparr>k_objects := h\<rparr>) b = is_context k b" for b
    proof -
      have "k_objects (k\<lparr>k_objects := h\<rparr>) b = h b" by simp
      then show ?thesis using keep [of b] unfolding is_context_def by (metis option.map_disc_iff option.distinct(1))
    qed
    show "map_option destroy (k_objects (k\<lparr>k_objects := h\<rparr>) b) = map_option destroy (k_objects k b)" if "is_context k b" for b
      using keep [of b] that by auto
  qed simp_all
  then show ?thesis by (intro ipc_ok_frame [OF ok]) simp_all
qed

lemma release_types_ok:
  assumes t: "types_ok k" and h: "object_release (k_objects k) (Some a) = (h, d)"
    and e: "\<And>e. e \<in> set (endpoint_list k) \<Longrightarrow> 0 < refs h e"
  shows "types_ok (k\<lparr>k_objects := h\<rparr>)"
proof -
  have keep: "map_option obj_type (h b) = map_option obj_type (k_objects k b) \<and>
      map_option destroy (h b) = map_option destroy (k_objects k b) \<or> h b = None" for b
    using h by (auto simp: object_release_def Let_def split: option.splits if_splits)
  show ?thesis
    unfolding types_ok_def
  proof (intro conjI ballI allI impI)
    fix b assume "b \<in> set (endpoint_list (k\<lparr>k_objects := h\<rparr>))"
    then have b: "b \<in> set (endpoint_list k)" by simp
    then have "h b \<noteq> None" using e [OF b] by (auto simp: refs_def split: option.splits)
    moreover have "endpoint_object k b" using t b by (simp add: types_ok_def)
    ultimately show "endpoint_object (k\<lparr>k_objects := h\<rparr>) b" using keep [of b] by (auto simp: endpoint_object_def)
  next
    fix b assume b: "map_option destroy (k_objects (k\<lparr>k_objects := h\<rparr>) b) = Some (Some destroy_fn.request_context_destroy)"
    then have "h b \<noteq> None" by auto
    then have k: "map_option obj_type (h b) = map_option obj_type (k_objects k b)"
      "map_option destroy (h b) = map_option destroy (k_objects k b)" using keep [of b] by auto
    then have "is_context k b" using t b unfolding types_ok_def by simp
    then show "is_context (k\<lparr>k_objects := h\<rparr>) b" unfolding is_context_def using k(1) by simp
  qed
qed

lemma close_kernel_ok:
  assumes ok: "kernel_ok P base k" and p: "p \<in> P"
  shows "kernel_ok P base (close_handle c k p hnd)"
proof (cases "process_handle_close (k_objects k) (k_processes k p) hnd")
  case (Some q)
  obtain h p' d where q: "q = (h, p', d)" by (cases q)
  note K = kernel_okD [OF ok] and cl = Some [unfolded q]
  note A = refs_ok_accounted [OF K(2) p]
  obtain a where a: "object_release (k_objects k) (Some a) = (h, d)" "ipc_outstanding p' = ipc_outstanding (k_processes k p)"
    by (rule close_frame [OF cl A(2)])
  define k1 where "k1 = upd_process p (\<lambda>_. p') k"
  define k2 where "k2 = k1\<lparr>k_objects := h\<rparr>"
  have k1: "ipc_ok k1" "types_ok k1" "k_objects k1 = k_objects k"
    using a(2) upd_process_ok [OF K(1)] types_ok_frame [OF K(3), of k1] by (simp_all add: k1_def)
  have refs2: "refs_ok P base k2"
    by (rule refs_ok_process [OF K(2) p])
      (use close_accounted [OF cl A] close_table_wf [OF cl A(2)] in \<open>simp_all add: k1_def k2_def\<close>)
  have "types_ok (k1\<lparr>k_objects := h\<rparr>)"
    by (rule release_types_ok [OF k1(2) a(1) [folded k1(3)]]) (use refs_okD(4) [OF refs2] in \<open>simp add: k2_def\<close>)
  then have types2: "types_ok k2" by (simp add: k2_def)
  have res: "close_handle c k p hnd = run_destructor c d k2" using Some by (simp add: close_handle_def q k1_def k2_def)
  show ?thesis
  proof (cases "d = Some (a, Some destroy_fn.request_context_destroy)")
    case True
    have ha: "h = (k_objects k1)(a := None)" using object_release_destroys [of "k_objects k" a h a] a(1) True k1(3) by simp
    have "map_option destroy (k_objects k1 a) = Some (Some destroy_fn.request_context_destroy)"
      using release_types(4) [OF a(1)] True k1(3) by auto
    then have "is_context k1 a" using k1(2) unfolding types_ok_def by blast
    from drop_context_ok [OF k1(1) this, of c] have ok3: "ipc_ok (request_context_destroy c a k2)" by (simp add: k2_def ha)
    have "same_refs k2 (request_context_destroy c a k2)" by (rule context_destroy_refs)
    then have "refs_ok P base (request_context_destroy c a k2)" "types_ok (request_context_destroy c a k2)"
      using refs_ok_frame [OF refs2] types_ok_frame [OF types2] by (auto simp: same_refs_def)
    then show ?thesis using True ok3 by (simp add: res run_destructor_def kernel_ok_def)
  next
    case False
    have "run_destructor c d k2 = k2"
      using False release_types(4) [OF a(1)] by (auto simp: run_destructor_def split: option.split destroy_fn.split)
    moreover have "ipc_ok k2" unfolding k2_def by (rule release_ipc_ok [OF k1(1,2) a(1) [folded k1(3)]]) (use False in simp)
    ultimately show ?thesis using refs2 types2 by (simp add: res kernel_ok_def)
  qed
qed (use ok in \<open>simp add: close_handle_def\<close>)

subsection \<open>New objects and new handles\<close>

lemma reference_keeps:
  assumes "object_reference h ob = Some h'"
  shows "map_option obj_type (h' b) = map_option obj_type (h b)" "map_option destroy (h' b) = map_option destroy (h b)"
  using assms by (auto simp: object_reference_def Let_def split: option.splits if_splits)

lemma types_ok_cong:
  assumes "types_ok k" "set (endpoint_list k') = set (endpoint_list k)"
    and "\<And>b. map_option obj_type (k_objects k' b) = map_option obj_type (k_objects k b)"
    and "\<And>b. map_option destroy (k_objects k' b) = map_option destroy (k_objects k b)"
  shows "types_ok k'"
  using assms(1) unfolding types_ok_def endpoint_object_def is_context_def assms(2-4) .

lemma install_kernel_ok:
  assumes ok: "kernel_ok P base k" and p: "p \<in> P"
    and i: "process_handle_install (k_objects k) (k_processes k p) ob r = Some (h, p', hnd)"
  shows "kernel_ok P base ((upd_process p (\<lambda>_. p') k)\<lparr>k_objects := h\<rparr>)" (is "kernel_ok P base ?k")
proof -
  note K = kernel_okD [OF ok] and A = refs_ok_accounted [OF kernel_okD(2) [OF ok] p] and I = install_frame [OF i]
  note R = reference_keeps [OF I(2)]
  have "refs_ok P base ?k"
    by (rule refs_ok_process [OF K(2) p]) (use install_accounted [OF i A(1)] install_table_wf [OF i A(2)] in simp_all)
  moreover have "types_ok ?k" by (rule types_ok_cong [OF K(3)]) (simp_all add: R)
  moreover have "contexts_ok ?k" by (rule contexts_ok_cong [OF ipc_okD(5) [OF K(1)]]) (simp_all add: R)
  then have "ipc_ok ?k" by (intro ipc_ok_frame [OF K(1)]) (use I(1) in simp_all)
  ultimately show ?thesis by (simp add: kernel_ok_def)
qed

lemma lookup_kernel_ok:
  assumes "kernel_ok P base k" "p \<in> P"
  shows "kernel_ok P base (snd (ipc_service_lookup k p name))"
  using assms by (auto simp: ipc_service_lookup_def install_kernel_ok split: option.split)

lemma endpoint_find_None:
  "endpoint_find k name = None \<longleftrightarrow> (\<forall>e\<in>set (endpoint_list k). ep_live (endpoints k e) \<longrightarrow> ep_name (endpoints k e) \<noteq> name)"
  by (auto simp: endpoint_find_def find_None_iff)

lemma new_endpoint_queue [simp]: "ring_wf (new_endpoint p name sid)" "queue_requests (new_endpoint p name sid) = []"
  by (simp_all add: new_endpoint_def ring_wf_def ring_index_def queue_requests_def queue_list_def IPC_MAX_QUEUE_DEPTH_def)

lemma new_endpoint_ok:
  assumes ok: "ipc_ok k" and e: "e \<notin> set (endpoint_list k)" "k_objects k e = None"
    and n: "endpoint_find k name = None" "length name < MG_IPC_SERVICE_NAME_MAX" "endpoint_count k < IPC_MAX_ENDPOINTS"
    and k': "k' = k\<lparr>endpoints := (endpoints k)(e := new_endpoint p name sid), endpoint_list := e # endpoint_list k,
      endpoint_count := endpoint_count k + 1,
      k_objects := (k_objects k)(e \<mapsto> object_init OBJECT_TYPE_IPC_ENDPOINT (Some endpoint_destroy))\<rparr>"
  shows "ipc_ok k'"
proof -
  note D = ipc_okD [OF ok]
  have name: "ep_name (new_endpoint p name sid) = name" "ep_live (new_endpoint p name sid)"
    using n(2) by (simp_all add: new_endpoint_def)
  have "ep_name (endpoints k b) \<noteq> name" if "b \<in> set (endpoint_list k)" for b
    using n(1) that registry_live [OF ok] by (simp add: endpoint_find_None)
  then have "registry_ok k'"
    using D(2) e(1) n(3) name unfolding registry_ok_def k' by (auto simp: inj_on_def)
  moreover have "pending_at (req k r) \<noteq> Some (Some e)" if "r < IPC_MAX_REQUESTS" for r
    using D(3) e(1) that unfolding queues_ok_def by fastforce
  then have "queues_ok k'" using D(3) e(1) unfolding queues_ok_def k' by auto
  moreover have "contexts_ok k'"
    by (rule contexts_ok_objects [OF D(5)]) (use e(2) in \<open>auto simp: k' is_context_def object_init_def\<close>)
  ultimately show ?thesis using D(1,4) by (simp add: ipc_ok_def pool_ok_def clients_ok_def k')
qed

text \<open>An object nobody knew: no reference to it anywhere.\<close>

lemma fresh_refs:
  assumes "refs_ok P base k" "k_objects k a = None"
  shows "(\<Sum>p\<in>P. handle_refs (handle_table (k_processes k p)) a) = 0" "a \<notin> set (endpoint_list k)" "base a = 0"
proof -
  have "refs (k_objects k) a = 0" using assms(2) by (simp add: refs_def)
  then show "(\<Sum>p\<in>P. handle_refs (handle_table (k_processes k p)) a) = 0" "a \<notin> set (endpoint_list k)" "base a = 0"
    using assms(1) unfolding refs_ok_def registry_refs_def by (auto split: if_splits)
qed

lemma register_kernel_ok:
  assumes ok: "kernel_ok P base k" and p: "p \<in> P" and b: "\<And>e. block = Some e \<Longrightarrow> k_objects k e = None"
  shows "kernel_ok P base (snd (ipc_service_register c k p name block))"
proof -
  note K = kernel_okD [OF ok]
  have reg: "kernel_ok P base k1 \<and> ep_live (endpoints k1 e)"
    if e: "block = Some e" and n: "ipc_name_valid name" "endpoint_find k (the name) = None" "endpoint_count k < IPC_MAX_ENDPOINTS"
      and k1: "k1 = k\<lparr>endpoints := (endpoints k)(e := new_endpoint p (the name) sid),
        endpoint_list := e # endpoint_list k, endpoint_count := endpoint_count k + 1,
        k_objects := (k_objects k)(e \<mapsto> object_init OBJECT_TYPE_IPC_ENDPOINT (Some endpoint_destroy))\<rparr>" for e sid k1
  proof
    note F = fresh_refs [OF K(2) b [OF e]]
    have len: "length (the name) < MG_IPC_SERVICE_NAME_MAX" using n(1) by (auto simp: ipc_name_valid_def split: option.splits)
    have "ipc_ok k1" by (rule new_endpoint_ok [OF K(1) F(2) b [OF e] n(2) len n(3) k1])
    moreover have "refs (k_objects k1) a = (\<Sum>p\<in>P. handle_refs (handle_table (k_processes k1 p)) a) + registry_refs k1 a + base a" for a
    proof (cases "a = e")
      case False
      then have "refs (k_objects k1) a = refs (k_objects k) a" by (simp add: k1 refs_def)
      with False K(2) show ?thesis by (simp add: refs_ok_def registry_refs_def k1)
    qed (use F in \<open>simp add: k1 refs_def object_init_def registry_refs_def\<close>)
    moreover have "\<forall>a\<in>dom (k_objects k1). 0 < refs (k_objects k1) a"
      using refs_okD(3) [OF K(2)] by (auto simp: k1 refs_upd object_init_def)
    ultimately have "refs_ok P base k1" "ipc_ok k1"
      using refs_okD(1,2) [OF K(2)] unfolding refs_ok_def by (auto simp: k1)
    moreover have "types_ok k1"
      using K(3) b [OF e] F(2) unfolding types_ok_def k1 endpoint_object_def is_context_def by (auto simp: object_init_def)
    ultimately show "kernel_ok P base k1" by (simp add: kernel_ok_def)
    show "ep_live (endpoints k1 e)" by (simp add: k1 new_endpoint_def)
  qed
  show ?thesis
  proof (cases "\<exists>err. ipc_service_register c k p name block = (Inl err, k)")
    case True
    then show ?thesis using ok by auto
  next
    case False
    then obtain sid e where e: "ipc_name_valid name" "endpoint_allowed_for_process (k_processes k p) (the name) = Some sid"
        "block = Some e" "endpoint_find k (the name) = None" "endpoint_count k < IPC_MAX_ENDPOINTS"
      unfolding ipc_service_register_def by (auto simp: not_le split: if_splits option.splits)
    define k1 where "k1 = k\<lparr>endpoints := (endpoints k)(e := new_endpoint p (the name) sid),
        endpoint_list := e # endpoint_list k, endpoint_count := endpoint_count k + 1,
        k_objects := (k_objects k)(e \<mapsto> object_init OBJECT_TYPE_IPC_ENDPOINT (Some endpoint_destroy))\<rparr>"
    note R = reg [OF e(3,1,4,5) k1_def]
    have "snd (ipc_service_register c k p name block) =
        (case process_handle_install (k_objects k1) (k_processes k1 p) (Some e) (OBJECT_RIGHT_READ OR OBJECT_RIGHT_WRITE) of
          None \<Rightarrow> endpoint_unregister_locked c e k1
        | Some (h, p', hnd) \<Rightarrow> (upd_process p (\<lambda>_. p') k1)\<lparr>k_objects := h\<rparr>)"
      using e by (simp add: ipc_service_register_def k1_def split: option.split)
    then show ?thesis
      using install_kernel_ok [OF conjunct1 [OF R] p] unregister_kernel_ok [OF conjunct1 [OF R] conjunct2 [OF R], of c]
      by (auto split: option.split)
  qed
qed

text \<open>
  A new object is created with one reference, installed, and the creator's reference dropped: this is
  how request contexts, files and the other objects of a process come to be.
\<close>

lemma created_refs_ok:
  assumes ok: "refs_ok P base k" and p: "p \<in> P" and a: "k_objects k a = None"
    and i: "process_handle_install ((k_objects k)(a \<mapsto> object_init t d)) (k_processes k p) (Some a) r = Some (h, p', hnd)"
    and k': "k_objects k' = (k_objects k)(a \<mapsto> object_init t d)" "k_processes k' = (k_processes k)(p := p')"
      "endpoint_list k' = endpoint_list k"
  shows "refs_ok P base k'"
proof -
  note A = refs_ok_accounted [OF ok p] and F = fresh_refs [OF ok a]
  have one: "handle_refs (handle_table (k_processes k p)) a = 0" "others P base k p a = 0"
    using accountedD(1) [OF A(1), of a] a by (simp_all add: refs_def)
  have "accounted ((others P base k p)(a := 1)) ((k_objects k)(a \<mapsto> object_init t d)) (handle_table (k_processes k p))"
    by (rule accountedI)
      (use accountedD [OF A(1)] one in \<open>auto simp: refs_upd object_init_def\<close>)
  from install_accounted [OF i this] have ac: "accounted ((others P base k p)(a := 1)) h (handle_table p')" .
  have rel: "object_release h (Some a) = ((k_objects k)(a \<mapsto> object_init t d), None)"
    by (rule object_reference_release [OF install_frame(2) [OF i]])
  have "accounted (others P base k p) ((k_objects k)(a \<mapsto> object_init t d)) (handle_table p')"
  proof (rule accountedI)
    show "refs ((k_objects k)(a \<mapsto> object_init t d)) b = handle_refs (handle_table p') b + others P base k p b" for b
      using accountedD(1) [OF ac, of b] one(2) unfolding object_release_refs [OF rel] by (cases "b = a") simp_all
    show "\<forall>b\<in>dom ((k_objects k)(a \<mapsto> object_init t d)). 0 < refs ((k_objects k)(a \<mapsto> object_init t d)) b"
      by (rule release_dom_pos [OF rel accountedD(2) [OF ac]])
  qed
  then show ?thesis
    by (intro refs_ok_process [OF ok p]) (use install_table_wf [OF i A(2)] in \<open>simp_all add: k'\<close>)
qed

definition context_created :: "kernel \<Rightarrow> kernel \<Rightarrow> addr \<Rightarrow> addr \<Rightarrow> bool" where
  "context_created k k' p a \<longleftrightarrow> (\<exists>h p' hnd.
     process_handle_install ((k_objects k)(a \<mapsto> object_init OBJECT_TYPE_IPC_REQUEST (Some destroy_fn.request_context_destroy)))
       (k_processes k p) (Some a) OBJECT_RIGHT_WRITE = Some (h, p', hnd) \<and>
     k_objects k' = (k_objects k)(a \<mapsto> object_init OBJECT_TYPE_IPC_REQUEST (Some destroy_fn.request_context_destroy)) \<and>
     k_processes k' = (k_processes k)(p := p') \<and> endpoint_list k' = endpoint_list k)"

lemma install_refs:
  assumes a: "k_objects k a = None"
    and k2: "k_objects k2 = (k_objects k)(a \<mapsto> object_init OBJECT_TYPE_IPC_REQUEST (Some destroy_fn.request_context_destroy))"
      "k_processes k2 = k_processes k" "endpoint_list k2 = endpoint_list k"
  shows "same_refs k (snd (ipc_receive_install c k2 p r a)) \<or> context_created k (snd (ipc_receive_install c k2 p r a)) p a"
proof (cases "process_handle_install (k_objects k2) (k_processes k2 p) (Some a) OBJECT_RIGHT_WRITE")
  case None
  define k1 where "k1 = request_fail c r (upd_request r (\<lambda>x. x\<lparr>context_live := False\<rparr>) k2)"
  note C = pool_changeD [OF fail_change [of r "upd_request r (\<lambda>x. x\<lparr>context_live := False\<rparr>) k2" c], folded k1_def, simplified]
  have rel: "object_release (k_objects k1) (Some a) = (k_objects k, Some (a, Some destroy_fn.request_context_destroy))"
    using a by (simp add: C k2 object_release_def object_init_def fun_upd_idem)
  have "same_refs k (k1\<lparr>k_objects := k_objects k\<rparr>)" by (simp add: same_refs_def C k2)
  moreover note context_destroy_refs [of _ c a]
  ultimately have "same_refs k (request_context_destroy c a (k1\<lparr>k_objects := k_objects k\<rparr>))" by (rule same_refs_trans)
  then show ?thesis using None rel by (simp add: ipc_receive_install_def Let_def k1_def [symmetric] run_destructor_def)
next
  case (Some q)
  obtain h p' hnd where q: "q = (h, p', hnd)" by (cases q)
  have "object_release h (Some a) = (k_objects k2, None)"
    by (rule object_reference_release [OF install_frame(2) [OF Some [unfolded q]]])
  then have "context_created k (snd (ipc_receive_install c k2 p r a)) p a"
    using Some unfolding ipc_receive_install_def context_created_def
    by (simp add: q run_destructor_def k2)
  then show ?thesis ..
qed

lemma deliver_refs:
  assumes k1: "same_refs k k1" "k_processes k1 = k_processes k" and b: "\<And>a. block = Some a \<Longrightarrow> k_objects k a = None"
  shows "same_refs k (snd (ipc_receive_deliver c k1 p d block)) \<or>
    (\<exists>a. block = Some a \<and> context_created k (snd (ipc_receive_deliver c k1 p d block)) p a)"
proof (cases "\<exists>r k2. \<not> is_event d \<and> dl_request d = Some r \<and> ipc_receive_mark k1 r = Some k2")
  case True
  then obtain r k2 where r: "\<not> is_event d" "dl_request d = Some r" "ipc_receive_mark k1 r = Some k2" by blast
  then have k2: "same_refs k k2" "k_processes k2 = k_processes k" "k_objects k2 = k_objects k" "endpoint_list k2 = endpoint_list k"
    using k1 by (auto simp: ipc_receive_mark_def same_refs_def split: if_splits)
  have fl: "same_refs k (request_fail c r k2)" by (rule same_refs_trans [OF k2(1) pool_change_refs [OF fail_change]])
  obtain x k3 where x: "ipc_receive_context c k2 p r block = (x, k3)" by fastforce
  show ?thesis
  proof (cases x)
    case (Inl err)
    then have "same_refs k k3" using x fl k2(1) by (auto simp: ipc_receive_context_def split: option.splits if_splits)
    then show ?thesis using r x Inl by (simp add: ipc_receive_deliver_def)
  next
    case (Inr a)
    then have a: "block = Some a" using x by (auto simp: ipc_receive_context_def split: option.splits if_splits)
    have "same_refs k (snd (ipc_receive_install c k3 p r a)) \<or> context_created k (snd (ipc_receive_install c k3 p r a)) p a"
      by (rule install_refs [OF b [OF a]]) (use x a Inr k2 in \<open>auto simp: ipc_receive_context_def split: if_splits\<close>)
    then show ?thesis using r x Inr a by (simp add: ipc_receive_deliver_def)
  qed
qed (use k1 in \<open>auto simp: ipc_receive_deliver_def split: option.split\<close>)

lemma receive_kernel_ok:
  assumes ok: "kernel_ok P base k" and p: "p \<in> P" and b: "\<And>a. block = Some a \<Longrightarrow> k_objects k a = None"
  shows "kernel_ok P base (snd (ipc_receive_round c k p e self wait timed now deadline block))"
proof -
  define k' where "k' = snd (ipc_receive_round c k p e self wait timed now deadline block)"
  note K = kernel_okD [OF ok]
  have i: "ipc_ok k'" unfolding k'_def by (rule receive_round_ok [OF K(1) b])
  have "same_refs k (snd (ipc_receive_deliver c (upd_endpoint e (\<lambda>_. ep) k) p d block)) \<or>
      (\<exists>a. block = Some a \<and> context_created k (snd (ipc_receive_deliver c (upd_endpoint e (\<lambda>_. ep) k) p d block)) p a)" for ep d
    by (rule deliver_refs [OF _ _ b]) simp_all
  then have "same_refs k k' \<or> (\<exists>a. block = Some a \<and> context_created k k' p a)"
    unfolding k'_def ipc_receive_round_def ipc_receive_poll_def
    by (simp add: ipc_receive_overflow_def Let_def case_prod_beta split: option.split)
  then have "kernel_ok P base k'"
  proof
    assume "same_refs k k'"
    then show ?thesis by (rule kernel_ok_same [OF ok i])
  next
    assume "\<exists>a. block = Some a \<and> context_created k k' p a"
    then obtain a h p' hnd where a: "block = Some a"
        "process_handle_install ((k_objects k)(a \<mapsto> object_init OBJECT_TYPE_IPC_REQUEST (Some destroy_fn.request_context_destroy)))
          (k_processes k p) (Some a) OBJECT_RIGHT_WRITE = Some (h, p', hnd)"
        "k_objects k' = (k_objects k)(a \<mapsto> object_init OBJECT_TYPE_IPC_REQUEST (Some destroy_fn.request_context_destroy))"
        "k_processes k' = (k_processes k)(p := p')" "endpoint_list k' = endpoint_list k"
      unfolding context_created_def by blast
    have "refs_ok P base k'" by (rule created_refs_ok [OF K(2) p b [OF a(1)] a(2-5)])
    moreover have "types_ok k'"
      using K(3) fresh_refs(2) [OF K(2) b [OF a(1)]]
      unfolding types_ok_def endpoint_object_def is_context_def a(3,5) by (auto simp: object_init_def)
    ultimately show ?thesis using i by (simp add: kernel_ok_def)
  qed
  then show ?thesis by (simp add: k'_def)
qed

end
