(* ===== verification/Words.thy ===== *)
theory Words
  imports Prelude
begin

section \<open>Machine words\<close>

text \<open>Conversions between word widths and the natural numbers, shared by the components that count in words.\<close>

lemma unat_ucast: "unat (ucast w :: 'b::len word) = unat (w :: 'a::len word) mod 2 ^ LENGTH('b)"
proof -
  have "unat (ucast w :: 'b word) = take_bit LENGTH('b) (unat w)" by (rule unsigned_ucast_eq)
  then show ?thesis by (simp only: take_bit_eq_mod)
qed

lemma unat_ucast_up:
  assumes "LENGTH('a) \<le> LENGTH('b)"
  shows "unat (ucast w :: 'b::len word) = unat (w :: 'a::len word)"
proof -
  have "unat w < 2 ^ LENGTH('a)" by (rule unsigned_less)
  also have "\<dots> \<le> (2::nat) ^ LENGTH('b)" using assms by (rule power_increasing) simp
  finally show ?thesis by (simp add: unat_ucast)
qed

lemma unat_NOT_zero: "unat (NOT 0 :: 'a::len word) = 2 ^ LENGTH('a) - 1"
proof -
  have "unat (- 1 :: 'a word) = unat (0 - 1 :: 'a word)" by simp
  also have "\<dots> = 2 ^ LENGTH('a) - 1" by (subst unat_sub_if') simp
  finally show ?thesis by simp
qed

end
