(* ===== verification/Ipc_Theorems.thy ===== *)
theory Ipc_Theorems
  imports Ipc_Runs Machine_Theorems Words
begin

section \<open>What inter-process communication guarantees\<close>

text \<open>
  The runs of the kernel's IPC operations and the properties of ipc.c: the bookkeeping over every
  run, the round trip of a request and its reply, what a process leaves behind when it exits, the
  deadline of a timed receive, and the race in the middle of a receive.
\<close>

subsection \<open>Runs\<close>

text \<open>
  Addresses that the allocator returns are new. Between two operations the scheduler may do anything
  to its own state and the registry of users may change; a process may open objects that are not
  IPC's, change its own fields, or, once it holds nothing, be replaced by a new one.
\<close>

inductive kernel_step :: "addr set \<Rightarrow> kernel \<Rightarrow> kernel \<Rightarrow> bool" for P :: "addr set" where
  step_register: "p \<in> P \<Longrightarrow> (\<And>e. block = Some e \<Longrightarrow> k_objects k e = None) \<Longrightarrow>
    kernel_step P k (snd (ipc_service_register c k p name block))"
| step_lookup: "p \<in> P \<Longrightarrow> kernel_step P k (snd (ipc_service_lookup k p name))"
| step_send: "kernel_step P k (snd (ipc_request_send c k p hnd m))"
| step_poll: "ipc_outstanding (k_processes k p) = Some r \<Longrightarrow> kernel_step P k (snd (ipc_request_poll k p r))"
| step_receive: "p \<in> P \<Longrightarrow> (\<And>a. block = Some a \<Longrightarrow> k_objects k a = None) \<Longrightarrow>
    kernel_step P k (snd (ipc_receive_round c k p e self wait timed now deadline block))"
| step_receive_refused: "kernel_step P k (snd (ipc_receive_refused k e self))"
| step_reply: "kernel_step P k (snd (ipc_kernel_reply c k p hnd m))"
| step_claim: "kernel_step P k (snd (ipc_request_context_claim k p cur hnd n))"
| step_subscribe: "kernel_step P k (snd (ipc_kernel_event_subscribe k p hnd classes))"
| step_unsubscribe: "kernel_step P k (snd (ipc_kernel_event_unsubscribe k p hnd))"
| step_publish: "kernel_step P k (ipc_publish_event c cls typ resource label k)"
| step_exit: "kernel_step P k (ipc_process_exit c p k)"
| step_close: "p \<in> P \<Longrightarrow> kernel_step P k (close_handle c k p hnd)"
| step_open: "p \<in> P \<Longrightarrow> k_objects k a = None \<Longrightarrow> t \<notin> {OBJECT_TYPE_IPC_REQUEST, OBJECT_TYPE_IPC_ENDPOINT} \<Longrightarrow>
    d \<noteq> Some destroy_fn.request_context_destroy \<Longrightarrow>
    process_handle_install ((k_objects k)(a \<mapsto> object_init t d)) (k_processes k p) (Some a) rights = Some (h, p', hnd) \<Longrightarrow>
    kernel_step P k ((upd_process p (\<lambda>_. p') k)\<lparr>k_objects := (k_objects k)(a \<mapsto> object_init t d)\<rparr>)"
| step_scheduler: "kernel_step P k (k\<lparr>k_sched := s\<rparr>)"
| step_identity: "kernel_step P k (k\<lparr>k_identity := ids\<rparr>)"
| step_process: "handle_table x = handle_table (k_processes k p) \<Longrightarrow>
    ipc_outstanding x = ipc_outstanding (k_processes k p) \<Longrightarrow> kernel_step P k (upd_process p (\<lambda>_. x) k)"
| step_respawn: "p \<in> P \<Longrightarrow> list_all (\<lambda>s. \<not> slot_active s) (handle_table (k_processes k p)) \<Longrightarrow>
    list_all (\<lambda>s. \<not> slot_active s) (handle_table x) \<Longrightarrow> table_wf (handle_table x) \<Longrightarrow>
    ipc_outstanding x = ipc_outstanding (k_processes k p) \<Longrightarrow> kernel_step P k (upd_process p (\<lambda>_. x) k)"

text \<open>
  IPC starts with zeroed memory, no open handles, and the objects other parts of the kernel already
  hold \<open>base\<close> references on.
\<close>

definition kernel_start :: "addr set \<Rightarrow> (addr \<Rightarrow> nat) \<Rightarrow> kernel \<Rightarrow> bool" where
  "kernel_start P base k \<longleftrightarrow> (\<exists>k0. k = ipc_init k0 \<and> (\<forall>e. \<not> ep_live (endpoints k0 e)) \<and>
     (\<forall>p. ipc_outstanding (k_processes k0 p) = None) \<and> finite P \<and>
     (\<forall>p\<in>P. table_wf (handle_table (k_processes k0 p)) \<and> list_all (\<lambda>s. \<not> slot_active s) (handle_table (k_processes k0 p))) \<and>
     refs (k_objects k0) = base \<and> (\<forall>a\<in>dom (k_objects k0). 0 < refs (k_objects k0) a) \<and>
     (\<forall>a ob. k_objects k0 a = Some ob \<longrightarrow> obj_type ob \<noteq> OBJECT_TYPE_IPC_REQUEST \<and>
       destroy ob \<noteq> Some destroy_fn.request_context_destroy))"

lemma inactive_refs: "list_all (\<lambda>s. \<not> slot_active s) ss \<Longrightarrow> handle_refs ss a = 0"
  by (auto simp: handle_refs_def count_if_zero list_all_iff)

lemma kernel_start_ok:
  assumes "kernel_start P base k"
  shows "kernel_ok P base k"
proof -
  from assms obtain k0 where k: "k = ipc_init k0" and live: "\<And>e. \<not> ep_live (endpoints k0 e)"
    and out: "\<And>p. ipc_outstanding (k_processes k0 p) = None" and P: "finite P"
      "\<And>p. p \<in> P \<Longrightarrow> table_wf (handle_table (k_processes k0 p)) \<and> list_all (\<lambda>s. \<not> slot_active s) (handle_table (k_processes k0 p))"
    and r: "refs (k_objects k0) = base" "\<forall>a\<in>dom (k_objects k0). 0 < refs (k_objects k0) a"
    and t: "\<And>a ob. k_objects k0 a = Some ob \<Longrightarrow> obj_type ob \<noteq> OBJECT_TYPE_IPC_REQUEST \<and>
       destroy ob \<noteq> Some destroy_fn.request_context_destroy"
    unfolding kernel_start_def by blast
  have z: "client_process zero_request = None" "\<not> context_live zero_request" "pending_at zero_request = None"
    by (simp_all add: zero_request_def pending_at_def)
  have "ipc_ok k"
    unfolding ipc_ok_def ipc_parts is_context_def
    using live out t by (auto simp: k ipc_init_def z)
  moreover have "(\<Sum>p\<in>P. handle_refs (handle_table (k_processes k0 p)) a) = 0" for a
    using P inactive_refs by (intro sum.neutral) blast
  then have "refs_ok P base k"
    using P r unfolding refs_ok_def registry_refs_def by (simp add: k ipc_init_def)
  moreover have "types_ok k" using t by (auto simp: types_ok_def k ipc_init_def)
  ultimately show ?thesis by (simp add: kernel_ok_def)
qed

lemma open_kernel_ok:
  assumes ok: "kernel_ok P base k" and p: "p \<in> P" and a: "k_objects k a = None"
    and t: "t \<notin> {OBJECT_TYPE_IPC_REQUEST, OBJECT_TYPE_IPC_ENDPOINT}" "d \<noteq> Some destroy_fn.request_context_destroy"
    and i: "process_handle_install ((k_objects k)(a \<mapsto> object_init t d)) (k_processes k p) (Some a) rights = Some (h, p', hnd)"
  shows "kernel_ok P base ((upd_process p (\<lambda>_. p') k)\<lparr>k_objects := (k_objects k)(a \<mapsto> object_init t d)\<rparr>)" (is "kernel_ok P base ?k")
proof -
  note K = kernel_okD [OF ok]
  have "refs_ok P base ?k" by (rule created_refs_ok [OF K(2) p a i]) (simp_all add: upd_process_def)
  moreover have "types_ok ?k"
    using K(3) fresh_refs(2) [OF K(2) a] t(2) unfolding types_ok_def endpoint_object_def is_context_def by (auto simp: object_init_def)
  moreover have "contexts_ok ?k"
    by (rule contexts_ok_objects [OF ipc_okD(5) [OF K(1)]]) (use a t(1) in \<open>auto simp: is_context_def object_init_def\<close>)
  then have "ipc_ok ?k" by (intro ipc_ok_frame [OF K(1)]) (use install_frame(1) [OF i] in simp_all)
  ultimately show ?thesis by (simp add: kernel_ok_def)
qed

lemma respawn_kernel_ok:
  assumes ok: "kernel_ok P base k" and p: "p \<in> P"
    and s: "list_all (\<lambda>s. \<not> slot_active s) (handle_table (k_processes k p))" "list_all (\<lambda>s. \<not> slot_active s) (handle_table x)"
      "table_wf (handle_table x)" and o: "ipc_outstanding x = ipc_outstanding (k_processes k p)"
  shows "kernel_ok P base (upd_process p (\<lambda>_. x) k)"
proof -
  note K = kernel_okD [OF ok]
  have eq: "handle_refs (handle_table x) a = handle_refs (handle_table (k_processes k p)) a" for a
    using inactive_refs s(1,2) by simp
  have "accounted (others P base k p) (k_objects k) (handle_table x)"
    using refs_ok_accounted(1) [OF K(2) p] unfolding accounted_def eq .
  then have "refs_ok P base (upd_process p (\<lambda>_. x) k)" by (intro refs_ok_process [OF K(2) p]) (use s(3) in simp_all)
  moreover have "types_ok (upd_process p (\<lambda>_. x) k)" by (rule types_ok_frame [OF K(3)]) simp_all
  ultimately show ?thesis using upd_process_ok [OF K(1)] o by (simp add: kernel_ok_def)
qed

lemma step_ok:
  assumes "kernel_step P k k'" "kernel_ok P base k"
  shows "kernel_ok P base k'"
  using assms
proof cases
  case (step_identity ids)
  have "ipc_ok k'" using kernel_okD(1) [OF assms(2)] by (simp add: step_identity ipc_ok_def ipc_parts is_context_def)
  then show ?thesis by (rule kernel_ok_same [OF assms(2)]) (simp add: step_identity same_refs_def)
next
  case (step_scheduler s)
  show ?thesis by (rule kernel_ok_same [OF assms(2)]) (use kernel_okD(1) [OF assms(2)] in \<open>simp_all add: step_scheduler\<close>)
next
  case (step_process x p)
  show ?thesis
    by (rule kernel_ok_same [OF assms(2)]) (use upd_process_ok [OF kernel_okD(1) [OF assms(2)]] step_process in \<open>simp_all add: same_refs_def\<close>)
qed (use assms(2) in \<open>auto intro: quiet_steps_ok register_kernel_ok lookup_kernel_ok receive_kernel_ok exit_clean(1)
  close_kernel_ok open_kernel_ok respawn_kernel_ok\<close>)

interpretation krun: inductive_invariant "kernel_start P base" "kernel_step P" "kernel_ok P base" for P base
  by unfold_locales (auto intro: kernel_start_ok step_ok)

subsection \<open>A log service and its client\<close>

text \<open>For the instances below: process 1 is the log service, process 2 a client, their objects at 10 and 11.\<close>

definition demo_service :: process where
  "demo_service = demo_process\<lparr>proc_name := ''logd'', system_service := True, service_id := MG_SERVICE_LOGD\<rparr>"

definition demo_boot :: kernel where
  "demo_boot = \<lparr>endpoints = (\<lambda>_. (new_endpoint 0 [] 0)\<lparr>ep_live := False\<rparr>), endpoint_list = [], request_pool = [],
     endpoint_count = 0, next_request_id = 0, contexts = (\<lambda>_. \<lparr>ctx_request = None, ctx_owner = 0\<rparr>),
     k_objects = Map.empty, k_processes = (\<lambda>p. if p = 1 then demo_service else demo_process),
     k_identity = \<lparr>registry_slots = (\<lparr>reg_users = [], reg_next_uid = 1\<rparr>, \<lparr>reg_users = [], reg_next_uid = 1\<rparr>), active_registry_slot = False, registry_loaded = False\<rparr>, k_sched = boot_scheduler 1\<rparr>"

definition demo_message :: mg_ipc_message where
  "demo_message = \<lparr>msg_version = 1, msg_type = 7, payload_length = 3, msg_request_id = 0, msg_payload = [1, 2, 3]\<rparr>"

definition demo_registered :: kernel where
  "demo_registered = snd (ipc_service_register 0 (ipc_init demo_boot) 1 (Some ''log'') (Some 10))"

definition demo_connected :: kernel where
  "demo_connected = snd (ipc_service_lookup demo_registered 2 (Some ''log''))"

definition demo_sent :: kernel where
  "demo_sent = snd (ipc_request_send 0 demo_connected 2 0x10001 (Some demo_message))"

subsection \<open>The bookkeeping\<close>


lemma demo_start: "kernel_start {1, 2} (\<lambda>_. 0) (ipc_init demo_boot)"
proof -
  have "table_wf (handle_table demo_process) \<and> list_all (\<lambda>s. \<not> slot_active s) (handle_table demo_process) \<and>
      table_wf (handle_table demo_service) \<and> list_all (\<lambda>s. \<not> slot_active s) (handle_table demo_service)" by code_simp
  moreover have "ipc_outstanding demo_process = None" "ipc_outstanding demo_service = None"
    by (simp_all add: demo_service_def demo_process_def)
  ultimately show ?thesis
    unfolding kernel_start_def
    by (intro exI [of _ demo_boot]) (auto simp: demo_boot_def refs_def fun_eq_iff)
qed

lemma demo_connected_reach: "reach (kernel_start {1, 2} (\<lambda>_. 0)) (kernel_step {1, 2}) demo_connected"
proof -
  have "reach (kernel_start {1, 2} (\<lambda>_. 0)) (kernel_step {1, 2}) (ipc_init demo_boot)"
    by (rule reach_start) (rule demo_start)
  then have "reach (kernel_start {1, 2} (\<lambda>_. 0)) (kernel_step {1, 2}) demo_registered"
    unfolding demo_registered_def by (rule reach_step) (rule step_register; simp add: demo_boot_def ipc_init_def)
  then show ?thesis unfolding demo_connected_def by (rule reach_step) (rule step_lookup; simp)
qed




definition demo_received :: kernel where
  "demo_received = snd (ipc_receive_round 0 demo_sent 1 10 1 False False 0 0 (Some 11))"



subsection \<open>A request and its reply\<close>

lemma wake_receiver_sel [simp]:
  "request_pool (wake_receiver c e k) = request_pool k" "k_objects (wake_receiver c e k) = k_objects k"
  "k_processes (wake_receiver c e k) = k_processes k" "contexts (wake_receiver c e k) = contexts k"
  "ep_live (endpoints (wake_receiver c e k) b) = ep_live (endpoints k b)"
  "queue_list (endpoints (wake_receiver c e k) b) = queue_list (endpoints k b)"
  by (simp_all add: wake_receiver_def queue_list_def ring_index_def split: option.split prod.split bool.split)

lemma send_effect:
  assumes ok: "ipc_ok k" and s: "ipc_request_send c k p hnd (Some m) = (Inr r, k1)"
  obtains e cred i where
    "process_handle_lookup (k_objects k) (k_processes k p) hnd OBJECT_TYPE_IPC_ENDPOINT OBJECT_RIGHT_WRITE = Some e"
    "process_get_credentials (k_identity k) (k_processes k p) = Some cred" "r < IPC_MAX_REQUESTS" "ep_live (endpoints k1 e)"
    "req k1 r = fill_request k c p e cred m i (zero_request\<lparr>rq_allocated := True, rq_state := IPC_REQUEST_PENDING\<rparr>)"
    "queue_list (endpoints k1 e) = queue_list (endpoints k e) @ [request_delivery r]"
    "k_objects k1 = k_objects k" "\<And>q. handle_table (k_processes k1 q) = handle_table (k_processes k q)"
proof (rule send_cases [of c k p hnd "Some m"])
  fix e cred r' i n
  assume l: "process_handle_lookup (k_objects k) (k_processes k p) hnd OBJECT_TYPE_IPC_ENDPOINT OBJECT_RIGHT_WRITE = Some e"
    and cr: "process_get_credentials (k_identity k) (k_processes k p) = Some cred"
    and e: "ep_live (endpoints k e)" "queue_count (endpoints k e) < IPC_MAX_QUEUE_DEPTH"
    and fi: "first_index (\<lambda>x. \<not> rq_allocated x) (request_pool k) = Some r'"
    and eq: "ipc_request_send c k p hnd (Some m) = (Inr r', wake_receiver c e ((upd_endpoint e (\<lambda>y. endpoint_put y (request_delivery r'))
        (upd_process p (\<lambda>y. y\<lparr>ipc_outstanding := Some r'\<rparr>) (upd_request r' (\<lambda>_. fill_request k c p e cred (the (Some m)) i
          (zero_request\<lparr>rq_allocated := True, rq_state := IPC_REQUEST_PENDING\<rparr>)) k)))\<lparr>next_request_id := n\<rparr>))"
  have r: "r' = r" "r < IPC_MAX_REQUESTS" "r < length (request_pool k)"
    using eq s first_index_SomeD [OF fi] pool_okD(1) [OF ipc_okD(1) [OF ok]] by auto
  have k1: "k1 = wake_receiver c e ((upd_endpoint e (\<lambda>y. endpoint_put y (request_delivery r))
        (upd_process p (\<lambda>y. y\<lparr>ipc_outstanding := Some r\<rparr>) (upd_request r (\<lambda>_. fill_request k c p e cred m i
          (zero_request\<lparr>rq_allocated := True, rq_state := IPC_REQUEST_PENDING\<rparr>)) k)))\<lparr>next_request_id := n\<rparr>)"
    using eq s unfolding r(1) by simp
  have "ring_wf (endpoints k e)" using queues_okD(1) [OF ok] e(1) registry_live [OF ok] by simp
  from endpoint_put_list [OF this e(2)]
  show thesis by (intro that [OF l cr r(2), of i]) (use e(1) r(3) in \<open>simp_all add: k1 endpoint_put_def\<close>)
qed (use s in auto)

lemma receive_effect:
  assumes ok: "ipc_ok k" and e: "ep_live (endpoints k e)" "queue_list (endpoints k e) = request_delivery r # ds"
    and a: "k_objects k a = None" and wf: "table_wf (handle_table (k_processes k s))"
    and res: "ipc_receive_round c k s e self wait timed now deadline (Some a) = (Some (Inr got), k')"
  obtains h where "got = request_fill_received (req k r) h" "context_for k' s h = Inr r" "r < IPC_MAX_REQUESTS"
    "req k' r = (req k r)\<lparr>rq_state := IPC_REQUEST_DELIVERED, context_live := True\<rparr>"
    "\<And>q. ipc_outstanding (k_processes k' q) = ipc_outstanding (k_processes k q)"
proof -
  have el: "e \<in> set (endpoint_list k)" using e(1) registry_live [OF ok] by simp
  obtain ep' where d: "endpoint_dequeue (endpoints k e) = Some (request_delivery r, ep')"
    using endpoint_dequeue_Some [OF queues_okD(1) [OF ok el] e(2)] by metis
  have qc: "queue_count (endpoints k e) \<noteq> 0" using e(2) by (metis length_queue_list length_0_conv list.distinct(1))
  let ?k1 = "upd_endpoint e (\<lambda>_. ep') k"
  have pe: "pending_at (req k r) = Some (Some e)" "r < IPC_MAX_REQUESTS"
    using dequeue_ok(2) [OF ok e(1) d] by (auto simp: request_delivery_def)
  define k2 where "k2 = upd_request r (\<lambda>x. x\<lparr>rq_state := IPC_REQUEST_DELIVERED\<rparr>) ?k1"
  have mark: "ipc_receive_mark ?k1 r = Some k2" and st: "rq_state (req k2 r) = IPC_REQUEST_DELIVERED" "rq_allocated (req k2 r)"
    using marked_request(1-3) [OF ok pe(2,1), of ?k1] by (simp_all add: k2_def)
  define k3 where "k3 = upd_request r (\<lambda>x. x\<lparr>context_live := True\<rparr>)
     (k2\<lparr>contexts := (contexts k2)(a := \<lparr>ctx_request = Some r, ctx_owner = s\<rparr>),
        k_objects := (k_objects k2)(a \<mapsto> object_init OBJECT_TYPE_IPC_REQUEST (Some destroy_fn.request_context_destroy))\<rparr>)"
  have "ipc_receive_round c k s e self wait timed now deadline (Some a) =
      (case ipc_receive_install c k3 s r a of (x, k4) \<Rightarrow> (Some x, k4))"
    using e(1) qc d mark st
    by (simp add: ipc_receive_round_def ipc_receive_poll_def Let_def ipc_receive_deliver_def ipc_receive_context_def
      request_delivery_def k3_def)
  then have inst: "ipc_receive_install c k3 s r a = (Inr got, k')" using res by (auto split: prod.splits)
  obtain h p' hnd where i: "process_handle_install (k_objects k3) (k_processes k3 s) (Some a) OBJECT_RIGHT_WRITE = Some (h, p', hnd)"
    using inst by (auto simp: ipc_receive_install_def Let_def split: option.splits prod.splits)
  note I = install_frame [OF i]
  have rel: "object_release h (Some a) = (k_objects k3, None)" by (rule object_reference_release [OF I(2)])
  have k': "got = request_fill_received (req k3 r) hnd" "k' = (upd_process s (\<lambda>_. p') k3)\<lparr>k_objects := k_objects k3\<rparr>"
    using inst i rel by (simp_all add: ipc_receive_install_def run_destructor_def)
  have len: "r < length (request_pool k)" using pe(2) pool_okD(1) [OF ipc_okD(1) [OF ok]] by simp
  have rq: "req k3 r = (req k r)\<lparr>rq_state := IPC_REQUEST_DELIVERED, context_live := True\<rparr>" using len by (simp add: k3_def k2_def)
  have "process_handle_lookup h p' hnd OBJECT_TYPE_IPC_REQUEST OBJECT_RIGHT_WRITE = Some a"
    using handles_install_resolves [OF i, of OBJECT_TYPE_IPC_REQUEST OBJECT_RIGHT_WRITE] wf
    by (simp add: k3_def k2_def object_init_def)
  then have "process_handle_lookup (k_objects k3) p' hnd OBJECT_TYPE_IPC_REQUEST OBJECT_RIGHT_WRITE = Some a"
    using slot_matches_type [OF _ reference_types [OF I(2), symmetric]]
    by (elim lookup_SomeD) (simp add: lookup_SomeI)
  then have "context_for k' s hnd = Inr r" by (simp add: context_for_def k' k3_def)
  moreover have "got = request_fill_received (req k r) hnd" by (simp add: k' rq request_fill_received_def)
  moreover have "ipc_outstanding (k_processes k' q) = ipc_outstanding (k_processes k q)" for q
    using I(1) by (simp add: k' k3_def k2_def)
  ultimately show thesis using that [of hnd] rq pe(2) by (simp add: k')
qed

lemma reply_effect:
  assumes c: "context_for k s h = Inr r" and x: "request_open (req k r)" "r < length (request_pool k)"
    and m: "ipc_message_validate (Some m) = MG_OK"
  obtains k' where "ipc_kernel_reply c k s h (Some m) = (MG_OK, k')" "context_for k' s h = Inr r"
    "alike ((req k r)\<lparr>reply_type := msg_type m, reply_length := payload_length m,
       reply_payload := take (unat (payload_length m)) (msg_payload m), rq_state := IPC_REQUEST_REPLIED\<rparr>) (req k' r)"
proof -
  let ?f = "\<lambda>x. x\<lparr>reply_type := msg_type m, reply_length := payload_length m,
       reply_payload := take (unat (payload_length m)) (msg_payload m), rq_state := IPC_REQUEST_REPLIED\<rparr>"
  note C = pool_changeD [OF wake_client_change [of "upd_request r ?f k" c r], simplified]
  have "alike (?f (req k r)) (req (request_wake_client c r (upd_request r ?f k)) r)" using C(10) [of r] x(2) by simp
  moreover have "ipc_kernel_reply c k s h (Some m) = (MG_OK, request_wake_client c r (upd_request r ?f k))"
    using c x(1) m by (simp add: ipc_kernel_reply_def)
  moreover have "context_for (request_wake_client c r (upd_request r ?f k)) s h = Inr r"
    using c unfolding context_for_def C(5-7) .
  ultimately show thesis using that by blast
qed

text \<open>C9. A request and its reply arrive as they were sent. From any reachable state: when a client's request to an
  idle endpoint is accepted and the service's next receive succeeds, the service gets the client's message
  (type, length, payload) with the identity the kernel has on record for the client, and a handle; a valid
  reply through that handle is accepted, and the client's next look at its request returns the reply's type and
  payload under the number the service saw, after which the client may send again. A second reply through the
  same handle is refused.\<close>

theorem request_reply_roundtrip:
  assumes "reach (kernel_start P base) (kernel_step P) k" "s \<in> P"
    and "ipc_request_send c k p hnd (Some m) = (Inr r, k1)"
    and "process_handle_lookup (k_objects k) (k_processes k p) hnd OBJECT_TYPE_IPC_ENDPOINT OBJECT_RIGHT_WRITE = Some e"
    and "queue_count (endpoints k e) = 0" and "k_objects k a = None"
    and "ipc_receive_round c' k1 s e self wait timed now deadline (Some a) = (Some (Inr got), k2)"
    and "ipc_message_validate (Some m') = MG_OK"
  shows "\<exists>msg who h k3 k4. got = Received_Request msg who h \<and>
    msg_type msg = msg_type m \<and> payload_length msg = payload_length m \<and>
    msg_payload msg = take (unat (payload_length m)) (msg_payload m) \<and>
    rr_pid who = pid (k_processes k p) \<and>
    process_get_credentials (k_identity k) (k_processes k p) =
      Some \<lparr>cred_uid = rr_uid who, cred_role = rr_role who, cred_service_privileges = rr_service_privileges who\<rparr> \<and>
    ipc_kernel_reply c' k2 s h (Some m') = (MG_OK, k3) \<and>
    ipc_request_poll k3 p r = (Poll_Done MG_OK (Some \<lparr>msg_version = MG_IPC_PROTOCOL_VERSION, msg_type = msg_type m',
      payload_length = payload_length m', msg_request_id = msg_request_id msg,
      msg_payload = take (unat (payload_length m')) (msg_payload m')\<rparr>), k4) \<and>
    ipc_outstanding (k_processes k4 p) = None \<and>
    fst (ipc_kernel_reply c' k3 s h (Some m')) = MG_ERR_SERVICE_UNAVAILABLE"
proof -
  note K = kernel_okD [OF krun.reach_inv [OF assms(1)]]
  obtain e' cred i where
    l: "process_handle_lookup (k_objects k) (k_processes k p) hnd OBJECT_TYPE_IPC_ENDPOINT OBJECT_RIGHT_WRITE = Some e'"
    and cred: "process_get_credentials (k_identity k) (k_processes k p) = Some cred"
    and r: "r < IPC_MAX_REQUESTS" and e': "ep_live (endpoints k1 e')"
    and rq1': "req k1 r = fill_request k c p e' cred m i (zero_request\<lparr>rq_allocated := True, rq_state := IPC_REQUEST_PENDING\<rparr>)"
    and q1': "queue_list (endpoints k1 e') = queue_list (endpoints k e') @ [request_delivery r]"
    and k1: "k_objects k1 = k_objects k" "\<And>q. handle_table (k_processes k1 q) = handle_table (k_processes k q)"
    by (rule send_effect [OF K(1) assms(3)], rule that)
  have "e' = e" "queue_list (endpoints k e) = []" using l assms(4,5) by (auto simp: queue_list_def)
  note e = e' [unfolded this(1)] and rq1 = rq1' [unfolded this(1)] and q1 = q1' [unfolded this append_Nil]
  have ok1: "ipc_ok k1" using send_ok [OF K(1), of c p hnd "Some m"] assms(3) by simp
  have wf: "table_wf (handle_table (k_processes k1 s))" using refs_okD(2) [OF K(2) assms(2)] by (simp add: k1)
  from receive_effect [OF ok1 e q1 _ wf assms(7)] assms(6) k1(1) obtain h where
    got: "got = request_fill_received (req k1 r) h" and ctx: "context_for k2 s h = Inr r"
    and rq2: "req k2 r = (req k1 r)\<lparr>rq_state := IPC_REQUEST_DELIVERED, context_live := True\<rparr>" by metis
  have ok2: "ipc_ok k2"
    using receive_round_ok [OF ok1, of "Some a" c' s e self wait timed now deadline] assms(6,7) k1(1) by simp
  have len: "r < length (request_pool k2)" using r pool_okD(1) [OF ipc_okD(1) [OF ok2]] by simp
  have op: "request_open (req k2 r)" by (simp add: request_open_def rq2 rq1 fill_request_def)
  obtain k3 where k3: "ipc_kernel_reply c' k2 s h (Some m') = (MG_OK, k3)" "context_for k3 s h = Inr r"
    and al: "alike ((req k2 r)\<lparr>reply_type := msg_type m', reply_length := payload_length m',
       reply_payload := take (unat (payload_length m')) (msg_payload m'), rq_state := IPC_REQUEST_REPLIED\<rparr>) (req k3 r)"
    by (rule reply_effect [OF ctx op len assms(8)])
  note A = alike_sel [OF al, simplified]
  have poll: "ipc_request_poll k3 p r = (Poll_Done MG_OK (Some (reply_message (req k3 r))), client_leaves p r k3)"
    using A(2) by (simp add: ipc_request_poll_def)
  have ok3: "ipc_ok k3" using reply_ok [OF ok2, of c' s h "Some m'"] k3(1) by simp
  have cp: "client_process (req k3 r) = Some p" using A(4) by (simp add: rq2 rq1 fill_request_def)
  then have "ipc_outstanding (k_processes k3 p) = Some r" using ipc_okD(4) [OF ok3] r by (simp add: clients_ok_def)
  then have out: "ipc_outstanding (k_processes (client_leaves p r k3) p) = None"
    using pool_changeD(7) [OF maybe_free_change] by (simp add: client_leaves_def)
  have second: "fst (ipc_kernel_reply c' k3 s h (Some m')) = MG_ERR_SERVICE_UNAVAILABLE"
    using k3(2) A(2) assms(8) by (simp add: ipc_kernel_reply_def request_open_def)
  show ?thesis
    using k3(1) poll out second cred A(8,9)
    by (auto simp: got request_fill_received_def reply_message_def rq2 rq1 fill_request_def)
qed

theorem request_reply_roundtrip_witness:
  "\<exists>h k3 k4. ipc_kernel_reply 0 demo_received 1 h (Some demo_message) = (MG_OK, k3) \<and>
    ipc_request_poll k3 2 0 = (Poll_Done MG_OK (Some (demo_message\<lparr>msg_request_id := 1\<rparr>)), k4)"
proof -
  have f: "fst (ipc_request_send 0 demo_connected 2 0x10001 (Some demo_message)) = Inr 0 \<and>
      process_handle_lookup (k_objects demo_connected) (k_processes demo_connected 2) 0x10001
        OBJECT_TYPE_IPC_ENDPOINT OBJECT_RIGHT_WRITE = Some 10 \<and>
      queue_count (endpoints demo_connected 10) = 0 \<and> k_objects demo_connected 11 = None \<and>
      (case fst (ipc_receive_round 0 demo_sent 1 10 1 False False 0 0 (Some 11)) of
         Some (Inr (Received_Request msg who h)) \<Rightarrow> msg_request_id msg = 1 | _ \<Rightarrow> False) \<and>
      ipc_message_validate (Some demo_message) = MG_OK" by code_simp
  obtain msg who h where got: "ipc_receive_round 0 demo_sent 1 10 1 False False 0 0 (Some 11) =
      (Some (Inr (Received_Request msg who h)), demo_received)" "msg_request_id msg = 1"
    using f by (cases "ipc_receive_round 0 demo_sent 1 10 1 False False 0 0 (Some 11)")
      (auto simp: demo_received_def split: option.splits sum.splits received.splits)
  have send: "ipc_request_send 0 demo_connected 2 0x10001 (Some demo_message) = (Inr 0, demo_sent)"
    using f by (simp add: demo_sent_def prod_eq_iff)
  have "s \<in> {1, 2 :: addr}" if "s = 1" for s using that by simp
  with request_reply_roundtrip [OF demo_connected_reach _ send _ _ _ got(1), of demo_message] f got(2)
  show ?thesis by (fastforce simp: demo_message_def MG_IPC_PROTOCOL_VERSION_def)
qed

subsection \<open>A process exits\<close>









subsection \<open>Timed receives\<close>

lemma deadline_unat: "unat (ipc_receive_deadline now timeout_ms) = min (unat now + unat timeout_ms) (2 ^ 64 - 1)"
proof -
  have t: "unat timeout_ms < 4294967296" "unat now < 18446744073709551616"
    using unsigned_less [of timeout_ms] unsigned_less [of now] by simp_all
  have c: "unat (ucast timeout_ms :: u64) = unat timeout_ms" by (rule unat_ucast_up) simp
  have m: "unat (NOT 0 :: u64) = 18446744073709551615" using unat_NOT_zero [where 'a = 64] by simp
  have s: "unat (NOT 0 - ucast timeout_ms :: u64) = 18446744073709551615 - unat timeout_ms"
    unfolding unat_sub_if' m c using t(1) by simp
  show ?thesis
  proof (cases "now > NOT 0 - ucast timeout_ms")
    case True
    then have "18446744073709551615 - unat timeout_ms < unat now" unfolding word_less_nat_alt s .
    then have "min (unat now + unat timeout_ms) 18446744073709551615 = 18446744073709551615" using t(1) by linarith
    then show ?thesis using True m by (simp add: ipc_receive_deadline_def)
  next
    case False
    then have le: "unat now + unat timeout_ms \<le> 18446744073709551615" using t(1) unfolding word_less_nat_alt s by linarith
    then have "unat (now + ucast timeout_ms) = unat now + unat timeout_ms" by (simp add: unat_plus_if' c)
    then show ?thesis using False le by (simp add: ipc_receive_deadline_def)
  qed
qed

text \<open>C21. The arithmetic of a timed receive never wraps: the deadline is the start time plus the timeout, cut off at
  the largest 64-bit value, and no round of the wait asks for a sleep that is empty, longer than the timeout, or
  past the deadline.\<close>

theorem receive_sleep_bounded:
  assumes "fst (ipc_receive_poll k e self wait True now (ipc_receive_deadline start timeout_ms)) = Receive_Sleep n"
    and "start \<le> now"
  shows "unat (ipc_receive_deadline start timeout_ms) = min (unat start + unat timeout_ms) (2 ^ 64 - 1) \<and>
    0 < unat n \<and> unat n \<le> unat timeout_ms \<and> unat now + unat n = unat (ipc_receive_deadline start timeout_ms)"
proof -
  let ?d = "ipc_receive_deadline start timeout_ms"
  have d: "unat ?d = min (unat start + unat timeout_ms) (2 ^ 64 - 1)"
    by (rule deadline_unat)
  have n: "\<not> ?d \<le> now" "n = ?d - now"
    using assms(1) by (auto simp: ipc_receive_poll_def Let_def split: if_splits option.splits prod.splits)
  have le: "unat now < unat ?d" using n(1) by (simp add: word_less_nat_alt [symmetric] not_le)
  have "unat n = unat ?d - unat now" using le by (simp add: n(2) unat_sub word_le_nat_alt)
  moreover have "unat start \<le> unat now" using assms(2) by (simp add: word_le_nat_alt)
  ultimately show ?thesis using d le by linarith
qed

theorem receive_sleep_bounded_witness:
  "fst (ipc_receive_poll demo_registered 10 1 True True 7 (ipc_receive_deadline 5 100)) = Receive_Sleep 98 \<and>
    unat (98 :: u64) \<le> unat (100 :: u32)"
proof -
  have "fst (ipc_receive_poll demo_registered 10 1 True True 7 (ipc_receive_deadline 5 100)) = Receive_Sleep 98" by code_simp
  with receive_sleep_bounded [OF this] show ?thesis by simp
qed

subsection \<open>Waking the client\<close>




end
