(* ===== verification/Ipc_Race.thy ===== *)
theory Ipc_Race
  imports Ipc_Theorems
begin

section \<open>The window in the middle of a receive\<close>

text \<open>
  A receive takes the delivery off the queue in one critical section and marks the request delivered in
  the next. In between, the client can be terminated from outside, its slot of the pool freed and given
  to a request for another service.
\<close>

definition race_boot :: kernel where
  "race_boot = demo_boot\<lparr>k_processes := (\<lambda>p. if p = 1 then demo_service
     else if p = 3 then demo_process\<lparr>system_service := True, service_id := MG_SERVICE_NETWORKD\<rparr>
     else demo_process\<lparr>pid := of_nat p\<rparr>)\<rparr>"

definition race_ready :: kernel where
  "race_ready = snd (ipc_service_lookup (snd (ipc_service_lookup
     (snd (ipc_service_register 0 (snd (ipc_service_register 0 (ipc_init race_boot) 1 (Some ''log'') (Some 10)))
       3 (Some ''network'') (Some 12))) 2 (Some ''log''))) 4 (Some ''network''))"

text \<open>Client 2 has written to the log service, which has just taken the delivery off its queue.\<close>

definition race_window :: "receive_poll \<times> kernel" where
  "race_window = ipc_receive_poll (snd (ipc_request_send 0 race_ready 2 0x10001 (Some demo_message))) 10 1 False False 0 0"

text \<open>Client 2 is terminated and client 4 writes to the network service.\<close>

definition race_reused :: kernel where
  "race_reused = snd (ipc_request_send 0 (ipc_process_exit 0 2 (snd race_window)) 4 0x10001 (Some demo_message))"

text \<open>Process 1 goes on with the delivery it took, and then the network service receives.\<close>

definition race_delivered :: "(mg_status + received) \<times> kernel" where
  "race_delivered = ipc_receive_deliver 0 race_reused 1 (request_delivery 0) (Some 11)"

lemma race_window_eval: "fst race_window = Receive_Delivery (request_delivery 0)"
  by code_simp

lemma race_reused_eval:
  "rq_endpoint (req race_reused 0) = Some 12 \<and> client_process (req race_reused 0) = Some 4 \<and>
    queue_requests (endpoints race_reused 12) = [Some 0] \<and> ep_owner (endpoints race_reused 12) = 3"
  by code_simp

lemma race_delivered_eval:
  "case fst race_delivered of Inr (Received_Request msg who h) \<Rightarrow> rr_pid who = 4 | _ \<Rightarrow> False"
  by code_simp

lemma race_network_eval:
  "fst (ipc_receive_round 0 (snd race_delivered) 3 12 1 False False 0 0 (Some 13)) = Some (Inl MG_ERR_SERVICE_UNAVAILABLE)"
  by code_simp

text \<open>C22. A request can be delivered to a service it was not sent to. Process 1 receives from the log endpoint;
  between the section that dequeues the delivery and the section that marks it, its client is terminated and
  client 4 sends a request to the network endpoint, which reuses the slot. The receive then hands that request to
  process 1 with the identity of client 4, although it stands in the queue of the network endpoint at 12, and
  the network service's own receive of it fails.\<close>

theorem receive_window_crosses_services:
  "\<exists>d msg who h k'. fst race_window = Receive_Delivery d \<and>
     rq_endpoint (req race_reused 0) = Some 12 \<and> client_process (req race_reused 0) = Some 4 \<and>
     queue_requests (endpoints race_reused 12) = [Some 0] \<and> ep_owner (endpoints race_reused 12) = 3 \<and>
     ipc_receive_deliver 0 race_reused 1 d (Some 11) = (Inr (Received_Request msg who h), k') \<and> rr_pid who = 4 \<and>
     fst (ipc_receive_round 0 k' 3 12 1 False False 0 0 (Some 13)) = Some (Inl MG_ERR_SERVICE_UNAVAILABLE)"
proof -
  obtain msg who h where "fst race_delivered = Inr (Received_Request msg who h)" "rr_pid who = 4"
    using race_delivered_eval by (auto split: sum.splits received.splits)
  then have "ipc_receive_deliver 0 race_reused 1 (request_delivery 0) (Some 11) =
      (Inr (Received_Request msg who h), snd race_delivered)" "rr_pid who = 4"
    by (simp_all add: race_delivered_def prod_eq_iff)
  then show ?thesis using race_window_eval race_reused_eval race_network_eval by blast
qed

end
