(* ===== verification/Pmm.thy ===== *)
theory Pmm
  imports Words
begin

section \<open>The physical frame allocator\<close>

text \<open>
  \<^verbatim>\<open>kernel/src/pmm.c\<close> and the address conversions of \<^verbatim>\<open>kernel/src/address_space.c\<close>. The bitmap lives in
  the memory it manages: \<open>mem\<close> is physical memory, byte by byte, and the allocator reads and writes its
  bitmap there, so that handing out a frame of the bitmap would corrupt it. A pointer into the direct
  map and the temporary identity address denote the same physical byte; addresses beyond the direct map
  have no pointer and the theorems exclude them. Each operation runs under the
  allocator's lock and is one transition.
\<close>

subsection \<open>Addresses\<close>

definition PAGE_SIZE :: u64 where "PAGE_SIZE = 4096"
definition PHYS_MAP_BASE :: u64 where "PHYS_MAP_BASE = 0xffff800000000000"
definition PHYS_MAP_LIMIT :: u64 where "PHYS_MAP_LIMIT = 0x0000400000000000"

definition phys_map_contains :: "u64 \<Rightarrow> bool" where
  "phys_map_contains phys \<longleftrightarrow> phys < PHYS_MAP_LIMIT"

definition phys_to_virt :: "bool \<Rightarrow> u64 \<Rightarrow> u64" where
  "phys_to_virt ready phys = (if \<not> phys_map_contains phys then 0 else if \<not> ready then phys else PHYS_MAP_BASE + phys)"

definition virt_to_phys :: "bool \<Rightarrow> u64 \<Rightarrow> u64" where
  "virt_to_phys ready address =
     (if address \<ge> PHYS_MAP_BASE \<and> address - PHYS_MAP_BASE < PHYS_MAP_LIMIT then address - PHYS_MAP_BASE
      else if \<not> ready \<and> address < PHYS_MAP_LIMIT then address else 0)"

lemma virt_to_phys_to_virt: "phys_map_contains phys \<Longrightarrow> virt_to_phys ready (phys_to_virt ready phys) = phys"
  unfolding phys_map_contains_def phys_to_virt_def virt_to_phys_def PHYS_MAP_BASE_def PHYS_MAP_LIMIT_def
  by (auto simp: word_le_nat_alt word_less_nat_alt unat_plus_if' unat_sub_if')

subsection \<open>The memory map and the allocator's state\<close>




record pmm =
  mem :: "nat \<Rightarrow> u8"
  bitmap :: u64
  bitmap_phys :: u64
  bitmap_size :: u64
  total_frames :: u64
  free_frames :: u64
  used_ram_frames :: u64
  boot_services_frames :: u64
  smp_trampoline_candidate :: u64

definition bitmap_byte :: "pmm \<Rightarrow> nat \<Rightarrow> nat" where
  "bitmap_byte p frame = unat (bitmap_phys p) + frame div 8"

definition bitmap_set :: "nat \<Rightarrow> pmm \<Rightarrow> pmm" where
  "bitmap_set frame p = (let a = bitmap_byte p frame in
     p\<lparr>mem := (mem p)(a := mem p a OR push_bit (frame mod 8) 1)\<rparr>)"

definition bitmap_clear :: "nat \<Rightarrow> pmm \<Rightarrow> pmm" where
  "bitmap_clear frame p = (let a = bitmap_byte p frame in
     p\<lparr>mem := (mem p)(a := mem p a AND NOT (push_bit (frame mod 8) 1))\<rparr>)"

definition bitmap_test :: "pmm \<Rightarrow> nat \<Rightarrow> bool" where
  "bitmap_test p frame \<longleftrightarrow> mem p (bitmap_byte p frame) AND push_bit (frame mod 8) 1 \<noteq> 0"


text \<open>The step that start-up, allocation and reservation share: a frame that is free is taken.\<close>

definition take_frame :: "nat \<Rightarrow> pmm \<Rightarrow> pmm" where
  "take_frame frame p = (bitmap_set frame p)\<lparr>free_frames := free_frames p - 1, used_ram_frames := used_ram_frames p + 1\<rparr>"

definition reserve_frame :: "nat \<Rightarrow> pmm \<Rightarrow> pmm" where
  "reserve_frame frame p = (if \<not> bitmap_test p frame then take_frame frame p else p)"

subsection \<open>Start-up\<close>





definition release_frame :: "nat \<Rightarrow> pmm \<Rightarrow> pmm" where
  "release_frame frame p = (bitmap_clear frame p)\<lparr>free_frames := free_frames p + 1\<rparr>"





subsection \<open>Allocation\<close>

definition zero_page :: "nat \<Rightarrow> pmm \<Rightarrow> pmm" where
  "zero_page a p = p\<lparr>mem := (\<lambda>b. if a \<le> b \<and> b < a + 512 * 8 then 0 else mem p b)\<rparr>"

definition pmm_alloc_frame :: "pmm \<Rightarrow> u64 \<times> pmm" where
  "pmm_alloc_frame p = (case find (\<lambda>i. \<not> bitmap_test p i) [0..<unat (total_frames p)] of
       None \<Rightarrow> (0, p)
     | Some i \<Rightarrow> (of_nat i * PAGE_SIZE, zero_page (unat (of_nat i * PAGE_SIZE :: u64)) (take_frame i p)))"



definition pmm_get_free_memory :: "pmm \<Rightarrow> u64" where "pmm_get_free_memory p = free_frames p * PAGE_SIZE"
definition pmm_get_used_memory :: "pmm \<Rightarrow> u64" where "pmm_get_used_memory p = used_ram_frames p * PAGE_SIZE"
definition pmm_get_total_memory :: "pmm \<Rightarrow> u64" where
  "pmm_get_total_memory p = (free_frames p + used_ram_frames p) * PAGE_SIZE"
definition pmm_get_boot_services_memory :: "pmm \<Rightarrow> u64" where
  "pmm_get_boot_services_memory p = boot_services_frames p * PAGE_SIZE"

subsection \<open>The bitmap as a set of free frames\<close>

lemma bitmap_test_bit: "bitmap_test p f \<longleftrightarrow> bit (mem p (bitmap_byte p f)) (f mod 8)"
  by (simp add: bitmap_test_def bit_iff_and_push_bit_not_eq_0)

lemma same_bit: "f div 8 = g div 8 \<Longrightarrow> f mod 8 = g mod 8 \<Longrightarrow> f = (g :: nat)"
  by (metis div_mult_mod_eq)

lemma bit_mask: "bit (2 ^ (f mod 8) :: u8) (g mod 8) \<longleftrightarrow> f mod 8 = g mod 8"
  by (auto simp: bit_exp_iff)

lemma bitmap_mem:
  "mem (bitmap_set f p) a = (if a = bitmap_byte p f then mem p a OR 2 ^ (f mod 8) else mem p a)"
  "mem (bitmap_clear f p) a = (if a = bitmap_byte p f then mem p a AND NOT (2 ^ (f mod 8)) else mem p a)"
  by (simp_all add: bitmap_set_def bitmap_clear_def Let_def)

lemma bitmap_byte_simps [simp]:
  "bitmap_byte (bitmap_set f p) g = bitmap_byte p g" "bitmap_byte (bitmap_clear f p) g = bitmap_byte p g"
  "bitmap_byte (p\<lparr>free_frames := m\<rparr>) g = bitmap_byte p g" "bitmap_byte (p\<lparr>used_ram_frames := m\<rparr>) g = bitmap_byte p g"
  by (simp_all add: bitmap_byte_def bitmap_set_def bitmap_clear_def Let_def)

lemma bitmap_set_test [simp]: "bitmap_test (bitmap_set f p) g \<longleftrightarrow> g = f \<or> bitmap_test p g"
proof (cases "g div 8 = f div 8")
  case True
  then have "bitmap_byte p g = bitmap_byte p f" by (simp add: bitmap_byte_def)
  moreover have "f mod 8 = g mod 8 \<longleftrightarrow> g = f" using True same_bit by metis
  ultimately show ?thesis unfolding bitmap_test_bit by (simp add: bitmap_mem bit_or_iff bit_mask) blast
next
  case False
  then have "bitmap_byte p g \<noteq> bitmap_byte p f" "g \<noteq> f" by (auto simp: bitmap_byte_def)
  then show ?thesis unfolding bitmap_test_bit by (simp add: bitmap_mem)
qed

lemma bitmap_clear_test [simp]: "bitmap_test (bitmap_clear f p) g \<longleftrightarrow> g \<noteq> f \<and> bitmap_test p g"
proof (cases "g div 8 = f div 8")
  case True
  then have "bitmap_byte p g = bitmap_byte p f" by (simp add: bitmap_byte_def)
  moreover have "f mod 8 = g mod 8 \<longleftrightarrow> g = f" using True same_bit by metis
  ultimately show ?thesis unfolding bitmap_test_bit by (simp add: bitmap_mem bit_and_iff bit_not_iff bit_mask) blast
next
  case False
  then have "bitmap_byte p g \<noteq> bitmap_byte p f" "g \<noteq> f" by (auto simp: bitmap_byte_def)
  then show ?thesis unfolding bitmap_test_bit by (simp add: bitmap_mem)
qed

lemma bitmap_test_counters [simp]:
  "bitmap_test (p\<lparr>free_frames := m\<rparr>) g = bitmap_test p g" "bitmap_test (p\<lparr>used_ram_frames := m\<rparr>) g = bitmap_test p g"
  by (simp_all add: bitmap_test_def)

text \<open>The abstract state: which frames are free. \<open>bitmap_home\<close> are the frames the bitmap itself occupies.\<close>

definition free_set :: "pmm \<Rightarrow> nat set" where
  "free_set p = {f. f < unat (total_frames p) \<and> \<not> bitmap_test p f}"

definition bitmap_home :: "pmm \<Rightarrow> nat set" where
  "bitmap_home p = (\<lambda>b. (unat (bitmap_phys p) + b) div 4096) ` {..<unat (bitmap_size p)}"

definition pmm_ok :: "pmm \<Rightarrow> bool" where
  "pmm_ok p \<longleftrightarrow> unat (total_frames p) = 8 * unat (bitmap_size p) \<and>
     unat (total_frames p) * 4096 \<le> unat PHYS_MAP_LIMIT \<and>
     bitmap_home p \<inter> free_set p = {} \<and> 0 \<notin> free_set p \<and> unat (free_frames p) = card (free_set p)"

lemma finite_free_set [simp]: "finite (free_set p)"
  by (simp add: free_set_def)

lemma bitmap_ops_sel [simp]:
  "total_frames (bitmap_set f p) = total_frames p" "total_frames (bitmap_clear f p) = total_frames p"
  "bitmap_phys (bitmap_set f p) = bitmap_phys p" "bitmap_phys (bitmap_clear f p) = bitmap_phys p"
  "bitmap_size (bitmap_set f p) = bitmap_size p" "bitmap_size (bitmap_clear f p) = bitmap_size p"
  "bitmap (bitmap_set f p) = bitmap p" "bitmap (bitmap_clear f p) = bitmap p"
  "free_frames (bitmap_set f p) = free_frames p" "free_frames (bitmap_clear f p) = free_frames p"
  "used_ram_frames (bitmap_set f p) = used_ram_frames p" "used_ram_frames (bitmap_clear f p) = used_ram_frames p"
  by (simp_all add: bitmap_set_def bitmap_clear_def Let_def)

lemma take_frame_set:
  "free_set (take_frame f p) = free_set p - {f}"
  "bitmap_home (take_frame f p) = bitmap_home p"
  by (auto simp: take_frame_def free_set_def bitmap_home_def)

lemma take_frame_count:
  assumes "f \<in> free_set p" "unat (free_frames p) = card (free_set p)"
  shows "unat (free_frames (take_frame f p)) = card (free_set (take_frame f p))"
proof -
  have "0 < card (free_set p)" using assms(1) by (auto simp: card_gt_0_iff)
  then have "free_frames p \<noteq> 0" using assms(2) by auto
  moreover have "free_frames (take_frame f p) = free_frames p - 1" by (simp add: take_frame_def)
  ultimately show ?thesis using assms by (simp add: take_frame_set unat_minus_one)
qed

lemma take_frame_ok: "pmm_ok p \<Longrightarrow> f \<in> free_set p \<Longrightarrow> pmm_ok (take_frame f p)"
  using take_frame_count [of f p] unfolding pmm_ok_def take_frame_set by (auto simp: take_frame_def)



subsection \<open>Allocation, release and reservation on the set of free frames\<close>

lemma pmm_okD:
  assumes "pmm_ok p"
  shows "unat (total_frames p) = 8 * unat (bitmap_size p)" "unat (total_frames p) * 4096 \<le> unat PHYS_MAP_LIMIT"
    "bitmap_home p \<inter> free_set p = {}" "0 \<notin> free_set p" "unat (free_frames p) = card (free_set p)"
  using assms by (auto simp: pmm_ok_def)

lemma frame_address:
  assumes "unat (total_frames p) * 4096 \<le> unat PHYS_MAP_LIMIT" "f < unat (total_frames p)"
  shows "unat (of_nat f * PAGE_SIZE :: u64) = f * 4096"
proof -
  have "f * 4096 < 2 ^ 64" using assms by (simp add: PHYS_MAP_LIMIT_def)
  then have "unat (of_nat (f * 4096) :: u64) = f * 4096" by (simp only: unat_of_nat) simp
  then show ?thesis by (simp add: PAGE_SIZE_def)
qed

lemma zero_page_sel [simp]:
  "total_frames (zero_page a p) = total_frames p" "bitmap_phys (zero_page a p) = bitmap_phys p"
  "bitmap_size (zero_page a p) = bitmap_size p" "free_frames (zero_page a p) = free_frames p"
  "bitmap (zero_page a p) = bitmap p" "bitmap_home (zero_page a p) = bitmap_home p"
  by (simp_all add: zero_page_def bitmap_home_def)

text \<open>Whatever is written to a frame that does not hold the bitmap leaves the bitmap alone.\<close>

lemma frame_write_free:
  assumes ok: "pmm_ok p" and f: "f \<notin> bitmap_home p" and m: "\<And>b. b div 4096 \<noteq> f \<Longrightarrow> m b = mem p b"
  shows "free_set (p\<lparr>mem := m\<rparr>) = free_set p"
proof -
  have "bitmap_test (p\<lparr>mem := m\<rparr>) g = bitmap_test p g" if "g < unat (total_frames p)" for g
  proof -
    have "g div 8 < unat (bitmap_size p)" using that pmm_okD(1) [OF ok] by linarith
    then have "bitmap_byte p g div 4096 \<in> bitmap_home p" by (auto simp: bitmap_home_def bitmap_byte_def)
    then have "m (bitmap_byte p g) = mem p (bitmap_byte p g)" using f m by metis
    then show ?thesis by (simp add: bitmap_test_def bitmap_byte_def)
  qed
  then show ?thesis by (auto simp: free_set_def)
qed

lemma frame_write_ok:
  assumes ok: "pmm_ok p" and f: "f \<notin> bitmap_home p" and m: "\<And>b. b div 4096 \<noteq> f \<Longrightarrow> m b = mem p b"
  shows "pmm_ok (p\<lparr>mem := m\<rparr>)"
  using ok frame_write_free [OF assms] unfolding pmm_ok_def by (simp add: bitmap_home_def)

lemma zero_page_outside: "b div 4096 \<noteq> f \<Longrightarrow> mem (zero_page (f * 4096) p) b = mem p b"
  by (auto simp: zero_page_def)

lemma find_upt: "find P [0..<n] = (if \<exists>i<n. P i then Some (LEAST i. P i) else None)"
proof (cases "\<exists>i<n. P i")
  case True
  then obtain i where i: "i < n" "P i" by blast
  have "(LEAST i. P i) < n" using Least_le [of P i] i by simp
  moreover have "find P [0..<n] = Some (LEAST i. P i)"
    unfolding find_Some_iff using calculation LeastI [of P i] i(2) not_less_Least
    by (intro exI [of _ "LEAST i. P i"]) auto
  ultimately show ?thesis using True by simp
qed (auto simp: find_None_iff)

lemma alloc_None: "free_set p = {} \<Longrightarrow> pmm_alloc_frame p = (0, p)"
  by (auto simp: pmm_alloc_frame_def find_upt free_set_def)

lemma alloc_Some:
  assumes ok: "pmm_ok p" and ne: "free_set p \<noteq> {}"
  obtains f where "f = Min (free_set p)" "f \<in> free_set p" "f \<noteq> 0"
    "pmm_alloc_frame p = (of_nat f * PAGE_SIZE, zero_page (f * 4096) (take_frame f p))"
proof -
  let ?P = "\<lambda>i. \<not> bitmap_test p i"
  obtain g where g: "g \<in> free_set p" using ne by blast
  have ex: "\<exists>i<unat (total_frames p). ?P i" using g by (auto simp: free_set_def)
  let ?f = "LEAST i. ?P i"
  have f: "?f \<in> free_set p"
    using g LeastI [of ?P g] Least_le [of ?P g] by (auto simp: free_set_def)
  have min: "?f = Min (free_set p)"
    by (rule Min_eqI [symmetric]) (use f in \<open>auto simp: free_set_def intro: Least_le\<close>)
  have "unat (of_nat ?f * PAGE_SIZE :: u64) = ?f * 4096"
    by (rule frame_address [OF pmm_okD(2) [OF ok]]) (use f in \<open>simp add: free_set_def\<close>)
  then have "pmm_alloc_frame p = (of_nat ?f * PAGE_SIZE, zero_page (?f * 4096) (take_frame ?f p))"
    using ex by (simp add: pmm_alloc_frame_def find_upt)
  then show thesis using that min f pmm_okD(4) [OF ok] by metis
qed

lemma zero_page_ok:
  assumes ok: "pmm_ok p" and f: "f \<notin> bitmap_home p"
  shows "pmm_ok (zero_page (f * 4096) p)" "free_set (zero_page (f * 4096) p) = free_set p"
proof -
  let ?m = "mem (zero_page (f * 4096) p)"
  have "zero_page (f * 4096) p = p\<lparr>mem := ?m\<rparr>" by (simp add: zero_page_def)
  then show "pmm_ok (zero_page (f * 4096) p)" "free_set (zero_page (f * 4096) p) = free_set p"
    using frame_write_ok [OF assms, of ?m] frame_write_free [OF assms, of ?m] zero_page_outside [of _ f p] by simp_all
qed

lemma alloc_ok:
  assumes ok: "pmm_ok p"
  shows "pmm_ok (snd (pmm_alloc_frame p))"
proof (cases "free_set p = {}")
  case False
  then obtain f where f: "f \<in> free_set p"
      "pmm_alloc_frame p = (of_nat f * PAGE_SIZE, zero_page (f * 4096) (take_frame f p))"
    by (rule alloc_Some [OF ok])
  have "pmm_ok (take_frame f p)" by (rule take_frame_ok [OF ok f(1)])
  then show ?thesis
    using zero_page_ok [of "take_frame f p" f] f pmm_okD(3) [OF ok] by (auto simp: take_frame_set)
qed (use ok alloc_None in simp)




subsection \<open>Start-up\<close>










lemma release_frame_sel [simp]:
  "total_frames (release_frame f p) = total_frames p" "bitmap_phys (release_frame f p) = bitmap_phys p"
  "bitmap_size (release_frame f p) = bitmap_size p"
  by (simp_all add: release_frame_def)








lemma reserve_sel [simp]:
  "total_frames (reserve_frame f p) = total_frames p" "bitmap_phys (reserve_frame f p) = bitmap_phys p"
  "bitmap_size (reserve_frame f p) = bitmap_size p"
  by (simp_all add: reserve_frame_def take_frame_def)











subsection \<open>Frames and their owners\<close>











lemma take_frame_sel [simp]:
  "total_frames (take_frame f p) = total_frames p" "bitmap_home (take_frame f p) = bitmap_home p"
  by (simp_all add: take_frame_def bitmap_home_def)




















end
