(* ===== verification/Heap.thy ===== *)
theory Heap
  imports Words
begin

section \<open>The kernel heap\<close>

text \<open>
  \<^verbatim>\<open>kernel/src/heap.c\<close>: blocks that tile the heap region, linked in address order, with their headers
  in the memory they describe. The headers are a store from addresses to header records, so that a
  header can be overwritten by whoever owns the memory at its address. Walking the links may not end
  in a corrupted heap: a walk is a partial function, and that it ends is proved. Block addresses and
  sizes are natural numbers: they stay below \<open>HEAP_LIMIT\<close>, so no addition of the source wraps. The
  requested size is a machine word, and its rounding wraps as in the source.

  A growth takes frames from the physical allocator and maps them between two critical sections of the
  heap; what those calls delivered is an argument.
\<close>

subsection \<open>Blocks\<close>

definition HEAP_START :: nat where "HEAP_START = 0xffffc00000000000"
definition HEAP_LIMIT :: nat where "HEAP_LIMIT = 0xffffc08000000000"
definition HEAP_INITIAL_PAGES :: nat where "HEAP_INITIAL_PAGES = 4"
definition HEADER :: nat where "HEADER = 32"
definition PAGE :: nat where "PAGE = 4096"

record heap_block =
  hb_size :: nat
  hb_free :: bool
  hb_next :: ptr
  hb_prev :: ptr

type_synonym store = "addr \<Rightarrow> heap_block"

record heap =
  heap_from :: addr
  heap_end :: addr
  heap_first :: ptr
  blocks :: store

definition heap_init :: "bool \<Rightarrow> heap \<Rightarrow> heap" where
  "heap_init frames h =
     (if \<not> frames then h
      else h\<lparr>heap_from := HEAP_START, heap_end := HEAP_START + HEAP_INITIAL_PAGES * PAGE,
        blocks := (blocks h)(HEAP_START := \<lparr>hb_size = HEAP_INITIAL_PAGES * PAGE - HEADER, hb_free = True,
          hb_next = None, hb_prev = None\<rparr>), heap_first := Some HEAP_START\<rparr>)"

subsection \<open>Walks\<close>

partial_function (option) verify_from :: "heap \<Rightarrow> ptr \<Rightarrow> bool option" where
  "verify_from h current = (case current of None \<Rightarrow> Some True | Some c \<Rightarrow>
     if c < heap_from h \<or> c \<ge> heap_end h then Some False
     else if (case hb_next (blocks h c) of None \<Rightarrow> False | Some n \<Rightarrow> hb_prev (blocks h n) \<noteq> Some c) then Some False
     else verify_from h (hb_next (blocks h c)))"

definition heap_verify :: "heap \<Rightarrow> bool option" where "heap_verify h = verify_from h (heap_first h)"

definition suitable :: "nat \<Rightarrow> heap_block \<Rightarrow> bool" where "suitable sz b \<longleftrightarrow> hb_free b \<and> hb_size b \<ge> sz"

partial_function (option) find_from :: "store \<Rightarrow> nat \<Rightarrow> ptr \<Rightarrow> ptr option" where
  "find_from H sz current = (case current of None \<Rightarrow> Some None | Some c \<Rightarrow>
     if suitable sz (H c) then Some (Some c) else find_from H sz (hb_next (H c)))"

partial_function (option) last_from :: "store \<Rightarrow> addr \<Rightarrow> addr option" where
  "last_from H c = (case hb_next (H c) of None \<Rightarrow> Some c | Some n \<Rightarrow> last_from H n)"

definition add_block :: "(heap_block \<Rightarrow> bool) \<Rightarrow> heap_block \<Rightarrow> nat \<Rightarrow> nat" where
  "add_block P b t = (if P b then t + hb_size b else t)"

partial_function (option) sum_from :: "(heap_block \<Rightarrow> bool) \<Rightarrow> store \<Rightarrow> nat \<Rightarrow> ptr \<Rightarrow> nat option" where
  "sum_from sel H t current = (if current = None then Some t
     else let c = the current in sum_from sel H (add_block sel (H c) t) (hb_next (H c)))"

definition heap_get_total_size :: "heap \<Rightarrow> nat option" where
  "heap_get_total_size h = sum_from (\<lambda>_. True) (blocks h) 0 (heap_first h)"
definition heap_get_used_size :: "heap \<Rightarrow> nat option" where
  "heap_get_used_size h = sum_from (\<lambda>b. \<not> hb_free b) (blocks h) 0 (heap_first h)"
definition heap_get_free_size :: "heap \<Rightarrow> nat option" where
  "heap_get_free_size h = sum_from hb_free (blocks h) 0 (heap_first h)"

subsection \<open>Allocation\<close>

definition round_size :: "u64 \<Rightarrow> nat" where "round_size sz = unat ((sz + 15) AND NOT 15)"

definition set_prev :: "ptr \<Rightarrow> ptr \<Rightarrow> store \<Rightarrow> store" where
  "set_prev n p H = (case n of None \<Rightarrow> H | Some x \<Rightarrow> H(x := (H x)\<lparr>hb_prev := p\<rparr>))"

definition take_block :: "addr \<Rightarrow> nat \<Rightarrow> store \<Rightarrow> store" where
  "take_block c sz H = (let remaining = hb_size (H c) - sz;
      H1 = (if remaining > HEADER + 16 then let nb = c + HEADER + sz;
          Ha = H(nb := \<lparr>hb_size = remaining - HEADER, hb_free = True, hb_next = hb_next (H c), hb_prev = Some c\<rparr>);
          Hb = Ha(c := (Ha c)\<lparr>hb_next := Some nb\<rparr>);
          Hc = set_prev (hb_next (Hb nb)) (Some nb) Hb
        in Hc(c := (Hc c)\<lparr>hb_size := sz\<rparr>) else H)
    in H1(c := (H1 c)\<lparr>hb_free := False\<rparr>))"

text \<open>The first critical section: the result is the pointer, or \<open>None\<close> when no block is large enough.\<close>

definition kmalloc_attempt :: "nat \<Rightarrow> heap \<Rightarrow> (ptr \<times> heap) option" where
  "kmalloc_attempt sz h = (case heap_verify h of None \<Rightarrow> None | Some _ \<Rightarrow>
     (case find_from (blocks h) sz (heap_first h) of None \<Rightarrow> None
      | Some None \<Rightarrow> Some (None, h)
      | Some (Some c) \<Rightarrow> let h' = h\<lparr>blocks := take_block c sz (blocks h)\<rparr> in
          (case heap_verify h' of None \<Rightarrow> None | Some _ \<Rightarrow> Some (Some (c + HEADER), h'))))"

datatype growth_result = Heap_panic | Growth bool heap

definition grow_room :: "heap \<Rightarrow> bool" where
  "grow_room h \<longleftrightarrow> \<not> heap_end h > HEAP_LIMIT - HEAP_INITIAL_PAGES * PAGE"

definition grow_commit :: "addr \<Rightarrow> nat \<Rightarrow> heap \<Rightarrow> growth_result option" where
  "grow_commit old_end pages h =
     (if heap_end h \<noteq> old_end then Some Heap_panic
      else let complete = (pages = HEAP_INITIAL_PAGES); h1 = h\<lparr>heap_end := heap_end h + pages * PAGE\<rparr>; H = blocks h1 in
        if pages = 0 then Some (Growth False h1)
        else case heap_first h1 of None \<Rightarrow> None | Some f \<Rightarrow>
          (case last_from H f of None \<Rightarrow> None | Some l \<Rightarrow>
            if hb_free (H l) then Some (Growth complete (h1\<lparr>blocks := H(l := (H l)\<lparr>hb_size := hb_size (H l) + pages * PAGE\<rparr>)\<rparr>))
            else let Ha = H(old_end := \<lparr>hb_size = pages * PAGE - HEADER, hb_free = True, hb_next = None, hb_prev = Some l\<rparr>)
              in Some (Growth complete (h1\<lparr>blocks := Ha(l := (Ha l)\<lparr>hb_next := Some old_end\<rparr>)\<rparr>))))"

text \<open>
  What a growth attempt meets outside the heap: the growth lock is refused, the physical allocator has
  too few frames, or the frames are there and the first \<open>n\<close> of them are mapped.
\<close>

datatype frame_supply = Lock_refused | No_frames | Frames nat

partial_function (option) kmalloc_loop :: "(nat \<Rightarrow> frame_supply) \<Rightarrow> nat \<Rightarrow> nat \<Rightarrow> heap \<Rightarrow> (ptr \<times> heap) option" where
  "kmalloc_loop src i sz h = (case kmalloc_attempt sz h of None \<Rightarrow> None
     | Some (Some p, h1) \<Rightarrow> Some (Some p, h1)
     | Some (None, h1) \<Rightarrow> (case src i of Lock_refused \<Rightarrow> Some (None, h1) | No_frames \<Rightarrow> Some (None, h1)
        | Frames n \<Rightarrow> (case find_from (blocks h1) sz (heap_first h1) of None \<Rightarrow> None
            | Some (Some _) \<Rightarrow> kmalloc_loop src (i + 1) sz h1
            | Some None \<Rightarrow> if \<not> grow_room h1 then Some (None, h1)
                else (case grow_commit (heap_end h1) (min n HEAP_INITIAL_PAGES) h1 of None \<Rightarrow> None
                  | Some Heap_panic \<Rightarrow> None
                  | Some (Growth complete h2) \<Rightarrow> if complete then kmalloc_loop src (i + 1) sz h2 else Some (None, h2)))))"

definition kmalloc :: "(nat \<Rightarrow> frame_supply) \<Rightarrow> u64 \<Rightarrow> heap \<Rightarrow> (ptr \<times> heap) option" where
  "kmalloc src sz h = kmalloc_loop src 0 (round_size sz) h"

subsection \<open>Release\<close>

definition merge_next :: "addr \<Rightarrow> store \<Rightarrow> store" where
  "merge_next b H = (case hb_next (H b) of None \<Rightarrow> H | Some n \<Rightarrow>
     if \<not> hb_free (H n) then H
     else let Ha = H(b := (H b)\<lparr>hb_size := hb_size (H b) + (HEADER + hb_size (H n))\<rparr>);
              Hb = Ha(b := (Ha b)\<lparr>hb_next := hb_next (Ha n)\<rparr>)
       in set_prev (hb_next (Hb b)) (Some b) Hb)"

definition merge_prev :: "addr \<Rightarrow> store \<Rightarrow> store" where
  "merge_prev b H = (case hb_prev (H b) of None \<Rightarrow> H | Some p \<Rightarrow>
     if \<not> hb_free (H p) then H
     else let Ha = H(p := (H p)\<lparr>hb_size := hb_size (H p) + (HEADER + hb_size (H b))\<rparr>);
              Hb = Ha(p := (Ha p)\<lparr>hb_next := hb_next (Ha b)\<rparr>)
       in set_prev (hb_next (Hb p)) (Some p) Hb)"

definition kfree :: "ptr \<Rightarrow> heap \<Rightarrow> heap option" where
  "kfree p h = (case p of None \<Rightarrow> Some h | Some a \<Rightarrow>
     (case heap_verify h of None \<Rightarrow> None | Some _ \<Rightarrow>
       let b = a - HEADER; H = blocks h; h' = h\<lparr>blocks := merge_prev b (merge_next b (H(b := (H b)\<lparr>hb_free := True\<rparr>)))\<rparr>
       in (case heap_verify h' of None \<Rightarrow> None | Some _ \<Rightarrow> Some h')))"

subsection \<open>The heap as a sequence of segments\<close>

text \<open>
  The abstract heap is the sequence of its block sizes with their free flags: a block's address, its
  links and its end follow from the sizes before it.
\<close>

type_synonym seg = "nat \<times> bool"

definition link :: "addr \<Rightarrow> addr \<Rightarrow> ptr" where "link e x = (if x = e then None else Some x)"

fun part :: "store \<Rightarrow> addr \<Rightarrow> ptr \<Rightarrow> addr \<Rightarrow> seg list \<Rightarrow> bool" where
  "part H e p a [] \<longleftrightarrow> True"
| "part H e p a ((n, f) # ss) \<longleftrightarrow>
     H a = \<lparr>hb_size = n, hb_free = f, hb_next = link e (a + HEADER + n), hb_prev = p\<rparr> \<and>
     part H e (Some a) (a + HEADER + n) ss"

fun blks :: "addr \<Rightarrow> seg list \<Rightarrow> (addr \<times> nat \<times> bool) list" where
  "blks a [] = []"
| "blks a ((n, f) # ss) = (a, n, f) # blks (a + HEADER + n) ss"

definition span :: "seg list \<Rightarrow> nat" where "span ss = (\<Sum>(n, f)\<leftarrow>ss. HEADER + n)"

fun lastp :: "ptr \<Rightarrow> addr \<Rightarrow> seg list \<Rightarrow> ptr" where
  "lastp p a [] = p"
| "lastp p a ((n, f) # ss) = lastp (Some a) (a + HEADER + n) ss"

lemma span_simps [simp]: "span [] = 0" "span ((n, f) # ss) = HEADER + n + span ss" "span (xs @ ys) = span xs + span ys"
  by (simp_all add: span_def)

lemma HEADER_pos [simp]: "0 < HEADER" "HEADER \<noteq> 0" "0 < PAGE"
  by (simp_all add: HEADER_def PAGE_def)

lemma span_zero [simp]: "span ss = 0 \<longleftrightarrow> ss = []" "0 < span ss \<longleftrightarrow> ss \<noteq> []"
  by (cases ss; auto simp: HEADER_def)+

lemma part_append: "part H e p a (xs @ ys) \<longleftrightarrow> part H e p a xs \<and> part H e (lastp p a xs) (a + span xs) ys"
  by (induction H e p a xs rule: part.induct) (auto simp: add.assoc)

lemma blks_append: "blks a (xs @ ys) = blks a xs @ blks (a + span xs) ys"
  by (induction a xs rule: blks.induct) (auto simp: add.assoc)

lemma lastp_snoc [simp]: "lastp p a (xs @ [(n, f)]) = Some (a + span xs)"
  by (induction p a xs rule: lastp.induct) (auto simp: add.assoc)

lemma blks_bounds: "(b, n, f) \<in> set (blks a ss) \<Longrightarrow> a \<le> b \<and> b + HEADER + n \<le> a + span ss"
  by (induction a ss rule: blks.induct) auto

lemma blks_split:
  assumes "(b, n, f) \<in> set (blks a ss)"
  obtains xs ys where "ss = xs @ (n, f) # ys" "b = a + span xs"
proof -
  have "\<exists>xs ys. ss = xs @ (n, f) # ys \<and> b = a + span xs"
    using assms
  proof (induction a ss rule: blks.induct)
    case (2 a m g ss)
    show ?case
    proof (cases "(b, n, f) = (a, m, g)")
      case True
      then show ?thesis by (intro exI [of _ "[]"] exI [of _ ss]) auto
    next
      case False
      then obtain xs ys where "ss = xs @ (n, f) # ys" "b = a + HEADER + m + span xs" using 2 by auto
      then show ?thesis by (intro exI [of _ "(m, g) # xs"] exI [of _ ys]) auto
    qed
  qed simp
  then show thesis using that by blast
qed

text \<open>Two blocks are the same or apart, headers included.\<close>

lemma blks_apart:
  assumes "(b, n, f) \<in> set (blks a ss)" "(c, m, g) \<in> set (blks a ss)"
  shows "(b, n, f) = (c, m, g) \<or> b + HEADER + n \<le> c \<or> c + HEADER + m \<le> b"
proof -
  obtain xs ys where s: "ss = xs @ (n, f) # ys" "b = a + span xs" using assms(1) by (rule blks_split)
  from assms(2) consider "(c, m, g) \<in> set (blks a xs)" | "(c, m, g) = (b, n, f)" | "(c, m, g) \<in> set (blks (b + HEADER + n) ys)"
    unfolding s blks_append by auto
  then show ?thesis by cases (auto simp: s(2) dest: blks_bounds)
qed

lemma part_cong: "(\<And>b n f. (b, n, f) \<in> set (blks a ss) \<Longrightarrow> H b = H' b) \<Longrightarrow> part H e p a ss = part H' e p a ss"
proof (induction H e p a ss rule: part.induct)
  case (2 H e p a n f ss)
  have "H a = H' a" using 2(2) [of a n f] by simp
  moreover have "part H e (Some a) (a + HEADER + n) ss = part H' e (Some a) (a + HEADER + n) ss" using 2 by auto
  ultimately show ?case by simp
qed simp

lemma part_upd:
  assumes "x < a \<or> a + span ss \<le> x"
  shows "part (H(x := v)) e p a ss = part H e p a ss"
  by (rule part_cong) (use assms in \<open>auto dest!: blks_bounds simp: HEADER_def\<close>)

lemma part_end:
  assumes "a + span ss < e" "a + span ss < e'"
  shows "part H e p a ss = part H e' p a ss"
  using assms by (induction H e p a ss rule: part.induct) (auto simp: link_def)

lemma set_prev_other [simp]:
  "hb_size (set_prev n p H x) = hb_size (H x)" "hb_free (set_prev n p H x) = hb_free (H x)" "hb_next (set_prev n p H x) = hb_next (H x)"
  by (auto simp: set_prev_def split: option.split)

lemma set_prev_apply: "set_prev (link e a) p H x = (if x = a \<and> a \<noteq> e then (H a)\<lparr>hb_prev := p\<rparr> else H x)"
  by (simp add: set_prev_def link_def)

text \<open>Relinking the block after a changed one.\<close>

lemma set_prev_part:
  assumes "part H e p a ys" "a + span ys = e"
  shows "part (set_prev (link e a) p' H) e p' a ys"
proof (cases ys)
  case (Cons y ys')
  obtain n f where y: "y = (n, f)" by fastforce
  have "part (set_prev (link e a) p' H) e (Some a) (a + HEADER + n) ys' = part H e (Some a) (a + HEADER + n) ys'"
    by (rule part_cong) (auto simp: set_prev_apply dest!: blks_bounds)
  then show ?thesis using assms Cons y by (auto simp: set_prev_apply)
qed simp

lemma set_prev_part_below:
  assumes "x + span xs \<le> a"
  shows "part (set_prev (link e a) p' H) e p x xs = part H e p x xs"
  by (rule part_cong) (use assms in \<open>auto simp: set_prev_apply HEADER_def dest!: blks_bounds\<close>)

definition repr :: "heap \<Rightarrow> seg list \<Rightarrow> bool" where
  "repr h ss \<longleftrightarrow> heap_from h = HEAP_START \<and> ss \<noteq> [] \<and> heap_end h = HEAP_START + span ss \<and>
     heap_first h = Some HEAP_START \<and> part (blocks h) (heap_end h) None HEAP_START ss"

subsection \<open>Walks end\<close>

lemma verify_None [simp]: "verify_from h None = Some True"
  by (subst verify_from.simps) simp

lemma verify_Some:
  assumes "heap_from h \<le> c" "c < heap_end h" "\<And>n. hb_next (blocks h c) = Some n \<Longrightarrow> hb_prev (blocks h n) = Some c"
  shows "verify_from h (Some c) = verify_from h (hb_next (blocks h c))"
  using assms by (subst verify_from.simps) (auto split: option.split)

lemma find_None [simp]: "find_from H sz None = Some None"
  by (subst find_from.simps) simp

lemma find_Some: "find_from H sz (Some c) = (if suitable sz (H c) then Some (Some c) else find_from H sz (hb_next (H c)))"
  by (subst find_from.simps) simp

lemma last_end: "hb_next (H c) = None \<Longrightarrow> last_from H c = Some c"
  by (subst last_from.simps) simp

lemma last_step: "hb_next (H c) = Some n \<Longrightarrow> last_from H c = last_from H n"
  by (subst last_from.simps) simp

lemma sum_None [simp]: "sum_from P H t None = Some t"
  by (subst sum_from.simps) simp

lemma sum_Some: "sum_from P H t (Some c) = sum_from P H (add_block P (H c) t) (hb_next (H c))"
  by (subst sum_from.simps) simp

lemma verify_walk:
  assumes "part (blocks h) e p a ss" "a + span ss = e" "heap_from h \<le> a" "e = heap_end h"
  shows "verify_from h (link e a) = Some True"
  using assms
proof (induction ss arbitrary: p a)
  case (Cons s ss)
  obtain n f where s: "s = (n, f)" by fastforce
  let ?a = "a + HEADER + n"
  have a: "blocks h a = \<lparr>hb_size = n, hb_free = f, hb_next = link e ?a, hb_prev = p\<rparr>" "part (blocks h) e (Some a) ?a ss" "?a + span ss = e"
    using Cons.prems s by auto
  have "hb_prev (blocks h ?a) = Some a" if "?a \<noteq> e" using a(2,3) that by (cases ss) auto
  then have "verify_from h (Some a) = verify_from h (link e ?a)"
    using verify_Some [of h a] a Cons.prems(3,4) by (auto simp: link_def HEADER_def split: if_splits)
  moreover have "verify_from h (link e ?a) = Some True" by (rule Cons.IH [OF a(2,3)]) (use Cons.prems in auto)
  moreover have "a \<noteq> e" using a(3) by (simp add: HEADER_def)
  ultimately show ?case by (simp add: link_def)
qed (simp add: link_def)

lemma reprD:
  assumes "repr h ss"
  shows "part (blocks h) (heap_end h) None HEAP_START ss" "HEAP_START + span ss = heap_end h" "heap_from h = HEAP_START"
    "ss \<noteq> []" "heap_first h = link (heap_end h) HEAP_START" "heap_first h = Some HEAP_START"
  using assms unfolding repr_def by (blast | simp add: link_def)+

lemma reprI:
  "heap_from h = HEAP_START \<Longrightarrow> ss \<noteq> [] \<Longrightarrow> HEAP_START + span ss = heap_end h \<Longrightarrow> heap_first h = Some HEAP_START \<Longrightarrow>
    part (blocks h) (heap_end h) None HEAP_START ss \<Longrightarrow> repr h ss"
  unfolding repr_def by simp

lemma verify_ok:
  assumes "repr h ss"
  shows "heap_verify h = Some True"
  unfolding heap_verify_def reprD(5) [OF assms]
  by (rule verify_walk [OF reprD(1) [OF assms] reprD(2) [OF assms]]) (simp_all add: reprD(3) [OF assms])

fun seg_find :: "nat \<Rightarrow> addr \<Rightarrow> seg list \<Rightarrow> ptr" where
  "seg_find sz a [] = None"
| "seg_find sz a ((n, f) # ss) = (if f \<and> n \<ge> sz then Some a else seg_find sz (a + HEADER + n) ss)"

lemma find_walk: "part H e p a ss \<Longrightarrow> a + span ss = e \<Longrightarrow> find_from H sz (link e a) = Some (seg_find sz a ss)"
  by (induction H e p a ss rule: part.induct) (auto simp: link_def suitable_def find_Some)

lemma find_ok:
  assumes "repr h ss"
  shows "find_from (blocks h) sz (heap_first h) = Some (seg_find sz HEAP_START ss)"
  unfolding reprD(5) [OF assms] by (rule find_walk [OF reprD(1) [OF assms] reprD(2) [OF assms]])

lemma last_walk:
  assumes "part H e p a (ss @ [(n, f)])" "a + span (ss @ [(n, f)]) = e"
  shows "last_from H a = Some (a + span ss)"
  using assms
proof (induction ss arbitrary: p a)
  case Nil
  then show ?case by (simp add: link_def last_end)
next
  case (Cons s ss)
  obtain m g where s: "s = (m, g)" by fastforce
  have "last_from H (a + HEADER + m) = Some (a + HEADER + m + span ss)"
    by (rule Cons.IH) (use Cons.prems s in auto)
  moreover have "hb_next (H a) = Some (a + HEADER + m)" using Cons.prems s by (auto simp: link_def)
  ultimately show ?case using s by (simp add: last_step add.assoc)
qed

lemma sum_walk:
  "part H e p a ss \<Longrightarrow> a + span ss = e \<Longrightarrow>
    sum_from (\<lambda>b. q (hb_free b)) H t (link e a) = Some (t + (\<Sum>(n, f)\<leftarrow>ss. if q f then n else 0))"
  by (induction H e p a ss arbitrary: t rule: part.induct) (auto simp: link_def add_block_def sum_Some)

subsection \<open>Operations on segments\<close>

definition seg_take :: "nat \<Rightarrow> nat \<Rightarrow> seg list" where
  "seg_take sz n = (if n - sz > HEADER + 16 then [(sz, False), (n - sz - HEADER, True)] else [(n, False)])"

lemma seg_find_Some:
  "seg_find sz a ss = Some c \<Longrightarrow> \<exists>xs n ys. ss = xs @ (n, True) # ys \<and> sz \<le> n \<and> c = a + span xs"
proof (induction sz a ss rule: seg_find.induct)
  case (2 sz a n f ss)
  show ?case
  proof (cases "f \<and> sz \<le> n")
    case True
    then show ?thesis using 2(2) by (intro exI [of _ "[]"] exI [of _ n] exI [of _ ss]) auto
  next
    case False
    then obtain xs m ys where "ss = xs @ (m, True) # ys" "sz \<le> m" "c = a + HEADER + n + span xs"
      using 2 by (auto split: if_splits)
    then show ?thesis by (intro exI [of _ "(n, f) # xs"] exI [of _ m] exI [of _ ys]) auto
  qed
qed simp

lemma take_block_below:
  assumes "x + span xs \<le> c" "c + HEADER + hb_size (H c) \<le> e" "hb_next (H c) = link e (c + HEADER + hb_size (H c))"
  shows "part (take_block c sz H) e p x xs = part H e p x xs"
proof (rule part_cong)
  fix b n f assume "(b, n, f) \<in> set (blks x xs)"
  then have "b < c" using assms(1) by (auto simp: HEADER_def dest: blks_bounds)
  then show "take_block c sz H b = H b"
    using assms(2,3) by (simp add: take_block_def Let_def set_prev_apply)
qed

lemma take_block_part:
  assumes P: "part H e p c ((n, True) # ys)" and e: "c + HEADER + n + span ys = e" and sz: "sz \<le> n"
  shows "part (take_block c sz H) e p c (seg_take sz n @ ys)"
proof -
  let ?b = "c + HEADER + n"
  have c: "H c = \<lparr>hb_size = n, hb_free = True, hb_next = link e ?b, hb_prev = p\<rparr>" and ys: "part H e (Some c) ?b ys"
    using P by auto
  show ?thesis
  proof (cases "n - sz > HEADER + 16")
    case False
    have "part (take_block c sz H) e (Some c) ?b ys = part H e (Some c) ?b ys"
      by (rule part_cong) (use False c in \<open>auto simp: take_block_def Let_def dest!: blks_bounds\<close>)
    then show ?thesis using False c ys by (simp add: seg_take_def take_block_def Let_def)
  next
    case True
    let ?nb = "c + HEADER + sz"
    have nb: "?nb + HEADER + (n - sz - HEADER) = ?b" "?nb \<noteq> ?b" "c \<noteq> ?nb" "?nb < e" "?b \<noteq> c" "?nb \<noteq> e"
      using True e by (auto simp: HEADER_def)
    let ?T = "take_block c sz H"
    have T: "?T = (set_prev (link e ?b) (Some ?nb) (H(?nb := \<lparr>hb_size = n - sz - HEADER, hb_free = True, hb_next = link e ?b,
        hb_prev = Some c\<rparr>)))(c := \<lparr>hb_size = sz, hb_free = False, hb_next = Some ?nb, hb_prev = p\<rparr>)"
      using True c nb by (auto simp: take_block_def Let_def set_prev_def link_def fun_eq_iff)
    have "part ?T e (Some ?nb) ?b ys = part (set_prev (link e ?b) (Some ?nb) H) e (Some ?nb) ?b ys"
      unfolding T by (rule part_cong) (use True in \<open>auto simp: set_prev_apply HEADER_def dest!: blks_bounds\<close>)
    then have "part ?T e (Some ?nb) ?b ys" using set_prev_part [OF ys e] by simp
    moreover have "?T ?nb = \<lparr>hb_size = n - sz - HEADER, hb_free = True, hb_next = link e ?b, hb_prev = Some c\<rparr>"
      unfolding T using nb by (auto simp: set_prev_apply)
    moreover have "?T c = \<lparr>hb_size = sz, hb_free = False, hb_next = link e ?nb, hb_prev = p\<rparr>"
      unfolding T using nb by (simp add: link_def)
    ultimately show ?thesis unfolding seg_take_def if_P [OF True] append.simps part.simps nb(1) by blast
  qed
qed

lemma seg_take_span: "sz \<le> n \<Longrightarrow> span (seg_take sz n) = HEADER + n"
  by (simp add: seg_take_def HEADER_def)

lemma attempt_None:
  "repr h ss \<Longrightarrow> seg_find sz HEAP_START ss = None \<Longrightarrow> kmalloc_attempt sz h = Some (None, h)"
  by (simp add: kmalloc_attempt_def verify_ok find_ok)

lemma attempt_Some:
  assumes r: "repr h (xs @ (n, True) # ys)" and sz: "sz \<le> n"
    and f: "seg_find sz HEAP_START (xs @ (n, True) # ys) = Some (HEAP_START + span xs)"
  obtains h' where "kmalloc_attempt sz h = Some (Some (HEAP_START + span xs + HEADER), h')" "repr h' (xs @ seg_take sz n @ ys)"
    "heap_end h' = heap_end h"
proof -
  let ?c = "HEAP_START + span xs" and ?e = "heap_end h"
  let ?h = "h\<lparr>blocks := take_block ?c sz (blocks h)\<rparr>"
  have e: "?c + HEADER + n + span ys = ?e" using reprD(2) [OF r] by simp
  have P: "part (blocks h) ?e None HEAP_START xs" "part (blocks h) ?e (lastp None HEAP_START xs) ?c ((n, True) # ys)"
    using reprD(1) [OF r] by (simp_all add: part_append)
  have "part (take_block ?c sz (blocks h)) ?e None HEAP_START xs = part (blocks h) ?e None HEAP_START xs"
    by (rule take_block_below) (use P(2) e in auto)
  then have "part (blocks ?h) ?e None HEAP_START (xs @ seg_take sz n @ ys)"
    using P(1) take_block_part [OF P(2) e sz] by (simp add: part_append)
  then have r': "repr ?h (xs @ seg_take sz n @ ys)"
    using r e sz unfolding repr_def by (simp add: seg_take_span add.assoc) (simp add: seg_take_def)
  moreover have "kmalloc_attempt sz h = Some (Some (?c + HEADER), ?h)"
    using verify_ok [OF r] verify_ok [OF r'] find_ok [OF r] f by (simp add: kmalloc_attempt_def)
  ultimately show thesis using that by simp
qed

definition merge_segs :: "nat \<Rightarrow> seg list \<Rightarrow> seg list" where
  "merge_segs n ys = (case ys of (m, True) # zs \<Rightarrow> (n + (HEADER + m), True) # zs | _ \<Rightarrow> (n, True) # ys)"

definition seg_release :: "seg list \<Rightarrow> nat \<Rightarrow> seg list \<Rightarrow> seg list" where
  "seg_release xs n ys = (if xs \<noteq> [] \<and> snd (last xs) then butlast xs @ merge_segs (fst (last xs)) (merge_segs n ys)
     else xs @ merge_segs n ys)"

lemma merge_segs_span: "span (merge_segs n ys) = HEADER + n + span ys"
  by (auto simp: merge_segs_def split: list.split bool.split)

lemma merge_segs_free: "\<exists>k zs. merge_segs n ys = (k, True) # zs"
  by (auto simp: merge_segs_def split: list.split bool.split)

lemma merge_next_part:
  assumes P: "part H e p b ((n, True) # ys)" and e: "b + HEADER + n + span ys = e"
  shows "part (merge_next b H) e p b (merge_segs n ys)"
proof (cases "\<exists>m zs. ys = (m, True) # zs")
  case False
  have "merge_next b H = H"
  proof (cases ys)
    case (Cons y zs)
    with False have "\<not> snd y" by (cases y) auto
    then show ?thesis using P Cons by (cases y) (auto simp: merge_next_def link_def split: option.split)
  qed (use P e in \<open>simp add: merge_next_def link_def\<close>)
  moreover have "merge_segs n ys = (n, True) # ys" using False by (auto simp: merge_segs_def split: list.split bool.split)
  ultimately show ?thesis using P by simp
next
  case True
  then obtain m zs where ys: "ys = (m, True) # zs" by blast
  let ?x = "b + HEADER + n" and ?z = "b + HEADER + (n + (HEADER + m))"
  have b: "H b = \<lparr>hb_size = n, hb_free = True, hb_next = Some ?x, hb_prev = p\<rparr>"
    and x: "H ?x = \<lparr>hb_size = m, hb_free = True, hb_next = link e ?z, hb_prev = Some b\<rparr>"
    and zs: "part H e (Some ?x) ?z zs" and e': "?z + span zs = e"
    using P e ys by (auto simp: link_def add.assoc)
  have M: "merge_next b H = set_prev (link e ?z) (Some b) (H(b := \<lparr>hb_size = n + (HEADER + m), hb_free = True, hb_next = link e ?z, hb_prev = p\<rparr>))"
    using b x by (simp add: merge_next_def Let_def)
  have "part (merge_next b H) e (Some b) ?z zs = part (set_prev (link e ?z) (Some b) H) e (Some b) ?z zs"
    unfolding M by (rule part_cong) (auto simp: set_prev_apply HEADER_def dest!: blks_bounds)
  then have "part (merge_next b H) e (Some b) ?z zs" using set_prev_part [OF zs e'] by simp
  moreover have "merge_next b H b = \<lparr>hb_size = n + (HEADER + m), hb_free = True, hb_next = link e ?z, hb_prev = p\<rparr>"
    unfolding M by (auto simp: set_prev_apply HEADER_def)
  ultimately show ?thesis by (simp add: ys merge_segs_def)
qed

lemma merge_next_below:
  assumes "x + span xs \<le> b" "\<And>n. hb_next (H b) = Some n \<Longrightarrow> b < n \<and> (\<forall>k. hb_next (H n) = Some k \<longrightarrow> b < k)"
  shows "part (merge_next b H) e p x xs = part H e p x xs"
proof (rule part_cong)
  fix c n f assume "(c, n, f) \<in> set (blks x xs)"
  then have "c < b" using assms(1) by (auto simp: HEADER_def dest: blks_bounds)
  then show "merge_next b H c = H c"
    using assms(2) by (auto simp: merge_next_def Let_def set_prev_def split: option.splits)
qed

text \<open>Merging with the block before is merging that block with its next one.\<close>

lemma merge_prev_next:
  assumes "hb_prev (H b) = Some q" "hb_free (H q)" "hb_next (H q) = Some b" "hb_free (H b)"
  shows "merge_prev b H = merge_next q H"
  using assms by (simp add: merge_prev_def merge_next_def)

lemma part_next_above:
  assumes "part H e p b ((n, f) # ys)" "b + HEADER + n + span ys = e" "hb_next (H b) = Some k"
  shows "b < k \<and> (\<forall>j. hb_next (H k) = Some j \<longrightarrow> b < j)"
  using assms by (cases ys) (auto simp: link_def HEADER_def split: if_splits)

lemma merge_whole:
  assumes P: "part H e None a (xs @ (n, True) # ys)" and e: "a + span xs + HEADER + n + span ys = e"
  shows "part (merge_next (a + span xs) H) e None a (xs @ merge_segs n ys)"
proof -
  let ?b = "a + span xs"
  have Q: "part H e None a xs" "part H e (lastp None a xs) ?b ((n, True) # ys)" using P by (simp_all add: part_append)
  have "part (merge_next ?b H) e None a xs = part H e None a xs"
    by (rule merge_next_below) (use part_next_above [OF Q(2) e] in auto)
  then show ?thesis using Q(1) merge_next_part [OF Q(2) e] by (simp add: part_append)
qed

lemma release_part:
  assumes P: "part H e None a (xs @ (n, f) # ys)" and e: "a + span xs + HEADER + n + span ys = e"
  shows "part (merge_prev (a + span xs) (merge_next (a + span xs) (H(a + span xs := (H (a + span xs))\<lparr>hb_free := True\<rparr>))))
    e None a (seg_release xs n ys)"
proof -
  let ?b = "a + span xs"
  let ?H = "H(?b := (H ?b)\<lparr>hb_free := True\<rparr>)"
  have "part ?H e None a (xs @ (n, True) # ys)"
    using P by (auto simp: part_append part_upd HEADER_def)
  then have M: "part (merge_next ?b ?H) e None a (xs @ merge_segs n ys)" by (rule merge_whole [OF _ e])
  obtain k zs where kz: "merge_segs n ys = (k, True) # zs" using merge_segs_free by blast
  let ?M = "merge_next ?b ?H"
  have b: "hb_prev (?M ?b) = lastp None a xs" "hb_free (?M ?b)" using M kz by (auto simp: part_append)
  show ?thesis
  proof (cases "xs \<noteq> [] \<and> snd (last xs)")
    case True
    then obtain ws m where xs: "xs = ws @ [(m, True)]" by (metis append_butlast_last_id prod.exhaust_sel)
    let ?q = "a + span ws"
    have W: "part ?M e None a (ws @ (m, True) # merge_segs n ys)" using M xs by simp
    have q: "hb_next (?M ?q) = Some ?b" "hb_free (?M ?q)"
      using W e merge_segs_span [of n ys] by (auto simp: part_append link_def xs add.assoc)
    have "merge_prev ?b ?M = merge_next ?q ?M" by (rule merge_prev_next) (use b q xs in simp_all)
    moreover have "part (merge_next ?q ?M) e None a (ws @ merge_segs m (merge_segs n ys))"
      by (rule merge_whole [OF W]) (use e merge_segs_span [of n ys] in \<open>simp add: xs add.assoc\<close>)
    ultimately show ?thesis by (simp add: seg_release_def xs)
  next
    case False
    have "merge_prev ?b ?M = ?M"
    proof (cases "xs = []")
      case True
      then show ?thesis using b by (simp add: merge_prev_def)
    next
      case F: False
      then obtain ws m where xs: "xs = ws @ [(m, False)]" using False by (metis append_butlast_last_id prod.exhaust_sel)
      then have "\<not> hb_free (?M (a + span ws))" "hb_prev (?M ?b) = Some (a + span ws)"
        using M b(1) by (auto simp: part_append)
      then show ?thesis by (simp add: merge_prev_def)
    qed
    then show ?thesis using M False by (auto simp: seg_release_def)
  qed
qed

lemma seg_release_span: "span (seg_release xs n ys) = span xs + (HEADER + n) + span ys"
proof (cases "xs \<noteq> [] \<and> snd (last xs)")
  case True
  then obtain ws m where xs: "xs = ws @ [(m, True)]" by (metis append_butlast_last_id prod.exhaust_sel)
  then show ?thesis by (simp add: seg_release_def merge_segs_span)
qed (auto simp: seg_release_def merge_segs_span)

lemma free_Some:
  assumes r: "repr h (xs @ (n, f) # ys)"
  obtains h' where "kfree (Some (HEAP_START + span xs + HEADER)) h = Some h'" "repr h' (seg_release xs n ys)" "heap_end h' = heap_end h"
proof -
  let ?b = "HEAP_START + span xs"
  let ?h = "h\<lparr>blocks := merge_prev ?b (merge_next ?b ((blocks h)(?b := (blocks h ?b)\<lparr>hb_free := True\<rparr>)))\<rparr>"
  have e: "?b + HEADER + n + span ys = heap_end h" using reprD(2) [OF r] by simp
  have "seg_release xs n ys \<noteq> []" using seg_release_span [of xs n ys] by (metis HEADER_pos(1) add_gr_0 span_zero(2))
  then have r': "repr ?h (seg_release xs n ys)"
    using r release_part [OF reprD(1) [OF r] e] e unfolding repr_def by (simp add: seg_release_span add.assoc)
  moreover have "kfree (Some (?b + HEADER)) h = Some ?h"
    using verify_ok [OF r] verify_ok [OF r'] by (simp add: kfree_def Let_def)
  ultimately show thesis using that by simp
qed

definition seg_grow :: "nat \<Rightarrow> seg list \<Rightarrow> seg list" where
  "seg_grow k ss = (if snd (last ss) then butlast ss @ [(fst (last ss) + k, True)] else ss @ [(k - HEADER, True)])"

lemma grow_Some:
  assumes r: "repr h ss" and pages: "0 < pages"
  obtains h' where "grow_commit (heap_end h) pages h = Some (Growth (pages = HEAP_INITIAL_PAGES) h')"
    "repr h' (seg_grow (pages * PAGE) ss)" "heap_end h' = heap_end h + pages * PAGE"
proof -
  obtain xs n f where ss: "ss = xs @ [(n, f)]" using reprD(4) [OF r] by (metis append_butlast_last_id prod.exhaust_sel)
  let ?l = "HEAP_START + span xs" and ?e = "heap_end h" and ?k = "pages * PAGE" and ?H = "blocks h"
  let ?e' = "?e + ?k"
  have k: "HEADER < ?k" using pages by (cases pages) (auto simp: HEADER_def PAGE_def)
  have e: "?l + HEADER + n = ?e" using reprD(2) [OF r] ss by simp
  have P: "part ?H ?e None HEAP_START xs" "?H ?l = \<lparr>hb_size = n, hb_free = f, hb_next = None, hb_prev = lastp None HEAP_START xs\<rparr>"
    using reprD(1) [OF r] e by (simp_all add: ss part_append link_def)
  have xs: "part ?H ?e' None HEAP_START xs" using P(1) part_end [of HEAP_START xs ?e ?e' ?H None] e k by (simp add: HEADER_def)
  have last: "last_from ?H HEAP_START = Some ?l"
    by (rule last_walk [OF reprD(1) [OF r, unfolded ss] reprD(2) [OF r, unfolded ss]])
  let ?b1 = "?H(?l := (?H ?l)\<lparr>hb_size := n + ?k\<rparr>)"
  let ?b2 = "(?H(?e := \<lparr>hb_size = ?k - HEADER, hb_free = True, hb_next = None, hb_prev = Some ?l\<rparr>))
    (?l := \<lparr>hb_size = n, hb_free = f, hb_next = Some ?e, hb_prev = lastp None HEAP_START xs\<rparr>)"
  let ?h = "h\<lparr>heap_end := ?e', blocks := if f then ?b1 else ?b2\<rparr>"
  have "grow_commit ?e pages h = Some (Growth (pages = HEAP_INITIAL_PAGES) ?h)"
  proof (cases f)
    case True
    then show ?thesis using pages last reprD(6) [OF r] P(2) by (simp add: grow_commit_def Let_def)
  next
    case False
    have "?l \<noteq> ?e" using e by (simp add: HEADER_def)
    then show ?thesis using False pages last reprD(6) [OF r] P(2) by (simp add: grow_commit_def Let_def)
  qed
  moreover have "repr ?h (seg_grow ?k ss)"
  proof (cases f)
    case True
    have "part ?b1 ?e' None HEAP_START (xs @ [(n + ?k, True)])"
      using xs P(2) True e by (simp add: part_append part_upd link_def add.assoc)
    moreover have "HEAP_START + span (seg_grow ?k ss) = ?e'" using True e by (simp add: ss seg_grow_def)
    ultimately show ?thesis using True reprD(3,6) [OF r] by (intro reprI) (simp_all add: ss seg_grow_def)
  next
    case False
    have "part ?b2 ?e' None HEAP_START (xs @ [(n, False), (?k - HEADER, True)])"
      using xs P(2) False e k pages by (simp add: part_append part_upd link_def HEADER_def)
    moreover have "HEAP_START + span (seg_grow ?k ss) = ?e'" using False e k by (simp add: ss seg_grow_def)
    ultimately show ?thesis using False reprD(3,6) [OF r] by (intro reprI) (simp_all add: ss seg_grow_def)
  qed
  ultimately show thesis using that by simp
qed

subsection \<open>The invariant\<close>

definition used :: "addr \<Rightarrow> seg list \<Rightarrow> (addr \<times> nat) set" where
  "used a ss = {(b + HEADER, n) | b n. (b, n, False) \<in> set (blks a ss)}"

lemma used_simps [simp]:
  "used a [] = {}" "used a ((n, True) # ss) = used (a + HEADER + n) ss"
  "used a ((n, False) # ss) = insert (a + HEADER, n) (used (a + HEADER + n) ss)"
  "used a (xs @ ys) = used a xs \<union> used (a + span xs) ys"
  by (auto simp: used_def blks_append)

lemma used_bounds: "(p, m) \<in> used a ss \<Longrightarrow> a + HEADER \<le> p \<and> p + m \<le> a + span ss"
  by (auto simp: used_def dest: blks_bounds)

lemma used_merge: "used a (merge_segs n ys) = used (a + HEADER + n) ys"
  by (auto simp: merge_segs_def add.assoc split: list.split bool.split)

lemma used_take: "sz \<le> n \<Longrightarrow> \<exists>m\<ge>sz. used a (seg_take sz n) = {(a + HEADER, m)}"
  by (auto simp: seg_take_def)

lemma used_release: "used a (seg_release xs n ys) = used a xs \<union> used (a + span xs + HEADER + n) ys"
proof (cases "xs \<noteq> [] \<and> snd (last xs)")
  case True
  then obtain ws m where xs: "xs = ws @ [(m, True)]" by (metis append_butlast_last_id prod.exhaust_sel)
  then show ?thesis by (simp add: seg_release_def used_merge add.assoc)
qed (auto simp: seg_release_def used_merge)

lemma used_grow: "ss \<noteq> [] \<Longrightarrow> used a (seg_grow k ss) = used a ss"
proof (cases "snd (last ss)")
  case True
  assume "ss \<noteq> []"
  with True obtain xs n where "ss = xs @ [(n, True)]" by (metis append_butlast_last_id prod.exhaust_sel)
  then show ?thesis by (simp add: seg_grow_def)
qed (auto simp: seg_grow_def)

lemma used_apart:
  assumes "(b, n, f) \<in> set (blks a ss)" "(p, m) \<in> used a ss"
  shows "\<not> f \<and> p = b + HEADER \<and> m = n \<or> b + HEADER + n + HEADER \<le> p \<or> p + m \<le> b"
proof -
  obtain c where c: "p = c + HEADER" "(c, m, False) \<in> set (blks a ss)" using assms(2) by (auto simp: used_def)
  from blks_apart [OF assms(1) c(2)] show ?thesis by (auto simp: c(1))
qed

definition segs_ok :: "seg list \<Rightarrow> bool" where
  "segs_ok ss \<longleftrightarrow> (\<forall>(n, f)\<in>set ss. 16 dvd n) \<and> successively (\<lambda>x y. \<not> (snd x \<and> snd y)) ss"

definition owns :: "(addr \<rightharpoonup> nat) \<Rightarrow> seg list \<Rightarrow> bool" where
  "owns owned ss \<longleftrightarrow> dom owned = fst ` used HEAP_START ss \<and> (\<forall>(p, n)\<in>used HEAP_START ss. the (owned p) \<le> n)"

lemma take_segs_ok:
  assumes "segs_ok (xs @ (n, True) # ys)" "16 dvd sz" "sz \<le> n"
  shows "segs_ok (xs @ seg_take sz n @ ys)"
  using assms by (auto simp: segs_ok_def seg_take_def successively_append_iff successively_Cons HEADER_def)

lemma merge_segs_ok:
  assumes "segs_ok (xs @ (n, False) # ys)"
  obtains k zs where "merge_segs n ys = (k, True) # zs" "16 dvd k" "segs_ok (xs @ (0, False) # zs)" "zs = [] \<or> \<not> snd (hd zs)"
proof (cases "\<exists>m zs. ys = (m, True) # zs")
  case True
  then obtain m zs where ys: "ys = (m, True) # zs" by blast
  show thesis
    by (rule that [of "n + (HEADER + m)" zs])
      (use assms in \<open>auto simp: ys merge_segs_def segs_ok_def successively_append_iff successively_Cons HEADER_def\<close>)
next
  case False
  then have "merge_segs n ys = (n, True) # ys" "ys = [] \<or> \<not> snd (hd ys)"
    by (auto simp: merge_segs_def neq_Nil_conv split: list.split bool.split)
  then show thesis using that [of n ys] assms by (auto simp: segs_ok_def successively_append_iff successively_Cons)
qed

lemma release_segs_ok:
  assumes "segs_ok (xs @ (n, False) # ys)"
  shows "segs_ok (seg_release xs n ys)"
proof -
  obtain k zs where kz: "merge_segs n ys = (k, True) # zs" "16 dvd k" "segs_ok (xs @ (0, False) # zs)" "zs = [] \<or> \<not> snd (hd zs)"
    using assms by (rule merge_segs_ok)
  show ?thesis
  proof (cases "xs \<noteq> [] \<and> snd (last xs)")
    case True
    then obtain ws m where xs: "xs = ws @ [(m, True)]" by (metis append_butlast_last_id prod.exhaust_sel)
    have "seg_release xs n ys = ws @ (m + (HEADER + k), True) # zs"
      unfolding seg_release_def kz(1) by (simp add: xs merge_segs_def)
    then show ?thesis using kz(2-) by (auto simp: xs segs_ok_def successively_append_iff successively_Cons HEADER_def)
  next
    case False
    then have "seg_release xs n ys = xs @ (k, True) # zs" unfolding seg_release_def kz(1) by auto
    then show ?thesis using kz(2-) False by (auto simp: segs_ok_def successively_append_iff successively_Cons)
  qed
qed

lemma grow_segs_ok:
  assumes "segs_ok ss" "ss \<noteq> []" "16 dvd k" "HEADER < k"
  shows "segs_ok (seg_grow k ss)"
proof -
  obtain xs n f where ss: "ss = xs @ [(n, f)]" using assms(2) by (metis append_butlast_last_id prod.exhaust_sel)
  then show ?thesis
    using assms by (cases f) (auto simp: seg_grow_def segs_ok_def successively_append_iff successively_Cons HEADER_def)
qed

lemma round_size_dvd: "16 dvd round_size sz"
proof -
  have "\<not> bit ((sz + 15) AND NOT 15) i" if "i < 4" for i
  proof -
    have "i = 0 \<or> i = 1 \<or> i = 2 \<or> i = 3" using that by auto
    then have "bit (15 :: u64) i" by (elim disjE) simp_all
    then show ?thesis by (simp only: bit_and_iff bit_not_iff) simp
  qed
  then have "take_bit 4 ((sz + 15) AND NOT 15) = 0" by (auto simp: bit_eq_iff bit_take_bit_iff)
  then have "take_bit 4 (unat ((sz + 15) AND NOT 15)) = 0" by (metis unsigned_0 unsigned_take_bit_eq)
  then show ?thesis by (simp add: round_size_def take_bit_eq_mod dvd_eq_mod_eq_0)
qed

subsection \<open>Runs\<close>

text \<open>
  A run of the heap: the pointers handed out and not yet given back with the size granted, the end the
  holder of the growth lock read before it maps pages, and owners that write what they like into the bytes
  granted to them, overwriting whatever header would lie there.
\<close>

type_synonym heap_state = "heap \<times> (addr \<rightharpoonup> nat) \<times> addr option"

inductive heap_step :: "heap_state \<Rightarrow> heap_state \<Rightarrow> bool" where
  heap_malloc: "kmalloc_attempt (round_size sz) h = Some (r, h') \<Longrightarrow>
    heap_step (h, owned, g) (h', case r of None \<Rightarrow> owned | Some p \<Rightarrow> owned(p \<mapsto> round_size sz), g)"
| heap_free: "owned p \<noteq> None \<Longrightarrow> kfree (Some p) h = Some h' \<Longrightarrow> heap_step (h, owned, g) (h', owned(p := None), g)"
| heap_reserve: "grow_room h \<Longrightarrow> heap_step (h, owned, None) (h, owned, Some (heap_end h))"
| heap_commit: "pages \<le> HEAP_INITIAL_PAGES \<Longrightarrow> grow_commit old_end pages h = Some (Growth c h') \<Longrightarrow>
    heap_step (h, owned, Some old_end) (h', owned, None)"
| heap_write: "owned p = Some n \<Longrightarrow> (\<And>b. b + HEADER \<le> p \<or> p + n \<le> b \<Longrightarrow> H b = blocks h b) \<Longrightarrow>
    heap_step (h, owned, g) (h\<lparr>blocks := H\<rparr>, owned, g)"

definition heap_start :: "heap_state \<Rightarrow> bool" where
  "heap_start s \<longleftrightarrow> (\<exists>h0. s = (heap_init True h0, Map.empty, None))"

definition heap_good :: "heap \<Rightarrow> (addr \<rightharpoonup> nat) \<Rightarrow> seg list \<Rightarrow> bool" where
  "heap_good h owned ss \<longleftrightarrow> repr h ss \<and> segs_ok ss \<and> owns owned ss \<and> heap_end h \<le> HEAP_LIMIT"

fun heap_inv :: "heap_state \<Rightarrow> bool" where
  "heap_inv (h, owned, g) \<longleftrightarrow> (\<exists>ss. heap_good h owned ss) \<and>
     (case g of None \<Rightarrow> True | Some e \<Rightarrow> e = heap_end h \<and> grow_room h)"

lemma heap_goodD:
  assumes "heap_good h owned ss"
  shows "repr h ss" "segs_ok ss" "owns owned ss" "heap_end h \<le> HEAP_LIMIT"
  using assms by (auto simp: heap_good_def)

lemma owned_block:
  assumes "owns owned ss" "owned p = Some n"
  obtains xs m ys where "ss = xs @ (m, False) # ys" "p = HEAP_START + span xs + HEADER" "n \<le> m" "(p, m) \<in> used HEAP_START ss"
proof -
  have "p \<in> fst ` used HEAP_START ss" using assms by (auto simp: owns_def)
  then obtain m where m: "(p, m) \<in> used HEAP_START ss" by auto
  then obtain b where b: "p = b + HEADER" "(b, m, False) \<in> set (blks HEAP_START ss)" by (auto simp: used_def)
  from b(2) obtain xs ys where "ss = xs @ (m, False) # ys" "b = HEAP_START + span xs" by (rule blks_split)
  moreover have "n \<le> m" using assms m by (auto simp: owns_def)
  ultimately show thesis using that b(1) m by blast
qed

lemma attempt_good:
  assumes G: "heap_good h owned ss" and sz: "16 dvd sz"
  obtains r h' where "kmalloc_attempt sz h = Some (r, h')" "heap_end h' = heap_end h"
    "\<exists>ss'. heap_good h' (case r of None \<Rightarrow> owned | Some p \<Rightarrow> owned(p \<mapsto> sz)) ss'" "r = None \<Longrightarrow> h' = h"
    "r = None \<longleftrightarrow> seg_find sz HEAP_START ss = None"
proof (cases "seg_find sz HEAP_START ss")
  case None
  then show thesis using that [of None h] attempt_None heap_goodD(1) [OF G] G by auto
next
  case (Some c)
  then obtain xs n ys where ss: "ss = xs @ (n, True) # ys" "sz \<le> n" "c = HEAP_START + span xs"
    using seg_find_Some by blast
  have r: "repr h (xs @ (n, True) # ys)" using heap_goodD(1) [OF G] ss by simp
  from attempt_Some [OF r ss(2)] Some ss obtain h' where h':
      "kmalloc_attempt sz h = Some (Some (c + HEADER), h')" "repr h' (xs @ seg_take sz n @ ys)" "heap_end h' = heap_end h"
    by blast
  obtain m where m: "m \<ge> sz" "used c (seg_take sz n) = {(c + HEADER, m)}" using used_take [OF ss(2)] by blast
  have "(c, n, True) \<in> set (blks HEAP_START ss)" by (simp add: ss blks_append)
  then have fresh: "c + HEADER \<notin> fst ` used HEAP_START ss" using used_apart by (fastforce simp: HEADER_def)
  have u: "used HEAP_START (xs @ seg_take sz n @ ys) = insert (c + HEADER, m) (used HEAP_START ss)"
    using m(2) ss by (auto simp: seg_take_span add.assoc)
  have "owns (owned(c + HEADER \<mapsto> sz)) (xs @ seg_take sz n @ ys)"
    unfolding owns_def u using heap_goodD(3) [OF G] fresh m(1) by (force simp: owns_def)
  then have "heap_good h' (owned(c + HEADER \<mapsto> sz)) (xs @ seg_take sz n @ ys)"
    using h' take_segs_ok [OF _ sz ss(2)] heap_goodD(2,4) [OF G] ss(1) by (simp add: heap_good_def)
  then show thesis using that [of "Some (c + HEADER)" h'] h' Some by auto
qed

lemma free_good:
  assumes G: "heap_good h owned ss" and p: "owned p \<noteq> None"
  obtains h' ss' where "kfree (Some p) h = Some h'" "heap_end h' = heap_end h" "heap_good h' (owned(p := None)) ss'"
proof -
  obtain xs n ys where ss: "ss = xs @ (n, False) # ys" "p = HEAP_START + span xs + HEADER"
    using owned_block [OF heap_goodD(3) [OF G]] p by blast
  have r: "repr h (xs @ (n, False) # ys)" using heap_goodD(1) [OF G] ss by simp
  obtain h' where h': "kfree (Some p) h = Some h'" "repr h' (seg_release xs n ys)" "heap_end h' = heap_end h"
    using free_Some [OF r] ss(2) by metis
  have u: "used HEAP_START ss = insert (p, n) (used HEAP_START (seg_release xs n ys))"
    by (auto simp: ss used_release add.assoc)
  have "p \<notin> fst ` used HEAP_START (seg_release xs n ys)"
    unfolding used_release by (auto simp: ss(2) HEADER_def dest!: used_bounds)
  then have "owns (owned(p := None)) (seg_release xs n ys)"
    using heap_goodD(3) [OF G] unfolding owns_def u by (force simp: image_iff)
  then show thesis using that h' release_segs_ok [of xs n ys] heap_goodD(2,4) [OF G] ss(1) by (auto simp: heap_good_def)
qed

lemma commit_good:
  assumes G: "heap_good h owned ss" and room: "grow_room h" and pages: "pages \<le> HEAP_INITIAL_PAGES"
  obtains h' ss' where "grow_commit (heap_end h) pages h = Some (Growth (pages = HEAP_INITIAL_PAGES) h')"
    "heap_good h' owned ss'" "heap_end h' = heap_end h + pages * PAGE"
proof (cases "pages = 0")
  case True
  have "h\<lparr>heap_end := heap_end h\<rparr> = h" by simp
  then show thesis using that [of h ss] True G by (simp add: grow_commit_def Let_def HEAP_INITIAL_PAGES_def)
next
  case False
  then obtain h' where h': "grow_commit (heap_end h) pages h = Some (Growth (pages = HEAP_INITIAL_PAGES) h')"
    "repr h' (seg_grow (pages * PAGE) ss)" "heap_end h' = heap_end h + pages * PAGE"
    using grow_Some [OF heap_goodD(1) [OF G]] by blast
  have ne: "ss \<noteq> []" by (rule reprD(4) [OF heap_goodD(1) [OF G]])
  have k: "16 dvd pages * PAGE" "HEADER < pages * PAGE" using False by (cases pages; simp add: PAGE_def HEADER_def)+
  have "heap_end h' \<le> HEAP_LIMIT"
    using room pages unfolding h'(3) by (simp add: grow_room_def HEAP_INITIAL_PAGES_def PAGE_def HEAP_LIMIT_def)
  then have "heap_good h' owned (seg_grow (pages * PAGE) ss)"
    using h'(2) grow_segs_ok [OF heap_goodD(2) [OF G] ne k] heap_goodD(3) [OF G] used_grow [OF ne]
    by (simp add: heap_good_def owns_def)
  then show thesis using that h' by blast
qed

lemma write_good:
  assumes G: "heap_good h owned ss" and p: "owned p = Some n" and H: "\<And>b. b + HEADER \<le> p \<or> p + n \<le> b \<Longrightarrow> H b = blocks h b"
  shows "heap_good (h\<lparr>blocks := H\<rparr>) owned ss"
proof -
  obtain m where m: "n \<le> m" "(p, m) \<in> used HEAP_START ss" using owned_block [OF heap_goodD(3) [OF G] p] by metis
  have "H b = blocks h b" if "(b, k, f) \<in> set (blks HEAP_START ss)" for b k f
    by (rule H) (use used_apart [OF that m(2)] m(1) in auto)
  then have "part H (heap_end h) None HEAP_START ss = part (blocks h) (heap_end h) None HEAP_START ss" by (rule part_cong)
  then have "repr (h\<lparr>blocks := H\<rparr>) ss" using reprD [OF heap_goodD(1) [OF G]] by (intro reprI) simp_all
  then show ?thesis using G by (simp add: heap_good_def)
qed

lemma init_good: "heap_good (heap_init True h0) Map.empty [(HEAP_INITIAL_PAGES * PAGE - HEADER, True)]"
  by (simp add: heap_good_def repr_def heap_init_def segs_ok_def owns_def link_def HEADER_def PAGE_def HEAP_INITIAL_PAGES_def
    HEAP_START_def HEAP_LIMIT_def)

lemma heap_inv_same_end:
  assumes "heap_inv (h, owned, g)" "heap_end h' = heap_end h" "heap_good h' owned' ss"
  shows "heap_inv (h', owned', g)"
  using assms by (cases g) (auto simp: grow_room_def)

lemma heap_step_inv:
  assumes inv: "heap_inv s" and step: "heap_step s t"
  shows "heap_inv t"
  using step
proof cases
  case (heap_malloc sz h r h' owned g)
  then obtain ss where "heap_good h owned ss" using inv by auto
  from attempt_good [OF this round_size_dvd, of sz] obtain r' h'' ss' where
      "kmalloc_attempt (round_size sz) h = Some (r', h'')" "heap_end h'' = heap_end h"
      "heap_good h'' (case r' of None \<Rightarrow> owned | Some p \<Rightarrow> owned(p \<mapsto> round_size sz)) ss'" by metis
  then show ?thesis using heap_malloc inv heap_inv_same_end [of h owned g h'] by simp
next
  case (heap_free owned p h h' g)
  then obtain ss where "heap_good h owned ss" using inv by auto
  from free_good [OF this heap_free(3)] obtain h'' ss' where
    "kfree (Some p) h = Some h''" "heap_end h'' = heap_end h" "heap_good h'' (owned(p := None)) ss'" by metis
  then show ?thesis using heap_free inv heap_inv_same_end [of h owned g h'] by simp
next
  case (heap_commit pages old_end h c h' owned)
  then obtain ss where G: "heap_good h owned ss" and room: "grow_room h" "old_end = heap_end h" using inv by auto
  from commit_good [OF G room(1) heap_commit(3)] obtain h'' ss' where
    "grow_commit (heap_end h) pages h = Some (Growth (pages = HEAP_INITIAL_PAGES) h'')" "heap_good h'' owned ss'" by metis
  then show ?thesis using heap_commit room(2) by auto
next
  case (heap_write owned p n H h g)
  then obtain ss where "heap_good h owned ss" using inv by auto
  from write_good [OF this heap_write(3,4)] have "heap_good (h\<lparr>blocks := H\<rparr>) owned ss" .
  then show ?thesis using heap_write inv heap_inv_same_end [of h owned g "h\<lparr>blocks := H\<rparr>"] by simp
qed (use inv in auto)

interpretation heaps: inductive_invariant heap_start heap_step heap_inv
proof
  show "heap_inv s" if s: "heap_start s" for s
  proof -
    obtain h0 where "s = (heap_init True h0, Map.empty, None)" using s unfolding heap_start_def ..
    moreover have "\<exists>ss. heap_good (heap_init True h0) Map.empty ss" using init_good by blast
    ultimately show ?thesis by simp
  qed
qed (rule heap_step_inv)

text \<open>The loop of \<open>kmalloc\<close>: every round that does not return has grown the heap towards its limit.\<close>

lemma kmalloc_loop_returns:
  assumes "heap_good h owned ss" "16 dvd sz"
  shows "\<exists>r h'. kmalloc_loop src i sz h = Some (r, h') \<and>
    (\<exists>ss'. heap_good h' (case r of None \<Rightarrow> owned | Some p \<Rightarrow> owned(p \<mapsto> sz)) ss')"
  using assms
proof (induction "HEAP_LIMIT - heap_end h" arbitrary: h ss i rule: less_induct)
  case less
  from attempt_good [OF less.prems] obtain r h1 ss1 where A: "kmalloc_attempt sz h = Some (r, h1)"
      "heap_good h1 (case r of None \<Rightarrow> owned | Some p \<Rightarrow> owned(p \<mapsto> sz)) ss1" "r = None \<Longrightarrow> h1 = h"
      "r = None \<longleftrightarrow> seg_find sz HEAP_START ss = None"
    by metis
  show ?case
  proof (cases "r = None \<and> (\<exists>n. src i = Frames n) \<and> grow_room h")
    case False
    have "find_from (blocks h) sz (heap_first h) = Some None" if "r = None"
      using find_ok [OF heap_goodD(1) [OF less.prems(1)]] A(4) that by simp
    then show ?thesis using False A by (subst kmalloc_loop.simps) (auto split: option.splits frame_supply.splits)
  next
    case True
    then obtain n where n: "src i = Frames n" and room: "grow_room h" and r: "r = None" "h1 = h" using A(3) by blast
    have f: "find_from (blocks h) sz (heap_first h) = Some None"
      using find_ok [OF heap_goodD(1) [OF less.prems(1)]] A(4) r by simp
    let ?k = "min n HEAP_INITIAL_PAGES"
    obtain h2 ss2 where g: "grow_commit (heap_end h) ?k h = Some (Growth (?k = HEAP_INITIAL_PAGES) h2)"
        "heap_good h2 owned ss2" "heap_end h2 = heap_end h + ?k * PAGE"
      using commit_good [OF less.prems(1) room, of ?k] by (metis min.cobounded2)
    have u: "kmalloc_loop src i sz h = (if ?k = HEAP_INITIAL_PAGES then kmalloc_loop src (i + 1) sz h2 else Some (None, h2))"
      using A(1) r n f g(1) room by (subst kmalloc_loop.simps) simp
    show ?thesis
    proof (cases "?k = HEAP_INITIAL_PAGES")
      case True
      have "HEAP_LIMIT - heap_end h2 < HEAP_LIMIT - heap_end h"
        using True g(3) room by (simp add: grow_room_def HEAP_INITIAL_PAGES_def PAGE_def HEAP_LIMIT_def)
      from less.hyps [OF this g(2) less.prems(2)] show ?thesis using u True by simp
    next
      case False
      then show ?thesis using u g(2) by auto
    qed
  qed
qed

lemma span_dvd: "segs_ok ss \<Longrightarrow> 16 dvd span ss"
  by (induction ss) (auto simp: segs_ok_def HEADER_def successively_Cons)

text \<open>For the instances below: a heap after one request of 100 bytes, and after its release.\<close>

lemma demo_heap:
  obtains h where "reach heap_start heap_step (h, [HEAP_START + HEADER \<mapsto> 112], None)"
proof -
  let ?h = "heap_init True undefined" and ?n = "HEAP_INITIAL_PAGES * PAGE - HEADER"
  have z: "round_size 100 = 112" by (simp add: round_size_def)
  have r: "reach heap_start heap_step (?h, Map.empty, None)" by (rule reach_start) (auto simp: heap_start_def)
  obtain h where "kmalloc_attempt 112 ?h = Some (Some (HEAP_START + HEADER), h)"
    using attempt_Some [of ?h "[]" ?n "[]" 112] heap_goodD(1) [OF init_good]
    by (auto simp: HEADER_def PAGE_def HEAP_INITIAL_PAGES_def)
  then have "heap_step (?h, Map.empty, None) (h, [HEAP_START + HEADER \<mapsto> 112], None)"
    using heap_malloc [of 100 ?h _ h Map.empty None] by (fastforce simp: z)
  from reach_step [OF r this] show thesis by (rule that)
qed

lemma demo_heap_freed:
  obtains h where "reach heap_start heap_step (h, Map.empty, None)"
    "\<exists>h0. reach heap_start heap_step (h0, [HEAP_START + HEADER \<mapsto> 112], None) \<and> kfree (Some (HEAP_START + HEADER)) h0 = Some h"
proof -
  obtain h where h: "reach heap_start heap_step (h, [HEAP_START + HEADER \<mapsto> 112], None)" by (rule demo_heap)
  obtain ss where G: "heap_good h [HEAP_START + HEADER \<mapsto> 112] ss" using heaps.reach_inv [OF h] by auto
  obtain h' where h': "kfree (Some (HEAP_START + HEADER)) h = Some h'" using free_good [OF G, of "HEAP_START + HEADER"] by auto
  have "heap_step (h, [HEAP_START + HEADER \<mapsto> 112], None) (h', Map.empty, None)"
    using heap_free [of "[HEAP_START + HEADER \<mapsto> 112]" "HEAP_START + HEADER" h h' None] h' by (simp add: fun_upd_def cong: if_cong)
  from reach_step [OF h this] show thesis using that h h' by blast
qed

text \<open>C25. In every run of the heap, over all interleavings of its critical sections and whatever the owners
  write into the bytes granted to them, the self-check succeeds, every live allocation is 16-byte aligned
  and lies inside the heap, and two live allocations never overlap: a block header is always between them.\<close>

theorem heap_allocations_disjoint:
  assumes "reach heap_start heap_step (h, owned, g)"
  shows "heap_verify h = Some True \<and>
    (\<forall>p n. owned p = Some n \<longrightarrow> 16 dvd p \<and> HEAP_START + HEADER \<le> p \<and> p + n \<le> heap_end h \<and> heap_end h \<le> HEAP_LIMIT) \<and>
    (\<forall>p n q m. owned p = Some n \<and> owned q = Some m \<and> p < q \<longrightarrow> p + n + HEADER \<le> q)"
proof -
  obtain ss where G: "heap_good h owned ss" using heaps.reach_inv [OF assms] by auto
  note D = heap_goodD [OF G]
  have "16 dvd p \<and> HEAP_START + HEADER \<le> p \<and> p + n \<le> heap_end h" if p: "owned p = Some n" for p n
  proof -
    obtain xs m ys where b: "ss = xs @ (m, False) # ys" "p = HEAP_START + span xs + HEADER" "n \<le> m"
      using owned_block [OF D(3) p] by metis
    have "16 dvd span xs" using D(2) b(1) by (intro span_dvd) (auto simp: segs_ok_def successively_append_iff)
    moreover have "p + m \<le> heap_end h" using reprD(2) [OF D(1)] b by simp
    ultimately show ?thesis using b by (simp add: HEADER_def HEAP_START_def)
  qed
  moreover have "p + n + HEADER \<le> q" if pq: "owned p = Some n" "owned q = Some m" "p < q" for p n q m
  proof -
    obtain k where k: "(p, k) \<in> used HEAP_START ss" "n \<le> k" using owned_block [OF D(3) pq(1)] by metis
    obtain j where j: "(q, j) \<in> used HEAP_START ss" using owned_block [OF D(3) pq(2)] by metis
    obtain b where b: "p = b + HEADER" "(b, k, False) \<in> set (blks HEAP_START ss)" using k(1) by (auto simp: used_def)
    from used_apart [OF b(2) j] show ?thesis using b(1) k(2) pq(3) by auto
  qed
  ultimately show ?thesis using verify_ok [OF D(1)] D(4) by blast
qed

theorem heap_allocations_disjoint_witness:
  "\<exists>h. reach heap_start heap_step (h, [HEAP_START + HEADER \<mapsto> 112], None) \<and> heap_verify h = Some True \<and>
     HEAP_START + HEADER + 112 \<le> heap_end h"
proof -
  obtain h where h: "reach heap_start heap_step (h, [HEAP_START + HEADER \<mapsto> 112], None)" by (rule demo_heap)
  from heap_allocations_disjoint [OF h] h show ?thesis by auto
qed

text \<open>C26. \<open>kmalloc\<close> and \<open>kfree\<close> return in every reachable state: the walks over the links end, and the
  loop of \<open>kmalloc\<close> ends whatever the physical allocator and the page tables deliver in each round,
  because a round that does not return has grown the heap towards its limit; and both leave a
  heap that passes the self-check.\<close>

theorem heap_operations_return:
  assumes "reach heap_start heap_step (h, owned, g)"
  shows "(\<exists>r h'. kmalloc src sz h = Some (r, h') \<and> heap_verify h' = Some True) \<and>
    (\<forall>p\<in>dom owned. \<exists>h'. kfree (Some p) h = Some h' \<and> heap_verify h' = Some True)"
proof -
  obtain ss where G: "heap_good h owned ss" using heaps.reach_inv [OF assms] by auto
  have "\<exists>r h'. kmalloc src sz h = Some (r, h') \<and> heap_verify h' = Some True"
    using kmalloc_loop_returns [OF G round_size_dvd, of src 0 sz] heap_goodD(1) verify_ok unfolding kmalloc_def by metis
  moreover have "\<exists>h'. kfree (Some p) h = Some h' \<and> heap_verify h' = Some True" if "p \<in> dom owned" for p
    using free_good [OF G, of p] that heap_goodD(1) verify_ok by (metis domIff)
  ultimately show ?thesis by blast
qed

theorem heap_operations_return_witness:
  "\<exists>h r h'. reach heap_start heap_step (h, [HEAP_START + HEADER \<mapsto> 112], None) \<and>
     kmalloc (\<lambda>_. Frames 4) 0x100000 h = Some (r, h') \<and> heap_verify h' = Some True"
proof -
  obtain h where h: "reach heap_start heap_step (h, [HEAP_START + HEADER \<mapsto> 112], None)" by (rule demo_heap)
  from heap_operations_return [OF h, of "\<lambda>_. Frames 4" "0x100000"] h show ?thesis by blast
qed

text \<open>C27. When everything has been given back the heap is one free block again, as large as the heap: release
  merges a block with both neighbours, so no fragmentation survives its allocations.\<close>

theorem heap_coalesces:
  assumes "reach heap_start heap_step (h, Map.empty, g)"
  shows "blocks h HEAP_START = \<lparr>hb_size = heap_end h - HEAP_START - HEADER, hb_free = True, hb_next = None, hb_prev = None\<rparr>"
proof -
  obtain ss where G: "heap_good h Map.empty ss" using heaps.reach_inv [OF assms] by auto
  note D = heap_goodD [OF G]
  have free: "f" if "(n, f) \<in> set ss" for n f
  proof (rule ccontr)
    assume "\<not> f"
    obtain xs ys where "ss = xs @ (n, f) # ys" using \<open>(n, f) \<in> set ss\<close> by (meson split_list)
    then have "used HEAP_START ss \<noteq> {}" using \<open>\<not> f\<close> by auto
    then show False using D(3) by (simp add: owns_def)
  qed
  obtain n f zs where ss: "ss = (n, f) # zs" using reprD(4) [OF D(1)] by (metis neq_Nil_conv prod.exhaust)
  have "zs = []"
  proof (rule ccontr)
    assume "zs \<noteq> []"
    then obtain m g' ws where "zs = (m, g') # ws" by (metis neq_Nil_conv prod.exhaust)
    then show False using free D(2) ss by (auto simp: segs_ok_def)
  qed
  then show ?thesis using reprD(1,2) [OF D(1)] free [of n f] ss by (simp add: link_def)
qed

theorem heap_coalesces_witness:
  "\<exists>h0 h. reach heap_start heap_step (h0, [HEAP_START + HEADER \<mapsto> 112], None) \<and>
     kfree (Some (HEAP_START + HEADER)) h0 = Some h \<and> hb_next (blocks h HEAP_START) = None"
proof -
  obtain h where h: "reach heap_start heap_step (h, Map.empty, None)"
    "\<exists>h0. reach heap_start heap_step (h0, [HEAP_START + HEADER \<mapsto> 112], None) \<and> kfree (Some (HEAP_START + HEADER)) h0 = Some h"
    by (rule demo_heap_freed)
  from heap_coalesces [OF h(1)] h(2) show ?thesis by auto
qed


end
