(* ===== verification/Mutex.thy ===== *)
theory Mutex
  imports Scheduler_Wake
begin

section \<open>Sleeping mutexes\<close>

text \<open>
  \<^verbatim>\<open>kernel/src/mutex.c\<close>. A mutex has an owner and a chain of waiting threads linked through their control
  blocks; unlocking hands the ownership to a waiter before it wakes it. Every operation runs under the
  mutex's state lock and is one transition; a thread that waits is inside the loop of \<open>mutex_lock\<close>
  between two such transitions, with the scheduler's block operation between them. A walk along the chain
  that never ends is the value \<open>None\<close>; that every walk ends is proved.
\<close>

subsection \<open>State\<close>

record mutex =
  m_owner :: ptr
  wait_head :: ptr
  wait_tail :: ptr

record locks =
  lk_sched :: scheduler
  mutexes :: "addr \<Rightarrow> mutex"

definition upd_mutex :: "addr \<Rightarrow> (mutex \<Rightarrow> mutex) \<Rightarrow> locks \<Rightarrow> locks" where
  "upd_mutex m f k = k\<lparr>mutexes := (mutexes k)(m := f (mutexes k m))\<rparr>"

definition upd_waiter :: "addr \<Rightarrow> (kernel_thread \<Rightarrow> kernel_thread) \<Rightarrow> locks \<Rightarrow> locks" where
  "upd_waiter t f k = k\<lparr>lk_sched := upd_thread t f (lk_sched k)\<rparr>"

abbreviation thread_of :: "locks \<Rightarrow> addr \<Rightarrow> kernel_thread" where "thread_of k t \<equiv> threads (lk_sched k) t"

definition wnext :: "locks \<Rightarrow> addr \<Rightarrow> ptr" where "wnext k t = mutex_wait_next (thread_of k t)"
definition waits :: "locks \<Rightarrow> addr \<Rightarrow> ptr" where "waits k t = waiting_mutex (thread_of k t)"

subsection \<open>The wait chain\<close>

partial_function (option) wait_find :: "(addr \<Rightarrow> ptr) \<Rightarrow> addr \<Rightarrow> ptr \<Rightarrow> ptr \<Rightarrow> (ptr \<times> ptr) option" where
  "wait_find nx t previous cursor =
     (if cursor = None \<or> cursor = Some t then Some (previous, cursor) else wait_find nx t cursor (nx (the cursor)))"

definition wait_unlink :: "addr \<Rightarrow> ptr \<Rightarrow> addr \<Rightarrow> locks \<Rightarrow> locks" where
  "wait_unlink m previous cursor k = (let nxt = wnext k cursor;
      k1 = (case previous of Some p \<Rightarrow> upd_waiter p (\<lambda>x. x\<lparr>mutex_wait_next := nxt\<rparr>) k
        | None \<Rightarrow> upd_mutex m (\<lambda>x. x\<lparr>wait_head := nxt\<rparr>) k);
      k2 = (if wait_tail (mutexes k1 m) = Some cursor then upd_mutex m (\<lambda>x. x\<lparr>wait_tail := previous\<rparr>) k1 else k1)
    in upd_waiter cursor (\<lambda>x. x\<lparr>mutex_wait_next := None\<rparr>) k2)"

definition mutex_waiter_remove_locked :: "addr \<Rightarrow> addr \<Rightarrow> locks \<Rightarrow> locks option" where
  "mutex_waiter_remove_locked m t k = (case wait_find (wnext k) t None (wait_head (mutexes k m)) of
       None \<Rightarrow> None | Some (_, None) \<Rightarrow> Some k | Some (previous, Some cursor) \<Rightarrow> Some (wait_unlink m previous cursor k))"

definition mutex_waiter_append_locked :: "addr \<Rightarrow> addr \<Rightarrow> locks \<Rightarrow> locks" where
  "mutex_waiter_append_locked m t k = (let k1 = upd_waiter t (\<lambda>x. x\<lparr>mutex_wait_next := None\<rparr>) k;
      k2 = (case wait_tail (mutexes k1 m) of Some l \<Rightarrow> upd_waiter l (\<lambda>x. x\<lparr>mutex_wait_next := Some t\<rparr>) k1
        | None \<Rightarrow> upd_mutex m (\<lambda>x. x\<lparr>wait_head := Some t\<rparr>) k1)
    in upd_mutex m (\<lambda>x. x\<lparr>wait_tail := Some t\<rparr>) k2)"

definition wait_pop :: "addr \<Rightarrow> addr \<Rightarrow> locks \<Rightarrow> locks" where
  "wait_pop m w k = (let k1 = upd_mutex m (\<lambda>x. x\<lparr>wait_head := wnext k w\<rparr>) k;
      k2 = (if wait_tail (mutexes k1 m) = Some w then upd_mutex m (\<lambda>x. x\<lparr>wait_tail := None\<rparr>) k1 else k1)
    in upd_waiter w (\<lambda>x. x\<lparr>mutex_wait_next := None\<rparr>) k2)"

partial_function (option) mutex_handoff_locked :: "nat \<Rightarrow> addr \<Rightarrow> locks \<Rightarrow> (bool \<times> locks) option" where
  "mutex_handoff_locked c m k = (case wait_head (mutexes k m) of None \<Rightarrow> Some (False, k) | Some w \<Rightarrow>
     let k1 = wait_pop m w k in
     if waits k1 w \<noteq> Some m then mutex_handoff_locked c m k1
     else if t_state (thread_of k1 w) = THREAD_STATE_RUNNING
     then Some (True, upd_waiter w (\<lambda>x. x\<lparr>mutex_wake_pending := True\<rparr>) (upd_mutex m (\<lambda>x. x\<lparr>m_owner := Some w\<rparr>) k1))
     else if t_state (thread_of k1 w) \<noteq> THREAD_STATE_BLOCKED
     then mutex_handoff_locked c m (upd_waiter w (\<lambda>x. x\<lparr>waiting_mutex := None\<rparr>) k1)
     else let k2 = upd_mutex m (\<lambda>x. x\<lparr>m_owner := Some w\<rparr>) k1; r = scheduler_unblock c (lk_sched k2) (Some w);
              k3 = k2\<lparr>lk_sched := snd r\<rparr>
       in if fst r then Some (True, k3)
          else mutex_handoff_locked c m (upd_waiter w (\<lambda>x. x\<lparr>waiting_mutex := None\<rparr>) (upd_mutex m (\<lambda>x. x\<lparr>m_owner := None\<rparr>) k3)))"

subsection \<open>Operations\<close>

definition mutex_init :: "addr \<Rightarrow> locks \<Rightarrow> locks" where
  "mutex_init m = upd_mutex m (\<lambda>_. \<lparr>m_owner = None, wait_head = None, wait_tail = None\<rparr>)"

definition mutex_try_lock :: "addr \<Rightarrow> addr \<Rightarrow> locks \<Rightarrow> bool \<times> locks" where
  "mutex_try_lock m self k = (if m_owner (mutexes k m) = None then (True, upd_mutex m (\<lambda>x. x\<lparr>m_owner := Some self\<rparr>) k) else (False, k))"

text \<open>One round of \<open>mutex_lock\<close> up to the call of the scheduler, and what follows a refused block.\<close>

datatype lock_outcome = Locked | Refused | Must_block

definition mutex_lock_round :: "addr \<Rightarrow> addr \<Rightarrow> locks \<Rightarrow> (lock_outcome \<times> locks) option" where
  "mutex_lock_round m self k =
     (if m_owner (mutexes k m) = None then
        (case (if waits k self = Some m
               then map_option (upd_waiter self (\<lambda>x. x\<lparr>waiting_mutex := None\<rparr>)) (mutex_waiter_remove_locked m self k) else Some k) of
           None \<Rightarrow> None
         | Some k1 \<Rightarrow> Some (Locked, upd_mutex m (\<lambda>x. x\<lparr>m_owner := Some self\<rparr>) (upd_waiter self (\<lambda>x. x\<lparr>mutex_wake_pending := False\<rparr>) k1)))
      else if m_owner (mutexes k m) = Some self then
        (if waits k self = Some m
         then Some (Locked, upd_waiter self (\<lambda>x. x\<lparr>waiting_mutex := None, mutex_wake_pending := False\<rparr>) k)
         else Some (Refused, k))
      else if waits k self \<noteq> None \<and> waits k self \<noteq> Some m then Some (Refused, k)
      else if waits k self = None
      then Some (Must_block, mutex_waiter_append_locked m self
        (upd_waiter self (\<lambda>x. x\<lparr>mutex_wake_pending := False, waiting_mutex := Some m\<rparr>) k))
      else Some (Must_block, k))"

definition mutex_lock_abandon :: "addr \<Rightarrow> addr \<Rightarrow> locks \<Rightarrow> locks option" where
  "mutex_lock_abandon m self k = map_option (\<lambda>k1. upd_waiter self (\<lambda>x. x\<lparr>mutex_wake_pending := False\<rparr>)
     (if waits k1 self = Some m then upd_waiter self (\<lambda>x. x\<lparr>waiting_mutex := None\<rparr>) k1 else k1)) (mutex_waiter_remove_locked m self k)"

definition mutex_unlock :: "nat \<Rightarrow> addr \<Rightarrow> addr \<Rightarrow> locks \<Rightarrow> (bool \<times> locks) option" where
  "mutex_unlock c m self k =
     (if m_owner (mutexes k m) = Some self
      then map_option (\<lambda>(_, k1). (True, k1)) (mutex_handoff_locked c m (upd_mutex m (\<lambda>x. x\<lparr>m_owner := None\<rparr>) k))
      else Some (False, k))"

definition mutex_cancel_waiter :: "nat \<Rightarrow> addr \<Rightarrow> locks \<Rightarrow> locks option" where
  "mutex_cancel_waiter c t k = (case waits k t of None \<Rightarrow> Some k | Some m \<Rightarrow>
     let k1 = upd_waiter t (\<lambda>x. x\<lparr>mutex_wake_pending := False\<rparr>) k in
     if m_owner (mutexes k1 m) = Some t
     then map_option snd (mutex_handoff_locked c m
       (upd_waiter t (\<lambda>x. x\<lparr>waiting_mutex := None\<rparr>) (upd_mutex m (\<lambda>x. x\<lparr>m_owner := None\<rparr>) k1)))
     else map_option (upd_waiter t (\<lambda>x. x\<lparr>waiting_mutex := None\<rparr>)) (mutex_waiter_remove_locked m t k1))"

subsection \<open>Well-formed chains\<close>

lemma upd_waiter_sel [simp]:
  "mutexes (upd_waiter t f k) = mutexes k"
  "thread_of (upd_waiter t f k) a = (if a = t then f (thread_of k t) else thread_of k a)"
  "wnext (upd_waiter t f k) a = (if a = t then mutex_wait_next (f (thread_of k t)) else wnext k a)"
  "waits (upd_waiter t f k) a = (if a = t then waiting_mutex (f (thread_of k t)) else waits k a)"
  by (simp_all add: upd_waiter_def wnext_def waits_def upd_thread_def)

lemma upd_mutex_sel [simp]:
  "lk_sched (upd_mutex m f k) = lk_sched k" "wnext (upd_mutex m f k) = wnext k" "waits (upd_mutex m f k) = waits k"
  "mutexes (upd_mutex m f k) = (mutexes k)(m := f (mutexes k m))"
  by (simp_all add: upd_mutex_def wnext_def waits_def fun_eq_iff)

lemma waits_eq: "waiting_mutex (thread_of k a) = waits k a" "mutex_wait_next (thread_of k a) = wnext k a"
  by (simp_all add: waits_def wnext_def)

definition chain_of :: "locks \<Rightarrow> addr \<Rightarrow> addr list \<Rightarrow> bool" where
  "chain_of k m ws \<longleftrightarrow> path (wnext k) (wait_head (mutexes k m)) ws \<and>
     wait_tail (mutexes k m) = (if ws = [] then None else Some (last ws))"

definition mutex_ok :: "locks \<Rightarrow> addr \<Rightarrow> addr list \<Rightarrow> bool" where
  "mutex_ok k m ws \<longleftrightarrow> chain_of k m ws \<and> (\<forall>w. w \<in> set ws \<longleftrightarrow> waits k w = Some m \<and> m_owner (mutexes k m) \<noteq> Some w) \<and>
     (m_owner (mutexes k m) = None \<longrightarrow> ws = [])"

text \<open>The state while ownership is being handed on: no owner, and the chain holds every waiter.\<close>

definition mutex_open :: "locks \<Rightarrow> addr \<Rightarrow> addr list \<Rightarrow> bool" where
  "mutex_open k m ws \<longleftrightarrow> chain_of k m ws \<and> m_owner (mutexes k m) = None \<and> (\<forall>w. w \<in> set ws \<longleftrightarrow> waits k w = Some m)"

lemma chain_of_cong:
  assumes "mutexes k' m = mutexes k m" "\<And>w. w \<in> set ws \<Longrightarrow> wnext k' w = wnext k w"
  shows "chain_of k' m ws = chain_of k m ws"
  unfolding chain_of_def assms(1) using path_cong [of ws "wnext k'" "wnext k"] assms(2) by simp

lemma chain_of_owner: "chain_of (upd_mutex m (\<lambda>x. x\<lparr>m_owner := v\<rparr>) k) n ws = chain_of k n ws"
  by (simp add: chain_of_def)

lemma chain_of_waiter:
  assumes "mutex_wait_next (f (thread_of k t)) = mutex_wait_next (thread_of k t)"
  shows "chain_of (upd_waiter t f k) m ws = chain_of k m ws"
  by (rule chain_of_cong) (use assms in \<open>auto simp: wnext_def\<close>)

lemma mutex_ok_cong:
  assumes "mutexes k' m = mutexes k m" "\<And>w. waits k w = Some m \<Longrightarrow> wnext k' w = wnext k w"
    "\<And>w. waits k' w = Some m \<longleftrightarrow> waits k w = Some m"
  shows "mutex_ok k' m ws = mutex_ok k m ws"
proof -
  have "chain_of k' m ws = chain_of k m ws" if "\<And>w. w \<in> set ws \<Longrightarrow> waits k w = Some m"
    by (rule chain_of_cong [OF assms(1)]) (use assms(2) that in blast)
  then show ?thesis unfolding mutex_ok_def assms(1,3) by blast
qed

lemma pop_sel [simp]:
  "n \<noteq> m \<Longrightarrow> mutexes (wait_pop m w k) n = mutexes k n" "m_owner (mutexes (wait_pop m w k) n) = m_owner (mutexes k n)"
  "wnext (wait_pop m w k) a = (if a = w then None else wnext k a)" "waits (wait_pop m w k) = waits k"
  "t_state (thread_of (wait_pop m w k) a) = t_state (thread_of k a)"
  by (simp_all add: wait_pop_def Let_def fun_eq_iff waits_eq)

lemma pop_chain:
  assumes "chain_of k m (w # ws)"
  shows "chain_of (wait_pop m w k) m ws"
proof -
  have p: "path (wnext k) (wait_head (mutexes k m)) (w # ws)" using assms by (simp add: chain_of_def)
  have w: "w \<notin> set ws" using path_distinct [OF p] by simp
  have "path (\<lambda>a. if a = w then None else wnext k a) (wnext k w) ws = path (wnext k) (wnext k w) ws"
    by (rule path_cong) (use w in auto)
  moreover have "wnext (wait_pop m w k) = (\<lambda>a. if a = w then None else wnext k a)" by (simp add: fun_eq_iff)
  moreover have "wait_head (mutexes (wait_pop m w k) m) = wnext k w" by (simp add: wait_pop_def Let_def)
  moreover have "wait_tail (mutexes (wait_pop m w k) m) = (if ws = [] then None else Some (last ws))"
    using assms w by (auto simp: wait_pop_def Let_def chain_of_def split: if_splits)
  ultimately show ?thesis using p by (simp add: chain_of_def)
qed

lemma append_sel [simp]:
  "n \<noteq> m \<Longrightarrow> mutexes (mutex_waiter_append_locked m t k) n = mutexes k n"
  "m_owner (mutexes (mutex_waiter_append_locked m t k) n) = m_owner (mutexes k n)"
  "waits (mutex_waiter_append_locked m t k) = waits k"
  by (auto simp: mutex_waiter_append_locked_def Let_def fun_eq_iff waits_eq split: option.split)

lemma append_next:
  "wnext (mutex_waiter_append_locked m t k) a =
    (if wait_tail (mutexes k m) = Some a then Some t else if a = t then None else wnext k a)"
  by (auto simp: mutex_waiter_append_locked_def Let_def split: option.split)

lemma append_chain:
  assumes "chain_of k m ws" "t \<notin> set ws"
  shows "chain_of (mutex_waiter_append_locked m t k) m (ws @ [t])"
proof -
  let ?k = "mutex_waiter_append_locked m t k" and ?nx = "(wnext k)(t := None)"
  have p: "path ?nx (wait_head (mutexes k m)) ws" using assms by (simp add: chain_of_def)
  have tail: "wait_tail (mutexes k m) = (if ws = [] then None else Some (last ws))" using assms(1) by (simp add: chain_of_def)
  have "wnext ?k = (if ws = [] then ?nx else ?nx(last ws := Some t))"
    using assms(2) last_in_set [of ws] by (auto simp: fun_eq_iff append_next tail)
  moreover have "wait_head (mutexes ?k m) = (if ws = [] then Some t else wait_head (mutexes k m))" "wait_tail (mutexes ?k m) = Some t"
    by (auto simp: mutex_waiter_append_locked_def Let_def tail split: option.split)
  ultimately show ?thesis using path_link_last [OF p assms(2)] by (simp add: chain_of_def)
qed

lemma wait_find_None [simp]: "wait_find nx t q None = Some (q, None)"
  by (subst wait_find.simps) simp

lemma wait_find_Some: "wait_find nx t q (Some a) = (if a = t then Some (q, Some t) else wait_find nx t (Some a) (nx a))"
  by (subst wait_find.simps) simp

lemma wait_find_missing: "path nx p ws \<Longrightarrow> t \<notin> set ws \<Longrightarrow> \<exists>q. wait_find nx t prev p = Some (q, None)"
  by (induction ws arbitrary: p prev) (auto simp: wait_find_Some)

lemma wait_find_split:
  "path nx p (ys @ t # zs) \<Longrightarrow> t \<notin> set ys \<Longrightarrow> wait_find nx t prev p = Some (if ys = [] then prev else Some (last ys), Some t)"
  by (induction ys arbitrary: p prev) (auto simp: wait_find_Some)

lemma remove_missing: "chain_of k m ws \<Longrightarrow> t \<notin> set ws \<Longrightarrow> mutex_waiter_remove_locked m t k = Some k"
  using wait_find_missing [of "wnext k" "wait_head (mutexes k m)" ws t None]
  by (auto simp: chain_of_def mutex_waiter_remove_locked_def)

lemma unlink_sel [simp]:
  "n \<noteq> m \<Longrightarrow> mutexes (wait_unlink m q a k) n = mutexes k n" "m_owner (mutexes (wait_unlink m q a k) n) = m_owner (mutexes k n)"
  "waits (wait_unlink m q a k) = waits k"
  by (auto simp: wait_unlink_def Let_def fun_eq_iff waits_eq split: option.split)

lemma remove_member:
  assumes c: "chain_of k m ws" and t: "t \<in> set ws"
  obtains k' where "mutex_waiter_remove_locked m t k = Some k'" "chain_of k' m (remove1 t ws)"
    "\<And>n. n \<noteq> m \<Longrightarrow> mutexes k' n = mutexes k n" "m_owner (mutexes k' m) = m_owner (mutexes k m)" "waits k' = waits k"
    "\<And>a. a \<notin> set ws \<Longrightarrow> wnext k' a = wnext k a"
proof -
  have p: "path (wnext k) (wait_head (mutexes k m)) ws" using c by (simp add: chain_of_def)
  obtain ys zs where ws: "ws = ys @ t # zs" "t \<notin> set ys" "t \<notin> set zs" using path_mem_split [OF p t] .
  have d: "distinct ws" using p by (rule path_distinct)
  let ?q = "if ys = [] then None else Some (last ys)"
  let ?k = "wait_unlink m ?q t k"
  have r: "mutex_waiter_remove_locked m t k = Some ?k"
    using wait_find_split [of "wnext k" _ ys t zs None] p ws by (simp add: mutex_waiter_remove_locked_def)
  have nx: "wnext ?k a = (if a = t then None else if ys \<noteq> [] \<and> a = last ys then wnext k t else wnext k a)" for a
    by (auto simp: wait_unlink_def Let_def)
  let ?nx = "if ys = [] then wnext k else (wnext k)(last ys := wnext k t)"
  have "path (wnext ?k) (if ys = [] then wnext k t else wait_head (mutexes k m)) (ys @ zs) =
      path ?nx (if ys = [] then wnext k t else wait_head (mutexes k m)) (ys @ zs)"
  proof (rule path_cong)
    fix a assume "a \<in> set (ys @ zs)"
    then have "a \<noteq> t" using ws(2,3) by auto
    then show "wnext ?k a = ?nx a" unfolding nx by simp
  qed
  moreover have "path ?nx (if ys = [] then wnext k t else wait_head (mutexes k m)) (ys @ zs)"
    by (rule path_unlink) (use p ws in simp)
  moreover have "wait_head (mutexes ?k m) = (if ys = [] then wnext k t else wait_head (mutexes k m))"
    by (simp add: wait_unlink_def Let_def)
  moreover have "wait_tail (mutexes ?k m) = (if ys @ zs = [] then None else Some (last (ys @ zs)))"
    using c ws d by (auto simp: wait_unlink_def Let_def chain_of_def)
  ultimately have "chain_of ?k m (remove1 t ws)" using ws by (simp add: chain_of_def remove1_split)
  moreover have "wnext ?k a = wnext k a" if "a \<notin> set ws" for a using that ws last_in_set [of ys] by (auto simp: nx)
  ultimately show thesis using that r by simp
qed

subsection \<open>The scheduler leaves the wait links alone\<close>

lemma wait_link_fields [simp]:
  "mutex_wait_next (threads (queue_append s t) a) = mutex_wait_next (threads s a)"
  "mutex_wait_next (threads (scheduler_remove_queued_locked s t) a) = mutex_wait_next (threads s a)"
  "mutex_wait_next (threads (sleeping_remove s t) a) = mutex_wait_next (threads s a)"
  "mutex_wait_next (threads (sleeping_push s t) a) = mutex_wait_next (threads s a)"
proof -
  have l: "mutex_wait_next (threads (set_link s c v) a) = mutex_wait_next (threads s a)" for c v a
    by (auto simp: set_link_def split: option.split)
  then have u: "mutex_wait_next (threads (sleeping_unlink n s c t) a) = mutex_wait_next (threads s a)" for n c a
    using sleeping_unlink_link [of n s c t] by (auto simp del: fun_upd_apply)
  show "mutex_wait_next (threads (queue_append s t) a) = mutex_wait_next (threads s a)"
    by (auto simp: queue_append_def Let_def split: option.split)
  show "mutex_wait_next (threads (scheduler_remove_queued_locked s t) a) = mutex_wait_next (threads s a)"
    by (auto simp: scheduler_remove_queued_locked_def Let_def split: option.split)
  show "mutex_wait_next (threads (sleeping_remove s t) a) = mutex_wait_next (threads s a)"
    by (simp add: sleeping_remove_def u)
  show "mutex_wait_next (threads (sleeping_push s t) a) = mutex_wait_next (threads s a)"
    by (simp add: sleeping_push_def)
qed

lemma enqueue_waits:
  "waiting_mutex (threads (snd (scheduler_enqueue_locked c s t)) a) = waiting_mutex (threads s a)"
  "mutex_wait_next (threads (snd (scheduler_enqueue_locked c s t)) a) = mutex_wait_next (threads s a)"
  by (simp_all add: scheduler_enqueue_locked_def Let_def)

lemma unblock_waits:
  "waiting_mutex (threads (snd (scheduler_unblock c s p)) a) = waiting_mutex (threads s a)"
  "mutex_wait_next (threads (snd (scheduler_unblock c s p)) a) = mutex_wait_next (threads s a)"
proof -
  have "waiting_mutex (threads (snd (scheduler_unblock c s (Some t))) a) = waiting_mutex (threads s a) \<and>
      mutex_wait_next (threads (snd (scheduler_unblock c s (Some t))) a) = mutex_wait_next (threads s a)" for t
  proof -
    let ?s1 = "upd_thread t wake_priority (sleeping_remove s t)"
    obtain b s2 where e: "scheduler_enqueue_locked c ?s1 t = (b, s2)" by fastforce
    have "waiting_mutex (threads s2 x) = waiting_mutex (threads s x) \<and> mutex_wait_next (threads s2 x) = mutex_wait_next (threads s x)" for x
      using enqueue_waits [of c ?s1 t x] unfolding e by (simp add: wake_priority_def)
    then show ?thesis
      by (auto simp: scheduler_unblock_def e Let_def count_wakeup_def uncount_sleeping_def uncount_blocked_def split: bool.split)
  qed
  then show "waiting_mutex (threads (snd (scheduler_unblock c s p)) a) = waiting_mutex (threads s a)"
    "mutex_wait_next (threads (snd (scheduler_unblock c s p)) a) = mutex_wait_next (threads s a)"
    by (cases p; simp add: scheduler_unblock_def)+
qed

lemma lk_sched_waits [simp]:
  "waits (k\<lparr>lk_sched := snd (scheduler_unblock c (lk_sched k) p)\<rparr>) = waits k"
  "wnext (k\<lparr>lk_sched := snd (scheduler_unblock c (lk_sched k) p)\<rparr>) = wnext k"
  by (simp_all add: waits_def wnext_def fun_eq_iff unblock_waits)

subsection \<open>What an operation on one mutex leaves alone\<close>

definition near :: "addr \<Rightarrow> locks \<Rightarrow> locks \<Rightarrow> bool" where
  "near m k k' \<longleftrightarrow> (\<forall>n. n \<noteq> m \<longrightarrow> mutexes k' n = mutexes k n) \<and>
     (\<forall>a. if waits k a = None \<or> waits k a = Some m then waits k' a = None \<or> waits k' a = Some m
       else waits k' a = waits k a \<and> wnext k' a = wnext k a)"

lemma near_refl [simp]: "near m k k"
  by (simp add: near_def)

lemma near_trans: "near m k k' \<Longrightarrow> near m k' k'' \<Longrightarrow> near m k k''"
  unfolding near_def by (smt (verit))

lemma nearD:
  assumes "near m k k'" "n \<noteq> m"
  shows "mutexes k' n = mutexes k n" "waits k' a = Some n \<longleftrightarrow> waits k a = Some n" "waits k a = Some n \<Longrightarrow> wnext k' a = wnext k a"
proof -
  have "if waits k a = None \<or> waits k a = Some m then waits k' a = None \<or> waits k' a = Some m
      else waits k' a = waits k a \<and> wnext k' a = wnext k a"
    using assms(1) by (simp add: near_def)
  then show "waits k' a = Some n \<longleftrightarrow> waits k a = Some n" "waits k a = Some n \<Longrightarrow> wnext k' a = wnext k a"
    using assms(2) by (auto split: if_splits)
  show "mutexes k' n = mutexes k n" using assms by (simp add: near_def)
qed

lemma near_ok: "near m k k' \<Longrightarrow> n \<noteq> m \<Longrightarrow> mutex_ok k' n ws = mutex_ok k n ws"
  by (rule mutex_ok_cong) (simp_all add: nearD)

lemma near_upd_mutex: "near m k (upd_mutex m f k)"
  by (simp add: near_def)

lemma near_upd_waiter:
  assumes "waits k t = None \<or> waits k t = Some m" "waiting_mutex (f (thread_of k t)) = None \<or> waiting_mutex (f (thread_of k t)) = Some m"
  shows "near m k (upd_waiter t f k)"
  using assms by (auto simp: near_def)

lemma near_pop: "waits k w = Some m \<Longrightarrow> near m k (wait_pop m w k)"
  by (auto simp: near_def)

lemma near_unblock: "near m k (k\<lparr>lk_sched := snd (scheduler_unblock c (lk_sched k) p)\<rparr>)"
  by (simp add: near_def)

lemma near_append:
  assumes "waits k t = Some m" "chain_of k m ws" "\<And>w. w \<in> set ws \<Longrightarrow> waits k w = Some m"
  shows "near m k (mutex_waiter_append_locked m t k)"
proof -
  have "waits k a = Some m" if "wait_tail (mutexes k m) = Some a" for a
    using that assms(2,3) last_in_set [of ws] by (auto simp: chain_of_def split: if_splits)
  then show ?thesis using assms(1) by (auto simp: near_def append_next)
qed

subsection \<open>Handing on\<close>

lemma mutex_open_owned:
  assumes "mutex_open k m (w # ws)" "chain_of k' m ws" "m_owner (mutexes k' m) = Some w" "waits k' = waits k"
  shows "mutex_ok k' m ws"
proof -
  have "distinct (w # ws)" using assms(1) path_distinct by (auto simp: mutex_open_def chain_of_def simp del: distinct.simps)
  then show ?thesis using assms by (auto simp: mutex_open_def mutex_ok_def)
qed

lemma mutex_open_skip:
  assumes "mutex_open k m (w # ws)" "chain_of k' m ws" "m_owner (mutexes k' m) = None" "waits k' = (waits k)(w := None)"
  shows "mutex_open k' m ws"
proof -
  have "distinct (w # ws)" using assms(1) path_distinct by (auto simp: mutex_open_def chain_of_def simp del: distinct.simps)
  then show ?thesis using assms by (auto simp: mutex_open_def)
qed

definition handed :: "addr \<Rightarrow> locks \<Rightarrow> locks \<Rightarrow> bool" where
  "handed m k k' \<longleftrightarrow> near m k k' \<and> (\<exists>ws. mutex_ok k' m ws) \<and>
     (\<forall>o'. m_owner (mutexes k' m) = Some o' \<longrightarrow> waits k' o' = Some m)"

lemma handoff_step:
  fixes c :: nat
  assumes "wait_head (mutexes k m) = Some w" "waits k w = Some m"
  defines "k1 \<equiv> wait_pop m w k"
  defines "k3 \<equiv> (upd_mutex m (\<lambda>x. x\<lparr>m_owner := Some w\<rparr>) k1)\<lparr>lk_sched := snd (scheduler_unblock c (lk_sched k1) (Some w))\<rparr>"
  shows "mutex_handoff_locked c m k =
    (if t_state (thread_of k w) = THREAD_STATE_RUNNING
     then Some (True, upd_waiter w (\<lambda>x. x\<lparr>mutex_wake_pending := True\<rparr>) (upd_mutex m (\<lambda>x. x\<lparr>m_owner := Some w\<rparr>) k1))
     else if t_state (thread_of k w) \<noteq> THREAD_STATE_BLOCKED
     then mutex_handoff_locked c m (upd_waiter w (\<lambda>x. x\<lparr>waiting_mutex := None\<rparr>) k1)
     else if fst (scheduler_unblock c (lk_sched k1) (Some w)) then Some (True, k3)
     else mutex_handoff_locked c m (upd_waiter w (\<lambda>x. x\<lparr>waiting_mutex := None\<rparr>) (upd_mutex m (\<lambda>x. x\<lparr>m_owner := None\<rparr>) k3)))"
  unfolding k1_def k3_def using assms(1,2) by (subst mutex_handoff_locked.simps) (simp add: Let_def)

lemma handoff_spec:
  "mutex_open k m ws \<Longrightarrow> \<exists>r k'. mutex_handoff_locked c m k = Some (r, k') \<and> handed m k k'"
proof (induction ws arbitrary: k)
  case Nil
  then have "wait_head (mutexes k m) = None" by (simp add: mutex_open_def chain_of_def)
  then have "mutex_handoff_locked c m k = Some (False, k)" by (subst mutex_handoff_locked.simps) simp
  moreover have "mutex_ok k m []" "m_owner (mutexes k m) = None" using Nil by (auto simp: mutex_open_def mutex_ok_def)
  ultimately show ?case by (auto simp: handed_def)
next
  case (Cons w ws)
  have w: "wait_head (mutexes k m) = Some w" "waits k w = Some m" and ch: "chain_of k m (w # ws)"
    using Cons.prems by (auto simp: mutex_open_def chain_of_def)
  define k1 where "k1 = wait_pop m w k"
  define k2 where "k2 = upd_mutex m (\<lambda>x. x\<lparr>m_owner := Some w\<rparr>) k1"
  define k3 where "k3 = k2\<lparr>lk_sched := snd (scheduler_unblock c (lk_sched k1) (Some w))\<rparr>"
  have c1: "chain_of k1 m ws" unfolding k1_def by (rule pop_chain [OF ch])
  have w1: "waits k1 = waits k" "m_owner (mutexes k1 m) = None"
    using Cons.prems by (auto simp: k1_def mutex_open_def)
  have n1: "near m k k1" unfolding k1_def by (rule near_pop [OF w(2)])
  have lk: "lk_sched k2 = lk_sched k1" by (simp add: k2_def)
  have n2: "near m k k2" unfolding k2_def by (rule near_trans [OF n1 near_upd_mutex])
  have n3: "near m k k3" unfolding k3_def lk [symmetric] by (rule near_trans [OF n2 near_unblock])
  have "waits k3 = waits k2" "wnext k3 = wnext k2" unfolding k3_def lk [symmetric] by simp_all
  then have w3: "waits k3 = waits k" "wnext k3 = wnext k1" "mutexes k3 = mutexes k2" by (simp_all add: k2_def k3_def w1)
  have given: "handed m k k'" if "near m k k'" "chain_of k' m ws" "m_owner (mutexes k' m) = Some w" "waits k' = waits k" for k'
    unfolding handed_def using that w(2) mutex_open_owned [OF Cons.prems that(2-4)] by auto
  have next_one: "\<exists>r k''. mutex_handoff_locked c m k' = Some (r, k'') \<and> handed m k k''"
    if n: "near m k k'" and c: "chain_of k' m ws" "m_owner (mutexes k' m) = None" "waits k' = (waits k)(w := None)" for k'
    using Cons.IH [OF mutex_open_skip [OF Cons.prems c]] near_trans [OF n] unfolding handed_def by blast
  have c3: "chain_of k3 m ws" using c1 by (simp add: chain_of_def w3 k2_def)
  note step = handoff_step [OF w, of c, folded k1_def, folded k2_def, folded k3_def]
  consider (running) "t_state (thread_of k w) = THREAD_STATE_RUNNING"
    | (gone) "t_state (thread_of k w) \<noteq> THREAD_STATE_RUNNING" "t_state (thread_of k w) \<noteq> THREAD_STATE_BLOCKED"
    | (woken) "t_state (thread_of k w) = THREAD_STATE_BLOCKED" "fst (scheduler_unblock c (lk_sched k1) (Some w))"
    | (failed) "t_state (thread_of k w) = THREAD_STATE_BLOCKED" "\<not> fst (scheduler_unblock c (lk_sched k1) (Some w))"
    by blast
  then show ?case
  proof cases
    case running
    let ?k = "upd_waiter w (\<lambda>x. x\<lparr>mutex_wake_pending := True\<rparr>) k2"
    have "handed m k ?k"
    proof (rule given)
      show "near m k ?k" by (rule near_trans [OF n2], rule near_upd_waiter) (use w w1 in \<open>simp_all add: k2_def waits_eq\<close>)
      show "chain_of ?k m ws" using c1 by (simp add: chain_of_waiter k2_def chain_of_owner)
      show "waits ?k = waits k" using w1 by (simp add: fun_eq_iff k2_def waits_eq)
    qed (simp add: k2_def)
    then show ?thesis using running step by auto
  next
    case gone
    let ?k = "upd_waiter w (\<lambda>x. x\<lparr>waiting_mutex := None\<rparr>) k1"
    have "near m k ?k" by (rule near_trans [OF n1], rule near_upd_waiter) (use w w1 in simp_all)
    moreover have "chain_of ?k m ws" using c1 by (simp add: chain_of_waiter)
    ultimately show ?thesis using next_one [of ?k] gone step w1 by (simp add: fun_eq_iff)
  next
    case woken
    then show ?thesis using given [OF n3 c3] w3 step by (auto simp: k2_def)
  next
    case failed
    let ?k = "upd_waiter w (\<lambda>x. x\<lparr>waiting_mutex := None\<rparr>) (upd_mutex m (\<lambda>x. x\<lparr>m_owner := None\<rparr>) k3)"
    have "near m k ?k"
      by (rule near_trans [OF n3], rule near_trans [OF near_upd_mutex], rule near_upd_waiter) (use w w3 in simp_all)
    moreover have "chain_of ?k m ws" using c3 by (simp add: chain_of_waiter chain_of_owner)
    ultimately show ?thesis using next_one [of ?k] failed step w3 by (simp add: fun_eq_iff)
  qed
qed

subsection \<open>Runs\<close>

text \<open>
  A run: the pairs of a mutex and the thread that has returned from acquiring it and not yet released it.
  A thread that waits for a mutex is inside \<open>mutex_lock\<close> for that mutex and calls nothing else. Between
  the transitions the scheduler changes the threads in any way that leaves the wait links alone.
\<close>

type_synonym lock_state = "locks \<times> (addr \<times> addr) set"

inductive lock_step :: "lock_state \<Rightarrow> lock_state \<Rightarrow> bool" where
  lock_init: "(\<And>t. waits k t \<noteq> Some m) \<Longrightarrow> (\<And>t. (m, t) \<notin> held) \<Longrightarrow> lock_step (k, held) (mutex_init m k, held)"
| lock_try: "waits k self = None \<Longrightarrow> mutex_try_lock m self k = (r, k') \<Longrightarrow>
    lock_step (k, held) (k', if r then insert (m, self) held else held)"
| lock_round: "waits k self = None \<or> waits k self = Some m \<Longrightarrow> mutex_lock_round m self k = Some (r, k') \<Longrightarrow>
    lock_step (k, held) (k', if r = Locked then insert (m, self) held else held)"
| lock_abandon: "waits k self = Some m \<Longrightarrow> mutex_lock_abandon m self k = Some k' \<Longrightarrow> lock_step (k, held) (k', held)"
| lock_release: "waits k self = None \<Longrightarrow> mutex_unlock c m self k = Some (r, k') \<Longrightarrow>
    lock_step (k, held) (k', held - {(m, self)})"
| lock_cancel: "mutex_cancel_waiter c t k = Some k' \<Longrightarrow> lock_step (k, held) (k', held)"
| lock_schedule: "(\<And>t. waiting_mutex (threads s t) = waits k t) \<Longrightarrow>
    (\<And>t. waits k t \<noteq> None \<Longrightarrow> mutex_wait_next (threads s t) = wnext k t) \<Longrightarrow> lock_step (k, held) (k\<lparr>lk_sched := s\<rparr>, held)"

definition lock_start :: "lock_state \<Rightarrow> bool" where
  "lock_start st \<longleftrightarrow> snd st = {} \<and> (\<forall>t. waits (fst st) t = None) \<and>
     (\<forall>m. mutexes (fst st) m = \<lparr>m_owner = None, wait_head = None, wait_tail = None\<rparr>)"

definition holds_ok :: "locks \<Rightarrow> addr \<Rightarrow> addr \<Rightarrow> bool" where
  "holds_ok k m t \<longleftrightarrow> m_owner (mutexes k m) = Some t \<and> waits k t \<noteq> Some m"

fun locks_inv :: "lock_state \<Rightarrow> bool" where
  "locks_inv (k, held) \<longleftrightarrow> (\<forall>m. \<exists>ws. mutex_ok k m ws) \<and> (\<forall>(m, t)\<in>held. holds_ok k m t)"

lemma locks_inv_near:
  assumes inv: "locks_inv (k, held)" and n: "near m k k'" and ok: "mutex_ok k' m ws"
    and held: "\<And>n t. (n, t) \<in> held' \<Longrightarrow> n \<noteq> m \<Longrightarrow> (n, t) \<in> held" "\<And>t. (m, t) \<in> held' \<Longrightarrow> holds_ok k' m t"
  shows "locks_inv (k', held')"
proof -
  have "\<exists>ws. mutex_ok k' x ws" for x using inv ok near_ok [OF n, of x] by (cases "x = m") auto
  moreover have "holds_ok k' x t" if "(x, t) \<in> held'" for x t
  proof (cases "x = m")
    case False
    have "(x, t) \<in> held" by (rule held(1) [OF that False])
    then have "holds_ok k x t" using inv by auto
    then show ?thesis using nearD [OF n False] by (simp add: holds_ok_def)
  qed (use held(2) that in simp)
  ultimately show ?thesis by auto
qed

lemma mutex_okD:
  assumes "mutex_ok k m ws"
  shows "chain_of k m ws" "w \<in> set ws \<longleftrightarrow> waits k w = Some m \<and> m_owner (mutexes k m) \<noteq> Some w"
    "m_owner (mutexes k m) = None \<Longrightarrow> ws = []"
  using assms by (auto simp: mutex_ok_def)

lemma mutex_ok_quiet:
  assumes "mutexes k' = mutexes k" "waits k' = waits k" "wnext k' = wnext k"
  shows "mutex_ok k' m ws = mutex_ok k m ws" "near m k k'"
  using assms by (auto simp: mutex_ok_def chain_of_def near_def)

lemma take_ok:
  assumes ok: "mutex_ok k m ws" and free: "m_owner (mutexes k m) = None" and f: "\<And>x. mutex_wait_next (f x) = mutex_wait_next x"
    "\<And>x. waiting_mutex (f x) = waiting_mutex x" and self: "waits k self = None"
  defines "k' \<equiv> upd_mutex m (\<lambda>x. x\<lparr>m_owner := Some self\<rparr>) (upd_waiter self f k)"
  shows "mutex_ok k' m []" "near m k k'" "holds_ok k' m self"
proof -
  have ws: "ws = []" by (rule mutex_okD(3) [OF ok free])
  have e: "waits k' = waits k" "wnext k' = wnext k" by (auto simp: k'_def fun_eq_iff f waits_eq)
  show "mutex_ok k' m []" using mutex_okD [OF ok] ws free e by (auto simp: mutex_ok_def chain_of_def k'_def)
  show "near m k k'" unfolding near_def e by (simp add: k'_def)
  show "holds_ok k' m self" using self by (simp add: holds_ok_def e) (simp add: k'_def)
qed

lemma open_upd:
  assumes ok: "mutex_ok k m ws" and o: "m_owner (mutexes k m) = Some t" and t: "waits k t \<noteq> Some m"
  shows "mutex_open (upd_mutex m (\<lambda>x. x\<lparr>m_owner := None\<rparr>) k) m ws"
  using mutex_okD [OF ok] o t by (auto simp: mutex_open_def chain_of_owner)

lemma remove_ok:
  assumes ok: "mutex_ok k m ws" and t: "waits k t = Some m" and q: "m_owner (mutexes k m) \<noteq> None"
    and f: "\<And>x. mutex_wait_next (f x) = mutex_wait_next x" "\<And>x. waiting_mutex (f x) = None"
  shows "\<exists>k1 ws'. mutex_waiter_remove_locked m t k = Some k1 \<and> mutex_ok (upd_waiter t f k1) m ws' \<and>
    near m k (upd_waiter t f k1) \<and> waits k1 = waits k \<and> m_owner (mutexes k1 m) = m_owner (mutexes k m)"
proof (cases "t \<in> set ws")
  case False
  have r: "mutex_waiter_remove_locked m t k = Some k" by (rule remove_missing [OF mutex_okD(1) [OF ok] False])
  have "mutex_ok (upd_waiter t f k) m ws"
    using mutex_okD [OF ok] q f False by (auto simp: mutex_ok_def chain_of_waiter)
  moreover have "near m k (upd_waiter t f k)" by (rule near_upd_waiter) (simp_all add: t f)
  ultimately show ?thesis using r by auto
next
  case True
  obtain k1 where k1: "mutex_waiter_remove_locked m t k = Some k1" "chain_of k1 m (remove1 t ws)"
    "\<And>n. n \<noteq> m \<Longrightarrow> mutexes k1 n = mutexes k n" "m_owner (mutexes k1 m) = m_owner (mutexes k m)" "waits k1 = waits k"
    "\<And>a. a \<notin> set ws \<Longrightarrow> wnext k1 a = wnext k a"
    using remove_member [OF mutex_okD(1) [OF ok] True] by metis
  have d: "distinct ws" using mutex_okD(1) [OF ok] path_distinct by (auto simp: chain_of_def)
  have "chain_of (upd_waiter t f k1) m (remove1 t ws)" using k1(2) by (simp add: chain_of_waiter f)
  then have "mutex_ok (upd_waiter t f k1) m (remove1 t ws)"
    using mutex_okD(2,3) [OF ok] q d f by (auto simp: mutex_ok_def k1)
  moreover have "near m k k1" using k1(3,5,6) mutex_okD(2) [OF ok] by (auto simp: near_def)
  moreover have "near m k1 (upd_waiter t f k1)" by (rule near_upd_waiter) (simp_all add: t f k1)
  ultimately show ?thesis using k1 near_trans by blast
qed

lemma upd_waiter_id [simp]: "upd_waiter t (\<lambda>x. x) k = k"
  by (simp add: upd_waiter_def upd_thread_def)

lemma upd_waiter_twice [simp]: "upd_waiter t g (upd_waiter t f k) = upd_waiter t (\<lambda>x. g (f x)) k"
  by (simp add: upd_waiter_def upd_thread_def)

lemma waiter_owned: "mutex_ok k m ws \<Longrightarrow> waits k t = Some m \<Longrightarrow> m_owner (mutexes k m) \<noteq> None"
  using mutex_okD(2) [of k m ws t] mutex_okD(3) [of k m ws] by (metis empty_iff list.set(1) option.distinct(1))

lemma heldD: "locks_inv (k, held) \<Longrightarrow> (m, t) \<in> held \<Longrightarrow> m_owner (mutexes k m) = Some t \<and> waits k t \<noteq> Some m"
  by (auto simp: holds_ok_def)

lemma round_inv:
  assumes inv: "locks_inv (k, held)" and w: "waits k self = None \<or> waits k self = Some m"
    and r: "mutex_lock_round m self k = Some (r, k')"
  shows "locks_inv (k', if r = Locked then insert (m, self) held else held)"
proof -
  obtain ws where ok: "mutex_ok k m ws" using inv by auto
  note H = heldD [OF inv]
  consider (free) "m_owner (mutexes k m) = None" | (mine) "m_owner (mutexes k m) = Some self" "waits k self = Some m"
    | (wait) "m_owner (mutexes k m) \<noteq> None" "m_owner (mutexes k m) \<noteq> Some self" "waits k self = None"
    | (same) "k' = k" "r \<noteq> Locked"
    using r w by (auto simp: mutex_lock_round_def split: if_splits)
  then show ?thesis
  proof cases
    case free
    have self: "waits k self = None" using w waiter_owned [OF ok, of self] free by auto
    let ?k = "upd_mutex m (\<lambda>x. x\<lparr>m_owner := Some self\<rparr>) (upd_waiter self (\<lambda>x. x\<lparr>mutex_wake_pending := False\<rparr>) k)"
    have k': "k' = ?k" "r = Locked" using r free self by (auto simp: mutex_lock_round_def)
    note T = take_ok [OF ok free _ _ self, of "\<lambda>x. x\<lparr>mutex_wake_pending := False\<rparr>", simplified]
    show ?thesis unfolding k' by (rule locks_inv_near [OF inv T(2,1)]) (use T(3) H free in auto)
  next
    case mine
    let ?k = "upd_waiter self (\<lambda>x. x\<lparr>waiting_mutex := None, mutex_wake_pending := False\<rparr>) k"
    have k': "k' = ?k" "r = Locked" using r mine by (auto simp: mutex_lock_round_def)
    have n: "near m k ?k" by (rule near_upd_waiter) (use mine in auto)
    have "mutex_ok ?k m ws" using mutex_okD [OF ok] mine by (auto simp: mutex_ok_def chain_of_waiter)
    then show ?thesis unfolding k' by (rule locks_inv_near [OF inv n]) (use mine H in \<open>auto simp: holds_ok_def\<close>)
  next
    case wait
    let ?k1 = "upd_waiter self (\<lambda>x. x\<lparr>mutex_wake_pending := False, waiting_mutex := Some m\<rparr>) k"
    let ?k = "mutex_waiter_append_locked m self ?k1"
    have k': "k' = ?k" "r = Must_block" using r wait by (auto simp: mutex_lock_round_def)
    have c1: "chain_of ?k1 m ws" using mutex_okD(1) [OF ok] by (simp add: chain_of_waiter)
    have s: "self \<notin> set ws" using mutex_okD(2) [OF ok] wait by auto
    have "near m k ?k1" by (rule near_upd_waiter) (use wait in auto)
    moreover have "near m ?k1 ?k" by (rule near_append [OF _ c1]) (use mutex_okD(2) [OF ok] in auto)
    ultimately have n: "near m k ?k" by (rule near_trans)
    have "mutex_ok ?k m (ws @ [self])"
      using append_chain [OF c1 s] mutex_okD(2) [OF ok] wait by (auto simp: mutex_ok_def)
    then show ?thesis unfolding k'(1) by (rule locks_inv_near [OF inv n]) (use wait H k'(2) in \<open>auto simp: holds_ok_def\<close>)
  qed (use inv in simp)
qed

lemma abandon_inv:
  assumes inv: "locks_inv (k, held)" and w: "waits k self = Some m" and r: "mutex_lock_abandon m self k = Some k'"
  shows "locks_inv (k', held)"
proof -
  obtain ws where ok: "mutex_ok k m ws" using inv by auto
  let ?f = "\<lambda>x. x\<lparr>waiting_mutex := None, mutex_wake_pending := False\<rparr>"
  obtain k1 ws' where R: "mutex_waiter_remove_locked m self k = Some k1" "mutex_ok (upd_waiter self ?f k1) m ws'"
      "near m k (upd_waiter self ?f k1)" "waits k1 = waits k" "m_owner (mutexes k1 m) = m_owner (mutexes k m)"
    using remove_ok [OF ok w waiter_owned [OF ok w], of ?f] by auto
  have k': "k' = upd_waiter self ?f k1" using r R w by (simp add: mutex_lock_abandon_def)
  show ?thesis unfolding k' by (rule locks_inv_near [OF inv R(3,2)]) (use R w heldD [OF inv] in \<open>auto simp: holds_ok_def\<close>)
qed

lemma release_inv:
  assumes inv: "locks_inv (k, held)" and w: "waits k self = None" and r: "mutex_unlock c m self k = Some (r, k')"
  shows "locks_inv (k', held - {(m, self)})"
proof (cases "m_owner (mutexes k m) = Some self")
  case True
  obtain ws where ok: "mutex_ok k m ws" using inv by auto
  let ?k = "upd_mutex m (\<lambda>x. x\<lparr>m_owner := None\<rparr>) k"
  have op: "mutex_open ?k m ws" by (rule open_upd [OF ok True]) (simp add: w)
  obtain b k1 where k1: "mutex_handoff_locked c m ?k = Some (b, k1)" "handed m ?k k1"
    using handoff_spec [OF op] by blast
  have k': "k' = k1" using r True k1 by (auto simp: mutex_unlock_def)
  have n: "near m k k1" using near_trans [OF near_upd_mutex] k1(2) by (auto simp: handed_def)
  obtain ws' where "mutex_ok k1 m ws'" using k1(2) by (auto simp: handed_def)
  then show ?thesis unfolding k' by (rule locks_inv_near [OF inv n]) (use heldD [OF inv] True in auto)
next
  case False
  then have "k' = k" using r by (simp add: mutex_unlock_def)
  then show ?thesis using inv by auto
qed

lemma cancel_inv:
  assumes inv: "locks_inv (k, held)" and r: "mutex_cancel_waiter c t k = Some k'"
  shows "locks_inv (k', held)"
proof (cases "waits k t")
  case None
  then show ?thesis using r inv by (simp add: mutex_cancel_waiter_def)
next
  case (Some m)
  obtain ws where ok: "mutex_ok k m ws" using inv by auto
  note H = heldD [OF inv]
  let ?w = "\<lambda>x. x\<lparr>mutex_wake_pending := False\<rparr>"
  let ?f = "\<lambda>x. x\<lparr>mutex_wake_pending := False, waiting_mutex := None\<rparr>"
  show ?thesis
  proof (cases "m_owner (mutexes k m) = Some t")
    case True
    let ?k = "upd_waiter t (\<lambda>x. x\<lparr>waiting_mutex := None\<rparr>) (upd_mutex m (\<lambda>x. x\<lparr>m_owner := None\<rparr>) (upd_waiter t ?w k))"
    have n: "near m k ?k"
      by (rule near_trans [OF near_upd_waiter near_trans [OF near_upd_mutex near_upd_waiter]]) (use Some in \<open>auto simp: waits_eq\<close>)
    have "mutex_open ?k m ws"
      using mutex_okD [OF ok] True by (auto simp: mutex_open_def chain_of_waiter chain_of_owner waits_eq)
    then obtain b k1 where k1: "mutex_handoff_locked c m ?k = Some (b, k1)" "handed m ?k k1" using handoff_spec by blast
    have k': "k' = k1" using r True Some k1 by (simp add: mutex_cancel_waiter_def Let_def)
    have n1: "near m k k1" using near_trans [OF n] k1(2) by (auto simp: handed_def)
    obtain ws' where "mutex_ok k1 m ws'" using k1(2) by (auto simp: handed_def)
    then show ?thesis unfolding k' by (rule locks_inv_near [OF inv n1]) (use H True Some in auto)
  next
    case False
    let ?k1 = "upd_waiter t ?w k" and ?g = "\<lambda>x. x\<lparr>waiting_mutex := None\<rparr>"
    have q: "mutexes ?k1 = mutexes k" "waits ?k1 = waits k" "wnext ?k1 = wnext k" by (auto simp: fun_eq_iff waits_eq)
    note Q = mutex_ok_quiet [OF q]
    have ok1: "mutex_ok ?k1 m ws" using ok Q(1) by simp
    obtain k2 ws' where R: "mutex_waiter_remove_locked m t ?k1 = Some k2" "mutex_ok (upd_waiter t ?g k2) m ws'"
        "near m ?k1 (upd_waiter t ?g k2)" "waits k2 = waits ?k1" "m_owner (mutexes k2 m) = m_owner (mutexes ?k1 m)"
      using remove_ok [OF ok1, of t ?g] Some waiter_owned [OF ok1, of t] q by auto
    have k': "k' = upd_waiter t ?g k2" using r Some False R by (simp add: mutex_cancel_waiter_def Let_def)
    show ?thesis unfolding k'
      by (rule locks_inv_near [OF inv near_trans [OF Q(2) R(3)] R(2)]) (use R q H Some in \<open>auto simp: holds_ok_def\<close>)
  qed
qed

lemma lock_step_inv:
  assumes inv: "locks_inv s" and step: "lock_step s t"
  shows "locks_inv t"
  using step
proof cases
  case (lock_init k m held)
  have "mutex_ok (mutex_init m k) m []" using lock_init by (auto simp: mutex_init_def mutex_ok_def chain_of_def)
  moreover have "near m k (mutex_init m k)" by (simp add: mutex_init_def near_upd_mutex)
  ultimately show ?thesis using locks_inv_near [of k held m "mutex_init m k" "[]" held] inv lock_init by auto
next
  case (lock_try k self m r k' held)
  obtain ws where ok: "mutex_ok k m ws" using inv lock_try by auto
  show ?thesis
  proof (cases "m_owner (mutexes k m) = None")
    case True
    note T = take_ok [OF ok True _ _ lock_try(3), of "\<lambda>x. x", simplified]
    have k': "k' = upd_mutex m (\<lambda>x. x\<lparr>m_owner := Some self\<rparr>) k" "r" using lock_try True by (auto simp: mutex_try_lock_def)
    show ?thesis using locks_inv_near [OF _ T(2,1), of held "insert (m, self) held"] inv lock_try k' T(3) heldD [of k held m] True by auto
  qed (use lock_try inv in \<open>auto simp: mutex_try_lock_def\<close>)
next
  case (lock_schedule s' k held)
  have "mutex_ok (k\<lparr>lk_sched := s'\<rparr>) = mutex_ok k"
    by (intro ext mutex_ok_cong) (use lock_schedule in \<open>auto simp: waits_def wnext_def\<close>)
  moreover have "waits (k\<lparr>lk_sched := s'\<rparr>) t = waits k t" for t using lock_schedule(3) [of t] by (simp add: waits_def)
  ultimately show ?thesis using inv lock_schedule by (auto simp: holds_ok_def)
next
  case (lock_round k self m r k' held)
  then show ?thesis using round_inv [of k held self m r k'] inv by (simp del: locks_inv.simps)
qed (use inv in \<open>auto intro: abandon_inv release_inv cancel_inv simp del: locks_inv.simps\<close>)

lemma lock_start_inv: "lock_start s \<Longrightarrow> locks_inv s"
  by (cases s) (auto simp: lock_start_def mutex_ok_def chain_of_def intro!: exI [of _ "[]"])

interpretation mutexes: inductive_invariant lock_start lock_step locks_inv
  by unfold_locales (auto intro: lock_start_inv lock_step_inv simp del: locks_inv.simps)

end
