(* ===== verification/Mutex_Theorems.thy ===== *)
theory Mutex_Theorems
  imports Mutex Machine_Theorems
begin

section \<open>What the mutexes guarantee\<close>

text \<open>Mutual exclusion and the wait chains in every run, and the hand-over of an unlock with the scheduler.\<close>

subsection \<open>Instances\<close>

text \<open>The scheduler of the machine in which the bootstrap thread 1 is blocked and CPU 0 runs thread 2.\<close>

definition no_waits :: "scheduler \<Rightarrow> scheduler" where
  "no_waits s = s\<lparr>threads := \<lambda>t. (threads s t)\<lparr>waiting_mutex := None, mutex_wait_next := None\<rparr>\<rparr>"

lemma sched_ok_no_waits: "sched_ok (no_waits s) rq sl = sched_ok s rq sl"
  unfolding sched_ok_def lists_wf_def ready_repr_def queued_ok_def sleeper_ok_def current_ok_def idle_ok_def no_waits_def
  by (simp add: thread_ok_def thread_priority_state_valid_def Let_def cong: option.case_cong)

definition free_locks :: locks where
  "free_locks = \<lparr>lk_sched = no_waits (sched boot_blocks), mutexes = \<lambda>_. \<lparr>m_owner = None, wait_head = None, wait_tail = None\<rparr>\<rparr>"

text \<open>Mutex 7 taken by thread 2, and then waited for by thread 1.\<close>

definition taken_locks :: locks where "taken_locks = snd (mutex_try_lock 7 2 free_locks)"

definition waited_locks :: locks where "waited_locks = snd (the (mutex_lock_round 7 1 taken_locks))"

lemma taken_reach: "reach lock_start lock_step (taken_locks, {(7, 2)})"
proof -
  have "reach lock_start lock_step (free_locks, {})"
    by (rule reach_start) (simp add: lock_start_def free_locks_def no_waits_def waits_def)
  moreover have "lock_step (free_locks, {}) (taken_locks, {(7, 2)})"
    using lock_try [of free_locks 2 7 True taken_locks "{}"]
    by (simp add: taken_locks_def mutex_try_lock_def free_locks_def no_waits_def waits_def)
  ultimately show ?thesis by (rule reach_step)
qed

lemma taken_facts: "waits taken_locks t = None" "m_owner (mutexes taken_locks 7) = Some 2" "wait_tail (mutexes taken_locks 7) = None"
    "lk_sched taken_locks = no_waits (sched boot_blocks)"
  by (simp_all add: taken_locks_def mutex_try_lock_def free_locks_def no_waits_def waits_def)

lemma waited_eq:
  "mutex_lock_round 7 1 taken_locks = Some (Must_block, waited_locks)"
  "waited_locks = mutex_waiter_append_locked 7 1 (upd_waiter 1 (\<lambda>x. x\<lparr>mutex_wake_pending := False, waiting_mutex := Some 7\<rparr>) taken_locks)"
  using taken_facts by (simp_all add: waited_locks_def mutex_lock_round_def)

lemma waited_reach: "reach lock_start lock_step (waited_locks, {(7, 2)})"
  by (rule reach_step [OF taken_reach]) (use lock_round [OF _ waited_eq(1), of "{(7, 2)}"] taken_facts in simp)

lemma waited_facts:
  "m_owner (mutexes waited_locks 7) = Some 2" "waits waited_locks t = (if t = 1 then Some 7 else None)"
  "wnext waited_locks 1 = None" "wait_head (mutexes waited_locks 7) = Some 1"
  "t_state (thread_of waited_locks t) = t_state (threads (sched boot_blocks) t)"
  "thread_blocks (lk_sched waited_locks) = thread_blocks (sched boot_blocks)" "cpus (lk_sched waited_locks) = cpus (sched boot_blocks)"
  "sched_good (lk_sched waited_locks)"
proof -
  let ?s = "no_waits (sched boot_blocks)" and ?f = "\<lambda>x. x\<lparr>mutex_wake_pending := False, waiting_mutex := Some 7, mutex_wait_next := None\<rparr>"
  have lk: "lk_sched waited_locks = upd_thread 1 ?f ?s"
    by (simp add: waited_eq(2) mutex_waiter_append_locked_def Let_def taken_facts upd_waiter_def upd_thread_def upd_mutex_def)
  show "m_owner (mutexes waited_locks 7) = Some 2" "waits waited_locks t = (if t = 1 then Some 7 else None)"
    by (simp_all add: waited_eq(2) taken_facts)
  show "wnext waited_locks 1 = None" "wait_head (mutexes waited_locks 7) = Some 1"
    by (simp_all add: waited_eq(2) append_next taken_facts) (simp add: mutex_waiter_append_locked_def Let_def taken_facts)
  show "t_state (thread_of waited_locks t) = t_state (threads (sched boot_blocks) t)"
    "thread_blocks (lk_sched waited_locks) = thread_blocks (sched boot_blocks)" "cpus (lk_sched waited_locks) = cpus (sched boot_blocks)"
    unfolding lk by (simp_all add: no_waits_def)
  obtain rq sl where "sched_ok (sched boot_blocks) rq sl"
    using machine_okD(2) [OF mach.reach_inv [OF boot_blocks_reach]] by (auto simp: sched_good_def)
  then have "sched_ok ?s rq sl" by (simp add: sched_ok_no_waits)
  then have "sched_ok (upd_thread 1 ?f ?s) rq sl" by (rule sched_ok_upd_view) (simp add: sched_view_def links_kept_def)
  then show "sched_good (lk_sched waited_locks)" unfolding lk by (rule sched_goodI)
qed

subsection \<open>Mutual exclusion\<close>

text \<open>C29. In every run of the mutexes, whatever the scheduler does to the threads in between, at most one thread
  is between acquiring and releasing a mutex and the mutex's owner field names it; the wait chain of a mutex
  is a finite list without repetition that holds exactly the threads waiting for it, apart from one that
  has been handed the ownership; and a mutex without owner has nobody waiting.\<close>

theorem mutex_exclusive:
  assumes "reach lock_start lock_step (k, held)"
  shows "((m, t) \<in> held \<and> (m, u) \<in> held \<longrightarrow> t = u) \<and> ((m, t) \<in> held \<longrightarrow> m_owner (mutexes k m) = Some t) \<and>
    (\<exists>ws. path (wnext k) (wait_head (mutexes k m)) ws \<and> distinct ws \<and> (m_owner (mutexes k m) = None \<longrightarrow> ws = []) \<and>
      (\<forall>w. w \<in> set ws \<longleftrightarrow> waits k w = Some m \<and> m_owner (mutexes k m) \<noteq> Some w))"
proof -
  have inv: "locks_inv (k, held)" by (rule mutexes.reach_inv [OF assms])
  then obtain ws where ok: "mutex_ok k m ws" by auto
  have p: "path (wnext k) (wait_head (mutexes k m)) ws" using mutex_okD(1) [OF ok] by (simp add: chain_of_def)
  have "\<forall>w. w \<in> set ws \<longleftrightarrow> waits k w = Some m \<and> m_owner (mutexes k m) \<noteq> Some w" using mutex_okD(2) [OF ok] by blast
  with p path_distinct [OF p] mutex_okD(3) [OF ok]
  have R: "\<exists>ws. path (wnext k) (wait_head (mutexes k m)) ws \<and> distinct ws \<and> (m_owner (mutexes k m) = None \<longrightarrow> ws = []) \<and>
      (\<forall>w. w \<in> set ws \<longleftrightarrow> waits k w = Some m \<and> m_owner (mutexes k m) \<noteq> Some w)" by (intro exI [of _ ws] conjI impI) assumption+
  have H: "m_owner (mutexes k m) = Some x" if "(m, x) \<in> held" for x using heldD [OF inv that] by blast
  have A: "(m, t) \<in> held \<and> (m, u) \<in> held \<longrightarrow> t = u" using H [of t] H [of u] by auto
  have B: "(m, t) \<in> held \<longrightarrow> m_owner (mutexes k m) = Some t" using H [of t] by simp
  show ?thesis by (intro conjI A B R)
qed

theorem mutex_exclusive_witness:
  "reach lock_start lock_step (waited_locks, {(7, 2)}) \<and> m_owner (mutexes waited_locks 7) = Some 2 \<and>
   (\<exists>ws. path (wnext waited_locks) (wait_head (mutexes waited_locks 7)) ws \<and> set ws = {1})"
proof -
  note X = mutex_exclusive [OF waited_reach, of 7 2 2]
  from conjunct2 [OF conjunct2 [OF X]] obtain ws where
      p: "path (wnext waited_locks) (wait_head (mutexes waited_locks 7)) ws" and
      mem: "\<forall>w. w \<in> set ws \<longleftrightarrow> waits waited_locks w = Some 7 \<and> m_owner (mutexes waited_locks 7) \<noteq> Some w"
    by (elim exE conjE) (rule that)
  have "(w \<in> set ws) = (w = 1)" for w using spec [OF mem, of w] by (simp add: waited_facts)
  then have "set ws = {1}" by auto
  moreover have "m_owner (mutexes waited_locks 7) = Some 2" using conjunct1 [OF conjunct2 [OF X]] by simp
  ultimately show ?thesis using p waited_reach by (intro conjI exI [of _ ws])
qed



end
