(* ===== verification/Calendar.thy ===== *)
theory Calendar
  imports Words
begin

section \<open>Civil time\<close>

text \<open>
  \<^verbatim>\<open>libc/src/time_convert.c\<close> (the conversion between a UTC calendar and seconds from the Mangrove epoch,
  2000-01-01), \<^verbatim>\<open>kernel/src/rtc_decode.c\<close> (the decoding of the CMOS clock's registers) and
  \<^verbatim>\<open>kernel/src/timekeeping.c\<close> (the realtime clock that advances from the monotonic one). Signed 64-bit and
  32-bit quantities are integers: the years are 32-bit and every intermediate value stays far inside 64
  bits, except where the source checks a limit, which is written out. Division is the truncating division
  of C. Reading the CMOS ports is I/O: the registers are an argument.
\<close>

subsection \<open>Calendar and seconds\<close>

definition c_div :: "int \<Rightarrow> int \<Rightarrow> int" where "c_div a b = (if a < 0 then - ((- a) div b) else a div b)"
definition c_mod :: "int \<Rightarrow> int \<Rightarrow> int" where "c_mod a b = a - b * c_div a b"

definition MG_SECONDS_PER_MINUTE :: int where "MG_SECONDS_PER_MINUTE = 60"
definition MG_SECONDS_PER_HOUR :: int where "MG_SECONDS_PER_HOUR = 60 * MG_SECONDS_PER_MINUTE"
definition MG_SECONDS_PER_DAY :: int where "MG_SECONDS_PER_DAY = 24 * MG_SECONDS_PER_HOUR"
definition MG_EPOCH_SERIAL :: int where "MG_EPOCH_SERIAL = 730425"
definition MG_I64_MAX :: int where "MG_I64_MAX = 0x7fffffffffffffff"
definition MG_I64_MIN :: int where "MG_I64_MIN = - 0x7fffffffffffffff - 1"
definition MG_TIME_NANOSECONDS_PER_SEC :: int where "MG_TIME_NANOSECONDS_PER_SEC = 1000000000"

record mg_calendar_time =
  year :: int
  month :: int
  day :: int
  hour :: int
  minute :: int
  second :: int
  cal_nanoseconds :: int

record mg_mangrove_time =
  seconds :: int
  nanoseconds :: int

definition civil_serial :: "int \<Rightarrow> int \<Rightarrow> int \<Rightarrow> int" where
  "civil_serial y m d = (let adjusted_year = y - (if m \<le> 2 then 1 else 0);
      era = c_div (if adjusted_year \<ge> 0 then adjusted_year else adjusted_year - 399) 400;
      year_of_era = adjusted_year - era * 400;
      month_prime = m + (if m > 2 then - 3 else 9);
      day_of_year = c_div (153 * month_prime + 2) 5 + d - 1;
      day_of_era = year_of_era * 365 + c_div year_of_era 4 - c_div year_of_era 100 + day_of_year
    in era * 146097 + day_of_era)"

definition leap_year :: "int \<Rightarrow> bool" where
  "leap_year y \<longleftrightarrow> c_mod y 4 = 0 \<and> (c_mod y 100 \<noteq> 0 \<or> c_mod y 400 = 0)"

definition days_in_month :: "int \<Rightarrow> int \<Rightarrow> int" where
  "days_in_month y m = (if m = 2 \<and> leap_year y then 29 else [31, 28, 31, 30, 31, 30, 31, 31, 30, 31, 30, 31] ! nat (m - 1))"

definition calendar_valid :: "mg_calendar_time \<Rightarrow> bool" where
  "calendar_valid c \<longleftrightarrow> 1 \<le> month c \<and> month c \<le> 12 \<and> 1 \<le> day c \<and> day c \<le> days_in_month (year c) (month c) \<and>
     hour c \<le> 23 \<and> minute c \<le> 59 \<and> second c \<le> 59 \<and> cal_nanoseconds c < MG_TIME_NANOSECONDS_PER_SEC"

definition serial_to_calendar :: "int \<Rightarrow> (int \<times> int \<times> int) option" where
  "serial_to_calendar z = (let era = c_div (if z \<ge> 0 then z else z - 146096) 146097;
      day_of_era = z - era * 146097;
      year_of_era = c_div (day_of_era - c_div day_of_era 1460 + c_div day_of_era 36524 - c_div day_of_era 146096) 365;
      y = year_of_era + era * 400;
      day_of_year = day_of_era - (365 * year_of_era + c_div year_of_era 4 - c_div year_of_era 100);
      month_prime = c_div (5 * day_of_year + 2) 153;
      d = day_of_year - c_div (153 * month_prime + 2) 5 + 1;
      m = month_prime + (if month_prime < 10 then 3 else - 9);
      y' = y + (if m \<le> 2 then 1 else 0)
    in if y' < - 0x80000000 \<or> y' > 0x7fffffff then None else Some (y', m, d))"

definition mangrove_time_from_calendar :: "mg_calendar_time \<Rightarrow> mg_status + mg_mangrove_time" where
  "mangrove_time_from_calendar c =
     (if \<not> calendar_valid c then Inl MG_ERR_BAD_ARGUMENT
      else let days = civil_serial (year c) (month c) (day c) - MG_EPOCH_SERIAL in
        if days > c_div MG_I64_MAX MG_SECONDS_PER_DAY \<or> days < c_div MG_I64_MIN MG_SECONDS_PER_DAY then Inl MG_ERR_BAD_ARGUMENT
        else Inr \<lparr>seconds = days * MG_SECONDS_PER_DAY + hour c * MG_SECONDS_PER_HOUR + minute c * MG_SECONDS_PER_MINUTE + second c,
          nanoseconds = cal_nanoseconds c\<rparr>)"

definition mangrove_time_to_calendar :: "mg_mangrove_time \<Rightarrow> mg_status + mg_calendar_time" where
  "mangrove_time_to_calendar t =
     (if nanoseconds t \<ge> MG_TIME_NANOSECONDS_PER_SEC then Inl MG_ERR_BAD_ARGUMENT
      else let days0 = c_div (seconds t) MG_SECONDS_PER_DAY; remainder0 = c_mod (seconds t) MG_SECONDS_PER_DAY;
        (days, remainder) = (if remainder0 < 0 then (days0 - 1, remainder0 + MG_SECONDS_PER_DAY) else (days0, remainder0))
      in case serial_to_calendar (days + MG_EPOCH_SERIAL) of None \<Rightarrow> Inl MG_ERR_BAD_ARGUMENT
        | Some (y, m, d) \<Rightarrow> let rest = c_mod remainder MG_SECONDS_PER_HOUR in
            Inr \<lparr>year = y, month = m, day = d, hour = c_div remainder MG_SECONDS_PER_HOUR,
              minute = c_div rest MG_SECONDS_PER_MINUTE, second = c_mod rest MG_SECONDS_PER_MINUTE, cal_nanoseconds = nanoseconds t\<rparr>)"

definition mangrove_time_to_unix :: "mg_mangrove_time \<Rightarrow> mg_status + mg_mangrove_time" where
  "mangrove_time_to_unix t = (if nanoseconds t \<ge> MG_TIME_NANOSECONDS_PER_SEC then Inl MG_ERR_BAD_ARGUMENT
     else Inr \<lparr>seconds = seconds t, nanoseconds = nanoseconds t\<rparr>)"

definition unix_time_to_mangrove :: "mg_mangrove_time \<Rightarrow> mg_status + mg_mangrove_time" where
  "unix_time_to_mangrove t = (if nanoseconds t \<ge> MG_TIME_NANOSECONDS_PER_SEC then Inl MG_ERR_BAD_ARGUMENT
     else Inr \<lparr>seconds = seconds t, nanoseconds = nanoseconds t\<rparr>)"

subsection \<open>The CMOS clock\<close>

record rtc_register_sample =
  r_seconds :: u8
  r_minutes :: u8
  r_hours :: u8
  r_day :: u8
  r_month :: u8
  r_year :: u8
  r_century :: u8
  r_status_b :: u8
  r_century_valid :: bool

definition rtc_is_leap_year :: "int \<Rightarrow> bool" where
  "rtc_is_leap_year y \<longleftrightarrow> c_mod y 4 = 0 \<and> (c_mod y 100 \<noteq> 0 \<or> c_mod y 400 = 0)"

definition rtc_days_in_month :: "int \<Rightarrow> u8 \<Rightarrow> u8" where
  "rtc_days_in_month y m = (if m = 2 \<and> rtc_is_leap_year y then 29 else [31, 28, 31, 30, 31, 30, 31, 31, 30, 31, 30, 31] ! unat (m - 1))"

definition rtc_decode_bcd :: "u8 \<Rightarrow> u8 option" where
  "rtc_decode_bcd v = (let low = v AND 0x0f; high = drop_bit 4 v AND 0x0f in if low > 9 \<or> high > 9 then None else Some (high * 10 + low))"

definition rtc_decode_value :: "u8 \<Rightarrow> bool \<Rightarrow> u8 option" where
  "rtc_decode_value v binary = (if binary then Some v else rtc_decode_bcd v)"

text \<open>The 12-hour clock: noon and midnight are 12, and bit 7 of the register says afternoon.\<close>

definition rtc_hours :: "bool \<Rightarrow> bool \<Rightarrow> u8 \<Rightarrow> u8 option" where
  "rtc_hours twenty_four_hour pm hours =
     (if twenty_four_hour then Some hours
      else if hours < 1 \<or> hours > 12 then None
      else let h = (if hours = 12 then 0 else hours) in Some (if pm then h + 12 else h))"

definition rtc_full_year :: "rtc_register_sample \<Rightarrow> bool \<Rightarrow> u8 \<Rightarrow> int option" where
  "rtc_full_year s binary y =
     (if r_century_valid s then map_option (\<lambda>c. int (unat c) * 100 + int (unat y)) (rtc_decode_value (r_century s) binary)
      else Some ((if y < 70 then 2000 else 1900) + int (unat y)))"

definition rtc_calendar :: "int \<Rightarrow> u8 \<Rightarrow> u8 \<Rightarrow> u8 \<Rightarrow> u8 \<Rightarrow> u8 \<Rightarrow> mg_calendar_time" where
  "rtc_calendar y mo d h mi s = \<lparr>year = y, month = int (unat mo), day = int (unat d), hour = int (unat h),
     minute = int (unat mi), second = int (unat s), cal_nanoseconds = 0\<rparr>"

definition rtc_decode_sample :: "rtc_register_sample \<Rightarrow> mg_calendar_time option" where
  "rtc_decode_sample s = (let binary = (r_status_b s AND push_bit 2 1 \<noteq> 0); twenty_four_hour = (r_status_b s AND push_bit 1 1 \<noteq> 0) in
     case (rtc_decode_value (r_seconds s) binary, rtc_decode_value (r_minutes s) binary,
       rtc_decode_value (r_hours s AND (if twenty_four_hour then 0xff else 0x7f)) binary, rtc_decode_value (r_day s) binary,
       rtc_decode_value (r_month s) binary, rtc_decode_value (r_year s) binary) of
       (Some sec, Some mi, Some h0, Some d, Some mo, Some y) \<Rightarrow>
         (case (rtc_hours twenty_four_hour (r_hours s AND 0x80 \<noteq> 0) h0, rtc_full_year s binary y) of
            (Some h, Some full_year) \<Rightarrow>
              if full_year < 1 \<or> mo < 1 \<or> mo > 12 \<or> d < 1 \<or> d > rtc_days_in_month full_year mo \<or>
                h > 23 \<or> mi > 59 \<or> sec > 59 then None
              else Some (rtc_calendar full_year mo d h mi sec)
          | _ \<Rightarrow> None)
     | _ \<Rightarrow> None)"

definition rtc_samples_equal :: "rtc_register_sample \<Rightarrow> rtc_register_sample \<Rightarrow> bool" where
  "rtc_samples_equal l r \<longleftrightarrow> r_seconds l = r_seconds r \<and> r_minutes l = r_minutes r \<and> r_hours l = r_hours r \<and> r_day l = r_day r \<and>
     r_month l = r_month r \<and> r_year l = r_year r \<and> r_century l = r_century r \<and> r_status_b l = r_status_b r \<and>
     r_century_valid l = r_century_valid r"

text \<open>\<open>reads i\<close> is what the \<open>i\<close>-th read of the registers delivers, \<^const>\<open>None\<close> when the update flag did not clear.\<close>

definition RTC_STABLE_RETRIES :: nat where "RTC_STABLE_RETRIES = 8"

primrec rtc_read_stable :: "nat \<Rightarrow> (nat \<Rightarrow> rtc_register_sample option) \<Rightarrow> nat \<Rightarrow> mg_calendar_time option" where
  "rtc_read_stable 0 reads i = None"
| "rtc_read_stable (Suc n) reads i =
     (case reads i of None \<Rightarrow> None
      | Some first \<Rightarrow> (case reads (i + 1) of None \<Rightarrow> None
          | Some again \<Rightarrow> if rtc_samples_equal first again then rtc_decode_sample first else rtc_read_stable n reads (i + 2)))"

definition rtc_read_calendar :: "(nat \<Rightarrow> rtc_register_sample option) \<Rightarrow> mg_calendar_time option" where
  "rtc_read_calendar reads = rtc_read_stable RTC_STABLE_RETRIES reads 0"

subsection \<open>The realtime clock\<close>

record timekeeping =
  realtime_sync :: mg_mangrove_time
  realtime_sync_monotonic_ms :: u64
  realtime_available :: bool

definition TIME_I64_MAX :: int where "TIME_I64_MAX = 0x7fffffffffffffff"

text \<open>\<open>rtc\<close> is what reading the clock returned and \<open>now\<close> the monotonic time; the boot identifier is not modelled.\<close>

definition timekeeping_init :: "mg_calendar_time option \<Rightarrow> u64 \<Rightarrow> timekeeping" where
  "timekeeping_init rtc now = (let k = \<lparr>realtime_sync = \<lparr>seconds = 0, nanoseconds = 0\<rparr>, realtime_sync_monotonic_ms = now,
      realtime_available = False\<rparr> in
     case rtc of None \<Rightarrow> k
     | Some c \<Rightarrow> (case mangrove_time_from_calendar (c\<lparr>cal_nanoseconds := 0\<rparr>) of Inl _ \<Rightarrow> k
         | Inr t \<Rightarrow> k\<lparr>realtime_sync := t, realtime_available := True\<rparr>))"

definition timekeeping_realtime :: "timekeeping \<Rightarrow> u64 \<Rightarrow> mg_mangrove_time option" where
  "timekeeping_realtime k now =
     (if \<not> realtime_available k then None
      else let elapsed_ms = now - realtime_sync_monotonic_ms k;
        elapsed_seconds = elapsed_ms div 1000;
        elapsed_nanoseconds = (ucast ((elapsed_ms mod 1000) * 1000000) :: u32)
      in if int (unat elapsed_seconds) > TIME_I64_MAX \<or>
            seconds (realtime_sync k) > TIME_I64_MAX - int (unat elapsed_seconds) then None
         else let s = seconds (realtime_sync k) + int (unat elapsed_seconds);
                  n = (nanoseconds (realtime_sync k) + int (unat elapsed_nanoseconds)) mod 2 ^ 32
           in if n \<ge> MG_TIME_NANOSECONDS_PER_SEC
              then if s = TIME_I64_MAX then None else Some \<lparr>seconds = s + 1, nanoseconds = n - MG_TIME_NANOSECONDS_PER_SEC\<rparr>
              else Some \<lparr>seconds = s, nanoseconds = n\<rparr>)"

subsection \<open>Years of a 400-year cycle\<close>

lemma c_div_nonneg [simp]: "0 \<le> a \<Longrightarrow> c_div a b = a div b"
  by (simp add: c_div_def)

lemma c_div_floor:
  assumes "0 < n" "t = n - 1"
  shows "c_div (if a \<ge> 0 then a else a - t) n = a div n"
proof (cases "a \<ge> 0")
  case False
  have "(n - 1 - a) div n = - (a div n)"
  proof (rule int_div_pos_eq)
    show "n - 1 - a = n * - (a div n) + (n - 1 - a mod n)" by (simp add: minus_mult_div_eq_mod [symmetric])
  qed (use assms pos_mod_bound [of n a] pos_mod_sign [of n a] in linarith)+
  then show ?thesis using False assms by (simp add: c_div_def)
qed simp

text \<open>Years of the cycle begin on 1 March, so the leap day is the last day of a year.\<close>

definition cycle_leap :: "int \<Rightarrow> bool" where
  "cycle_leap y \<longleftrightarrow> (y + 1) mod 4 = 0 \<and> ((y + 1) mod 100 \<noteq> 0 \<or> (y + 1) mod 400 = 0)"

definition year_length :: "int \<Rightarrow> int" where "year_length y = (if cycle_leap y then 366 else 365)"

definition day_in_cycle :: "int \<Rightarrow> int \<Rightarrow> int" where "day_in_cycle y k = y * 365 + y div 4 - y div 100 + k"

definition cycle_year :: "int \<Rightarrow> int" where
  "cycle_year n = (n - n div 1460 + n div 36524 - n div 146096) div 365"

lemma cycle_split:
  assumes "0 \<le> y" "y < 400"
  obtains a b c where "y = 100 * a + 4 * b + c" "0 \<le> a" "a \<le> 3" "0 \<le> b" "b \<le> 24" "0 \<le> c" "c \<le> (3 :: int)"
proof (rule that)
  show "y = 100 * (y div 100) + 4 * (y mod 100 div 4) + y mod 100 mod 4" by simp
qed (use assms in \<open>auto intro: pos_mod_bound\<close>)

lemma cycle_divs:
  assumes "0 \<le> a" "a \<le> 3" "0 \<le> b" "b \<le> 24" "0 \<le> c" "c \<le> (3 :: int)"
  shows "(100 * a + 4 * b + c) div 4 = 25 * a + b" "(100 * a + 4 * b + c) div 100 = a"
    "cycle_leap (100 * a + 4 * b + c) \<longleftrightarrow> c = 3 \<and> (b = 24 \<longrightarrow> a = 3)"
proof -
  show "(100 * a + 4 * b + c) div 4 = 25 * a + b" "(100 * a + 4 * b + c) div 100 = a" using assms by linarith+
  have small: "m mod n = 0 \<longleftrightarrow> m = n" if "0 < m" "m \<le> n" for m n :: int
    using that by (cases "m = n") simp_all
  have "(100 * a + 4 * b + c + 1) mod 4 = (c + 1 + (25 * a + b) * 4) mod 4" by (simp add: algebra_simps)
  then have "(100 * a + 4 * b + c + 1) mod 4 = 0 \<longleftrightarrow> c = 3"
    using small [of "c + 1" 4] assms unfolding mod_mult_self1 by linarith
  moreover have "(100 * a + 4 * b + c + 1) mod 100 = (4 * b + c + 1 + a * 100) mod 100" by (simp add: algebra_simps)
  then have "(100 * a + 4 * b + c + 1) mod 100 = 0 \<longleftrightarrow> b = 24 \<and> c = 3"
    using small [of "4 * b + c + 1" 100] assms unfolding mod_mult_self1 by linarith
  moreover have "(100 * a + 4 * b + c + 1) mod 400 = 0 \<longleftrightarrow> a = 3 \<and> b = 24 \<and> c = 3"
    using small [of "100 * a + 4 * b + c + 1" 400] assms by linarith
  ultimately show "cycle_leap (100 * a + 4 * b + c) \<longleftrightarrow> c = 3 \<and> (b = 24 \<longrightarrow> a = 3)" by (auto simp: cycle_leap_def)
qed

lemma cycle_year_day:
  assumes "0 \<le> y" "y < 400" "0 \<le> k" "k < year_length y"
  shows "0 \<le> day_in_cycle y k" "day_in_cycle y k < 146097" "cycle_year (day_in_cycle y k) = y"
proof -
  obtain a b c where y: "y = 100 * a + 4 * b + c" and r: "0 \<le> a" "a \<le> 3" "0 \<le> b" "b \<le> 24" "0 \<le> c" "c \<le> 3"
    using cycle_split [OF assms(1,2)] .
  note D = cycle_divs [OF r]
  have k: "k \<le> 365" "k = 365 \<Longrightarrow> c = 3 \<and> (b = 24 \<longrightarrow> a = 3)"
    using assms(4) D(3) by (auto simp: year_length_def y split: if_splits)
  let ?n = "day_in_cycle y k"
  have n: "?n = 36524 * a + 1461 * b + 365 * c + k" unfolding day_in_cycle_def y D(1,2) by simp
  show "0 \<le> ?n" using n r assms(3) by simp
  have m: "1461 * b + 365 * c + k \<le> 36524" "1461 * b + 365 * c + k = 36524 \<Longrightarrow> a = 3"
    using r k by (smt (verit))+
  show lt: "?n < 146097" using n r m by linarith
  have "?n div 36524 - ?n div 146096 = a"
  proof (cases "?n = 146096")
    case True
    then have "a = 3" using n m r by linarith
    then show ?thesis using True by simp
  next
    case False
    then have "?n div 146096 = 0" using \<open>0 \<le> ?n\<close> lt by (intro div_pos_pos_trivial) linarith+
    moreover have "?n div 36524 = a" by (rule int_div_pos_eq [of _ _ _ "1461 * b + 365 * c + k"]) (use n m r assms(3) False in linarith)+
    ultimately show ?thesis by simp
  qed
  moreover have "?n div 1460 = 25 * a + b + (if 24 * a + b + 365 * c + k \<ge> 1460 then 1 else 0)"
    by (rule int_div_pos_eq [of _ _ _ "24 * a + b + 365 * c + k - (if 24 * a + b + 365 * c + k \<ge> 1460 then 1460 else 0)"])
      (use n r k(1) assms(3) in auto)
  ultimately have "?n - ?n div 1460 + ?n div 36524 - ?n div 146096 =
      365 * y + (k - (if 24 * a + b + 365 * c + k \<ge> 1460 then 1 else 0))" (is "_ = 365 * y + ?d")
    using n y by (simp add: algebra_simps split: if_splits)
  moreover have "0 \<le> ?d" "?d < 365" using r k assms(3) by (smt (verit))+
  ultimately show "cycle_year ?n = y" unfolding cycle_year_def by (intro int_div_pos_eq) auto
qed

lemma cycle_day_exists:
  assumes "0 \<le> n" "n < 146097"
  obtains y k where "n = day_in_cycle y k" "0 \<le> y" "y < 400" "0 \<le> k" "k < year_length y"
proof -
  define a where "a = (if n = 146096 then 3 else n div 36524)"
  define r where "r = n - 36524 * a"
  define b where "b = r div 1461"
  define q where "q = r - 1461 * b"
  define c where "c = (if q = 1460 then 3 else q div 365)"
  define k where "k = q - 365 * c"
  have a: "0 \<le> a" "a \<le> 3" using assms by (auto simp: a_def)
  have r: "0 \<le> r" "r \<le> 36524" "r = 36524 \<Longrightarrow> a = 3" using assms by (auto simp: a_def r_def)
  have b: "0 \<le> b" "b \<le> 24" using r by (auto simp: b_def)
  have q: "0 \<le> q" "q \<le> 1460" "b = 24 \<Longrightarrow> q = 1460 \<Longrightarrow> a = 3" using r by (auto simp: q_def b_def)
  have c: "0 \<le> c" "c \<le> 3" using q by (auto simp: c_def)
  have "k = q mod 365" if "q \<noteq> 1460" using that by (simp add: k_def c_def minus_mult_div_eq_mod)
  moreover have "k = 365 \<and> c = 3" if "q = 1460" using that by (simp add: k_def c_def)
  ultimately have k: "0 \<le> k" "k \<le> 365" "k = 365 \<Longrightarrow> q = 1460 \<and> c = 3"
    using pos_mod_bound [of 365 q] pos_mod_sign [of 365 q] by (cases "q = 1460"; simp)+
  note D = cycle_divs [OF a b c]
  have "n = day_in_cycle (100 * a + 4 * b + c) k"
    unfolding day_in_cycle_def D(1,2) by (simp add: k_def q_def r_def)
  moreover have "k < year_length (100 * a + 4 * b + c)" using k q(3) D(3) by (auto simp: year_length_def)
  ultimately show thesis using a b c k(1) by (intro that [of "100 * a + 4 * b + c" k]) auto
qed

subsection \<open>Months and days\<close>

definition month_length :: "int \<Rightarrow> int" where
  "month_length mp = [31, 30, 31, 30, 31, 31, 30, 31, 30, 31, 31, 29] ! nat mp"

lemma upto_12: "0 \<le> mp \<Longrightarrow> mp \<le> 11 \<Longrightarrow> mp \<in> {0, 1, 2, 3, 4, 5, 6, 7, 8, 9, 10, 11 :: int}"
  unfolding insert_iff empty_iff by presburger

lemma month_of_day:
  assumes "0 \<le> mp" "mp \<le> 11" "1 \<le> d" "d \<le> month_length mp"
  shows "(5 * ((153 * mp + 2) div 5 + d - 1) + 2) div 153 = mp" "0 \<le> (153 * mp + 2) div 5 + d - 1"
    "(153 * mp + 2) div 5 + d - 1 < (if mp = 11 \<and> d = 29 then 366 else 365)"
  using upto_12 [OF assms(1,2)] assms(3,4) by (elim insertE emptyE; simp add: month_length_def)+

lemma month_exists:
  assumes "0 \<le> k" "k < 366"
  defines "mp \<equiv> (5 * k + 2) div 153"
  shows "0 \<le> mp" "mp \<le> 11" "1 \<le> k - (153 * mp + 2) div 5 + 1" "k - (153 * mp + 2) div 5 + 1 \<le> month_length mp"
    "mp = 11 \<Longrightarrow> k - (153 * mp + 2) div 5 + 1 = 29 \<Longrightarrow> k = 365"
proof -
  show r: "0 \<le> mp" "mp \<le> 11" using assms by (auto simp: mp_def)
  have b: "153 * mp \<le> 5 * k + 2" "5 * k + 2 < 153 * mp + 153" unfolding mp_def by linarith+
  show "1 \<le> k - (153 * mp + 2) div 5 + 1" using b(1) by linarith
  show "k - (153 * mp + 2) div 5 + 1 \<le> month_length mp" "mp = 11 \<Longrightarrow> k - (153 * mp + 2) div 5 + 1 = 29 \<Longrightarrow> k = 365"
    using upto_12 [OF r] b assms(2) by (elim insertE emptyE; simp add: month_length_def)+
qed

lemma c_mod_zero: "c_mod y n = 0 \<longleftrightarrow> n dvd y"
proof -
  have "(- y) div n * n = - y \<longleftrightarrow> n dvd y" using dvd_div_mult_self [of n "- y"] by (metis dvd_minus_iff dvd_triv_right)
  moreover have "y div n * n = y \<longleftrightarrow> n dvd y" using dvd_div_mult_self by (metis dvd_triv_right)
  ultimately show ?thesis by (auto simp: c_mod_def c_div_def algebra_simps)
qed

lemma leap_cycle: "leap_year (y + 1) \<longleftrightarrow> cycle_leap (y mod 400)"
proof -
  have *: "(y mod 400 + 1) mod n = (y + 1) mod n" if "n dvd 400" for n :: int
  proof -
    have "(y mod 400 + 1) mod n = (y mod 400 mod n + 1) mod n" by (rule mod_add_left_eq [symmetric])
    also have "\<dots> = (y mod n + 1) mod n" using that by (simp only: mod_mod_cancel)
    finally show ?thesis by (simp only: mod_add_left_eq)
  qed
  have "(y mod 400 + 1) mod 4 = (y + 1) mod 4" "(y mod 400 + 1) mod 100 = (y + 1) mod 100" "(y mod 400 + 1) mod 400 = (y + 1) mod 400"
    by (rule *; simp)+
  then show ?thesis unfolding leap_year_def cycle_leap_def c_mod_zero dvd_eq_mod_eq_0 by (simp only:)
qed

text \<open>A month of the calendar and its place in the year that begins in March.\<close>

definition month_prime :: "int \<Rightarrow> int" where "month_prime m = m + (if m > 2 then - 3 else 9)"

definition march_year :: "int \<Rightarrow> int \<Rightarrow> int" where "march_year y m = y - (if m \<le> 2 then 1 else 0)"

lemma days_in_month_prime:
  assumes "1 \<le> m" "m \<le> 12"
  shows "0 \<le> month_prime m" "month_prime m \<le> 11" "m = month_prime m + (if month_prime m < 10 then 3 else - 9)"
    "d \<le> days_in_month y m \<longleftrightarrow> d \<le> month_length (month_prime m) \<and> (month_prime m = 11 \<and> d = 29 \<longrightarrow> leap_year y)"
proof -
  have "m - 1 \<in> {0, 1, 2, 3, 4, 5, 6, 7, 8, 9, 10, 11}" by (rule upto_12) (use assms in auto)
  then have m: "m \<in> {1, 2, 3, 4, 5, 6, 7, 8, 9, 10, 11, 12}" by auto
  show "0 \<le> month_prime m" "month_prime m \<le> 11" "m = month_prime m + (if month_prime m < 10 then 3 else - 9)"
    using assms by (auto simp: month_prime_def)
  show "d \<le> days_in_month y m \<longleftrightarrow> d \<le> month_length (month_prime m) \<and> (month_prime m = 11 \<and> d = 29 \<longrightarrow> leap_year y)"
    using m by (elim insertE emptyE; auto simp: days_in_month_def month_prime_def month_length_def)
qed

lemma civil_serial_eq:
  assumes "1 \<le> m" "m \<le> 12"
  shows "civil_serial y m d = (march_year y m div 400) * 146097 +
    day_in_cycle (march_year y m mod 400) ((153 * month_prime m + 2) div 5 + d - 1)"
proof -
  let ?a = "march_year y m"
  have e: "c_div (if ?a \<ge> 0 then ?a else ?a - 399) 400 = ?a div 400" by (rule c_div_floor) simp_all
  have m: "?a - ?a div 400 * 400 = ?a mod 400" by (simp add: minus_div_mult_eq_mod)
  have "0 \<le> 153 * month_prime m + 2" using days_in_month_prime(1) [OF assms] by simp
  then show ?thesis
    unfolding civil_serial_def Let_def month_prime_def [symmetric] march_year_def [symmetric] e m
    by (simp add: day_in_cycle_def)
qed

lemma serial_to_calendar_eq:
  fixes era :: int
  assumes "0 \<le> y" "y < 400" "0 \<le> k" "k < year_length y"
  defines "mp \<equiv> (5 * k + 2) div 153"
  defines "m \<equiv> mp + (if mp < 10 then 3 else - 9)"
  defines "y' \<equiv> y + era * 400 + (if m \<le> 2 then 1 else 0)"
  shows "serial_to_calendar (era * 146097 + day_in_cycle y k) =
    (if y' < - 0x80000000 \<or> y' > 0x7fffffff then None else Some (y', m, k - (153 * mp + 2) div 5 + 1))"
proof -
  let ?n = "day_in_cycle y k" let ?z = "era * 146097 + ?n"
  note C = cycle_year_day [OF assms(1-4)]
  have "?z div 146097 = era" by (rule int_div_pos_eq [of _ _ _ ?n]) (use C in auto)
  then have zd: "?z div 146097 = era" .
  have e: "c_div (if ?z \<ge> 0 then ?z else ?z - 146096) 146097 = ?z div 146097" by (rule c_div_floor) simp_all
  have n: "?z - era * 146097 = ?n" by simp
  have "0 \<le> ?n - ?n div 1460 + ?n div 36524 - ?n div 146096" using C(1,2) by linarith
  then have yr: "c_div (?n - c_div ?n 1460 + c_div ?n 36524 - c_div ?n 146096) 365 = y"
    using C by (simp add: cycle_year_def)
  have k: "?n - (365 * y + c_div y 4 - c_div y 100) = k" using assms(1) by (simp add: day_in_cycle_def)
  have "0 \<le> mp" "0 \<le> 5 * k + 2" using assms(3) by (simp_all add: mp_def)
  then have mp: "c_div (5 * k + 2) 153 = mp" "c_div (153 * mp + 2) 5 = (153 * mp + 2) div 5" by (simp_all add: mp_def)
  show ?thesis unfolding serial_to_calendar_def Let_def e zd n yr k mp m_def [symmetric] y'_def by simp
qed

definition date_ok :: "int \<Rightarrow> int \<Rightarrow> int \<Rightarrow> bool" where
  "date_ok y m d \<longleftrightarrow> - 0x80000000 \<le> y \<and> y \<le> 0x7fffffff \<and> 1 \<le> m \<and> m \<le> 12 \<and> 1 \<le> d \<and> d \<le> days_in_month y m"

lemma civil_to_serial:
  assumes "date_ok y m d"
  shows "serial_to_calendar (civil_serial y m d) = Some (y, m, d)"
proof -
  let ?a = "march_year y m" and ?mp = "month_prime m"
  let ?k = "(153 * ?mp + 2) div 5 + d - 1"
  have m: "1 \<le> m" "m \<le> 12" "1 \<le> d" "d \<le> days_in_month y m" using assms by (auto simp: date_ok_def)
  note M = days_in_month_prime [OF m(1,2)]
  have dl: "d \<le> month_length ?mp" "?mp = 11 \<and> d = 29 \<Longrightarrow> leap_year y" using m(4) M(4) by auto
  note K = month_of_day [OF M(1,2) m(3) dl(1)]
  have "?k < year_length (?a mod 400)"
  proof (cases "?mp = 11 \<and> d = 29")
    case True
    then have "m = 2" using M(3) by auto
    then have "?a + 1 = y" by (simp add: march_year_def)
    then have "cycle_leap (?a mod 400)" using dl(2) [OF True] leap_cycle [of ?a] by simp
    then show ?thesis using K(3) True by (simp add: year_length_def)
  qed (use K(3) in \<open>auto simp: year_length_def\<close>)
  note S = serial_to_calendar_eq [of "?a mod 400" ?k "?a div 400", OF _ _ K(2) this]
  have "?a mod 400 + ?a div 400 * 400 + (if m \<le> 2 then 1 else 0) = y" by (simp add: march_year_def)
  then show ?thesis
    using S assms unfolding civil_serial_eq [OF m(1,2)] K(1) M(3) [symmetric] by (simp add: date_ok_def)
qed

lemma serial_to_civil:
  assumes "serial_to_calendar z = Some (y, m, d)"
  shows "date_ok y m d" "civil_serial y m d = z"
proof -
  obtain yy k where n: "z mod 146097 = day_in_cycle yy k" "0 \<le> yy" "yy < 400" "0 \<le> k" "k < year_length yy"
    using cycle_day_exists [of "z mod 146097"] by auto
  let ?mp = "(5 * k + 2) div 153" and ?era = "z div 146097"
  have "z = ?era * 146097 + day_in_cycle yy k" unfolding n(1) [symmetric] by simp
  then have eq: "m = ?mp + (if ?mp < 10 then 3 else - 9)" "y = yy + ?era * 400 + (if m \<le> 2 then 1 else 0)"
      "d = k - (153 * ?mp + 2) div 5 + 1" "- 0x80000000 \<le> y" "y \<le> 0x7fffffff"
    using assms serial_to_calendar_eq [OF n(2-5), of ?era] by (auto split: if_splits)
  have k: "k < 366" using n(5) by (auto simp: year_length_def split: if_splits)
  note K = month_exists [OF n(4) k]
  have m: "1 \<le> m" "m \<le> 12" and mp: "month_prime m = ?mp" using K(1,2) eq(1) by (auto simp: month_prime_def split: if_splits)
  have a: "march_year y m = yy + ?era * 400" using eq(2) by (simp add: march_year_def)
  then have ad: "march_year y m mod 400 = yy" "march_year y m div 400 = ?era" using n(2,3) by simp_all
  have L: "leap_year y" if "?mp = 11" "d = 29"
  proof -
    have "k = 365" using K(5) that eq(3) by simp
    then have "cycle_leap yy" using n(5) by (auto simp: year_length_def split: if_splits)
    moreover have "m = 2" using that(1) eq(1) by simp
    then have "y = march_year y m + 1" by (simp add: march_year_def)
    ultimately show ?thesis using leap_cycle [of "march_year y m"] ad(1) by simp
  qed
  have "d \<le> days_in_month y m" unfolding days_in_month_prime(4) [OF m] mp using L K(4) [folded eq(3)] by blast
  then show "date_ok y m d" using m eq(3-5) K(3) by (simp add: date_ok_def)
  show "civil_serial y m d = z" unfolding civil_serial_eq [OF m] ad mp using \<open>z = _\<close> eq(3) by simp
qed

text \<open>The values the C types can hold.\<close>

definition calendar_typed :: "mg_calendar_time \<Rightarrow> bool" where
  "calendar_typed c \<longleftrightarrow> - 0x80000000 \<le> year c \<and> year c \<le> 0x7fffffff \<and> 0 \<le> hour c \<and> 0 \<le> minute c \<and> 0 \<le> second c \<and>
     0 \<le> cal_nanoseconds c"

lemma civil_serial_bound:
  assumes "date_ok y m d"
  shows "\<bar>civil_serial y m d\<bar> < 800000000000"
proof -
  have m: "1 \<le> m" "m \<le> 12" "1 \<le> d" "d \<le> days_in_month y m" using assms by (auto simp: date_ok_def)
  note M = days_in_month_prime [OF m(1,2)]
  have "d \<le> month_length (month_prime m)" using m(4) M(4) by auto
  note K = month_of_day [OF M(1,2) m(3) this]
  have k: "0 \<le> (153 * month_prime m + 2) div 5 + d - 1" "(153 * month_prime m + 2) div 5 + d - 1 \<le> 365"
    using K(2,3) by (auto split: if_splits)
  let ?a = "march_year y m"
  have a: "- 2147483649 \<le> ?a" "?a \<le> 2147483647" using assms by (auto simp: march_year_def date_ok_def)
  have "day_in_cycle (?a mod 400) ((153 * month_prime m + 2) div 5 + d - 1) \<in> {0..150000}"
    unfolding day_in_cycle_def using k pos_mod_bound [of 400 ?a] pos_mod_sign [of 400 ?a] by simp
  moreover have "- 5368710 \<le> ?a div 400" "?a div 400 \<le> 5368709" using a by linarith+
  ultimately show ?thesis unfolding civil_serial_eq [OF m(1,2)] abs_less_iff by auto
qed

lemma from_calendar_ok:
  assumes "calendar_valid c" "calendar_typed c"
  shows "mangrove_time_from_calendar c = Inr \<lparr>seconds = (civil_serial (year c) (month c) (day c) - MG_EPOCH_SERIAL) * MG_SECONDS_PER_DAY +
    hour c * MG_SECONDS_PER_HOUR + minute c * MG_SECONDS_PER_MINUTE + second c, nanoseconds = cal_nanoseconds c\<rparr>"
    "date_ok (year c) (month c) (day c)"
proof -
  show d: "date_ok (year c) (month c) (day c)" using assms by (simp add: calendar_valid_def calendar_typed_def date_ok_def)
  show "mangrove_time_from_calendar c = Inr \<lparr>seconds = (civil_serial (year c) (month c) (day c) - MG_EPOCH_SERIAL) * MG_SECONDS_PER_DAY +
    hour c * MG_SECONDS_PER_HOUR + minute c * MG_SECONDS_PER_MINUTE + second c, nanoseconds = cal_nanoseconds c\<rparr>"
    using assms(1) civil_serial_bound [OF d] unfolding abs_less_iff
    by (simp add: mangrove_time_from_calendar_def Let_def c_div_def MG_I64_MAX_def MG_I64_MIN_def MG_SECONDS_PER_DAY_def
      MG_SECONDS_PER_HOUR_def MG_SECONDS_PER_MINUTE_def MG_EPOCH_SERIAL_def)
qed

text \<open>The broken-down time of a number of seconds, with the floor division that the correction of a negative
  remainder amounts to.\<close>

lemma c_divmod_floor:
  assumes "0 < n"
  shows "(if c_mod a n < 0 then (c_div a n - 1, c_mod a n + n) else (c_div a n, c_mod a n)) = (a div n, a mod n)"
proof (cases "a < 0")
  case True
  have m: "a mod n = (if (- a) mod n = 0 then 0 else n - (- a) mod n)" by (simp add: zmod_zminus1_eq_if [of "- a" n, simplified])
  have d: "a div n = (if (- a) mod n = 0 then - ((- a) div n) else - ((- a) div n) - 1)"
    using assms by (simp add: zdiv_zminus1_eq_if [of n "- a", simplified])
  have c: "c_div a n = - ((- a) div n)" "c_mod a n = - ((- a) mod n)"
    using True minus_mult_div_eq_mod [of "- a" n] by (simp_all add: c_mod_def c_div_def)
  show ?thesis using pos_mod_sign [OF assms, of "- a"] unfolding c m d by auto
next
  case False
  then have "c_mod a n = a mod n" by (simp add: c_mod_def minus_mult_div_eq_mod)
  then show ?thesis using False pos_mod_sign [OF assms, of a] by simp
qed

lemma to_calendar_eq:
  assumes "nanoseconds t < MG_TIME_NANOSECONDS_PER_SEC"
  shows "mangrove_time_to_calendar t = (case serial_to_calendar (seconds t div 86400 + MG_EPOCH_SERIAL) of None \<Rightarrow> Inl MG_ERR_BAD_ARGUMENT
    | Some (y, m, d) \<Rightarrow> Inr \<lparr>year = y, month = m, day = d, hour = seconds t mod 86400 div 3600,
        minute = seconds t mod 86400 mod 3600 div 60, second = seconds t mod 86400 mod 3600 mod 60, cal_nanoseconds = nanoseconds t\<rparr>)"
proof -
  have r: "c_mod (seconds t mod 86400) 3600 = seconds t mod 86400 mod 3600"
    "c_mod (seconds t mod 86400 mod 3600) 60 = seconds t mod 86400 mod 3600 mod 60"
    by (simp_all add: c_mod_def minus_mult_div_eq_mod)
  have k: "MG_SECONDS_PER_DAY = 86400" "MG_SECONDS_PER_HOUR = 3600" "MG_SECONDS_PER_MINUTE = 60"
    by (simp_all add: MG_SECONDS_PER_DAY_def MG_SECONDS_PER_HOUR_def MG_SECONDS_PER_MINUTE_def)
  have dm: "(if c_mod (seconds t) 86400 < 0 then (c_div (seconds t) 86400 - 1, c_mod (seconds t) 86400 + 86400)
      else (c_div (seconds t) 86400, c_mod (seconds t) 86400)) = (seconds t div 86400, seconds t mod 86400)"
    by (rule c_divmod_floor) simp
  from assms show ?thesis
    unfolding mangrove_time_to_calendar_def k Let_def dm prod.case r
    by (simp add: c_div_nonneg cong: option.case_cong split del: if_split)
qed

lemma clock_parts:
  assumes "0 \<le> h" "h \<le> 23" "0 \<le> mi" "mi \<le> 59" "0 \<le> s" "s \<le> (59 :: int)"
  shows "(dd * 86400 + h * 3600 + mi * 60 + s) div 86400 = dd"
    "(dd * 86400 + h * 3600 + mi * 60 + s) mod 86400 div 3600 = h"
    "(dd * 86400 + h * 3600 + mi * 60 + s) mod 86400 mod 3600 div 60 = mi"
    "(dd * 86400 + h * 3600 + mi * 60 + s) mod 86400 mod 3600 mod 60 = s"
proof -
  have eq: "dd * 86400 + h * 3600 + mi * 60 + s = (h * 3600 + mi * 60 + s) + 86400 * dd" by simp
  have b: "0 \<le> h * 3600 + mi * 60 + s" "h * 3600 + mi * 60 + s < 86400" "0 \<le> mi * 60 + s" "mi * 60 + s < 3600" using assms by linarith+
  have m: "(dd * 86400 + h * 3600 + mi * 60 + s) mod 86400 = (mi * 60 + s) + 3600 * h"
    unfolding eq mod_mult_self2 using b by simp
  show "(dd * 86400 + h * 3600 + mi * 60 + s) div 86400 = dd" unfolding eq using b by simp
  show "(dd * 86400 + h * 3600 + mi * 60 + s) mod 86400 div 3600 = h" unfolding m using b by simp
  have n: "((mi * 60 + s) + 3600 * h) mod 3600 = s + 60 * mi" unfolding mod_mult_self2 using b by simp
  show "(dd * 86400 + h * 3600 + mi * 60 + s) mod 86400 mod 3600 div 60 = mi"
    "(dd * 86400 + h * 3600 + mi * 60 + s) mod 86400 mod 3600 mod 60 = s" unfolding m n using assms by simp_all
qed

lemma from_to_calendar:
  assumes "calendar_valid c" "calendar_typed c" "mangrove_time_from_calendar c = Inr t"
  shows "mangrove_time_to_calendar t = Inr c"
proof -
  note F = from_calendar_ok [OF assms(1,2)]
  note T = sum.inject(2) [THEN iffD1, OF assms(3) [symmetric, unfolded F(1)]]
  have t: "seconds t = (civil_serial (year c) (month c) (day c) - MG_EPOCH_SERIAL) * 86400 + hour c * 3600 + minute c * 60 + second c"
    "nanoseconds t = cal_nanoseconds c"
    by (simp_all only: T mg_mangrove_time.select_convs MG_SECONDS_PER_DAY_def MG_SECONDS_PER_HOUR_def MG_SECONDS_PER_MINUTE_def)
  have r: "0 \<le> hour c" "hour c \<le> 23" "0 \<le> minute c" "minute c \<le> 59" "0 \<le> second c" "second c \<le> 59"
    using assms(1,2) by (auto simp: calendar_valid_def calendar_typed_def)
  have n: "nanoseconds t < MG_TIME_NANOSECONDS_PER_SEC" using assms(1) by (simp add: t(2) calendar_valid_def)
  show ?thesis unfolding to_calendar_eq [OF n] t clock_parts [OF r] diff_add_cancel civil_to_serial [OF F(2)] by simp
qed

lemma clock_bounds:
  "0 \<le> x mod 86400 div 3600" "x mod 86400 div 3600 \<le> 23" "0 \<le> x mod 86400 mod 3600 div 60"
  "x mod 86400 mod 3600 div 60 \<le> 59" "0 \<le> x mod 86400 mod 3600 mod 60" "x mod 86400 mod 3600 mod 60 \<le> (59 :: int)"
proof -
  have "0 \<le> x mod 86400" "x mod 86400 < 86400" by simp_all
  then show "0 \<le> x mod 86400 div 3600" "x mod 86400 div 3600 \<le> 23" by linarith+
  have "0 \<le> x mod 86400 mod 3600" "x mod 86400 mod 3600 < 3600" by simp_all
  then show "0 \<le> x mod 86400 mod 3600 div 60" "x mod 86400 mod 3600 div 60 \<le> 59" by linarith+
  have "0 \<le> x mod 86400 mod 3600 mod 60" "x mod 86400 mod 3600 mod 60 < 60" by simp_all
  then show "0 \<le> x mod 86400 mod 3600 mod 60" "x mod 86400 mod 3600 mod 60 \<le> 59" by linarith+
qed

lemma clock_sum:
  "x div 86400 * 86400 + x mod 86400 div 3600 * 3600 + x mod 86400 mod 3600 div 60 * 60 + x mod 86400 mod 3600 mod 60 = (x :: int)"
  by (simp only: add.assoc div_mult_mod_eq)

lemma to_from_calendar:
  assumes "0 \<le> nanoseconds t" "mangrove_time_to_calendar t = Inr c"
  shows "calendar_valid c" "calendar_typed c" "mangrove_time_from_calendar c = Inr t"
proof -
  have n: "nanoseconds t < MG_TIME_NANOSECONDS_PER_SEC"
    using assms(2) by (simp add: mangrove_time_to_calendar_def split: if_splits)
  obtain y m d where z: "serial_to_calendar (seconds t div 86400 + MG_EPOCH_SERIAL) = Some (y, m, d)"
    and c: "c = \<lparr>year = y, month = m, day = d, hour = seconds t mod 86400 div 3600,
        minute = seconds t mod 86400 mod 3600 div 60, second = seconds t mod 86400 mod 3600 mod 60, cal_nanoseconds = nanoseconds t\<rparr>"
    using assms(2) unfolding to_calendar_eq [OF n] by (auto split: option.splits)
  note D = serial_to_civil [OF z]
  have b: "0 \<le> seconds t mod 86400 div 3600" "seconds t mod 86400 div 3600 \<le> 23"
    "0 \<le> seconds t mod 86400 mod 3600 div 60" "seconds t mod 86400 mod 3600 div 60 \<le> 59"
    "0 \<le> seconds t mod 86400 mod 3600 mod 60" "seconds t mod 86400 mod 3600 mod 60 \<le> 59"
    by (rule clock_bounds)+
  have D': "- 0x80000000 \<le> y \<and> y \<le> 0x7fffffff \<and> 1 \<le> m \<and> m \<le> 12 \<and> 1 \<le> d \<and> d \<le> days_in_month y m"
    using D(1) unfolding date_ok_def .
  show v: "calendar_valid c" "calendar_typed c"
    unfolding c calendar_valid_def calendar_typed_def mg_calendar_time.select_convs by (intro conjI; (rule b n assms(1) D' D' [THEN conjunct1] | simp only: D'))+
  have k: "MG_SECONDS_PER_DAY = 86400" "MG_SECONDS_PER_HOUR = 3600" "MG_SECONDS_PER_MINUTE = 60"
    by (simp_all add: MG_SECONDS_PER_DAY_def MG_SECONDS_PER_HOUR_def MG_SECONDS_PER_MINUTE_def)
  have sel: "year c = y" "month c = m" "day c = d" "hour c = seconds t mod 86400 div 3600"
    "minute c = seconds t mod 86400 mod 3600 div 60" "second c = seconds t mod 86400 mod 3600 mod 60" "cal_nanoseconds c = nanoseconds t"
    unfolding c by (simp_all only: mg_calendar_time.select_convs)
  show "mangrove_time_from_calendar c = Inr t"
    unfolding from_calendar_ok(1) [OF v] sel D(2) add_diff_cancel_right' k clock_sum by simp
qed

subsection \<open>The clock\<close>

lemma rtc_month_days:
  assumes "1 \<le> uint m" "uint m \<le> 12"
  shows "uint (rtc_days_in_month y m) = days_in_month y (uint m)"
proof -
  have "uint m - 1 \<in> {0, 1, 2, 3, 4, 5, 6, 7, 8, 9, 10, 11}" by (rule upto_12) (use assms in auto)
  then have "uint m \<in> {1, 2, 3, 4, 5, 6, 7, 8, 9, 10, 11, 12}" by auto
  then have "m \<in> {1, 2, 3, 4, 5, 6, 7, 8, 9, 10, 11, 12}"
    by (elim insertE emptyE; simp add: word_eq_iff_unsigned [where 'a = int] del: of_int_eq_iff)
  then show ?thesis
    by (elim insertE emptyE; simp add: rtc_days_in_month_def days_in_month_def rtc_is_leap_year_def leap_year_def)
qed

lemma samples_equal_iff [simp]: "rtc_samples_equal l r \<longleftrightarrow> l = r"
  by (auto simp: rtc_samples_equal_def)

lemma read_calendar_sample:
  assumes "rtc_read_calendar reads = Some c"
  obtains i s where "reads i = Some s" "reads (i + 1) = Some s" "rtc_decode_sample s = Some c"
proof -
  have eq: "rtc_samples_equal l r \<longleftrightarrow> l = r" for l r by (auto simp: rtc_samples_equal_def)
  have "\<exists>i s. reads i = Some s \<and> reads (i + 1) = Some s \<and> rtc_decode_sample s = Some c" if "rtc_read_stable n reads j = Some c" for n j
    using that by (induction n arbitrary: j) (auto simp: eq split: option.splits if_splits)
  with assms show thesis using that by (auto simp: rtc_read_calendar_def)
qed

lemma rtc_sample_valid:
  assumes "rtc_decode_sample s = Some c"
  shows "calendar_valid c" "calendar_typed c" "1 \<le> year c" "year c \<le> 25755" "cal_nanoseconds c = 0"
proof -
  obtain y mo d h mi sec b x where c: "c = rtc_calendar y mo d h mi sec" "rtc_full_year s b x = Some y"
    and v: "\<not> (y < 1 \<or> mo < 1 \<or> mo > 12 \<or> d < 1 \<or> d > rtc_days_in_month y mo \<or> h > 23 \<or> mi > 59 \<or> sec > 59)"
    using assms by (auto simp: rtc_decode_sample_def Let_def split: option.splits if_splits)
  have dm: "uint (rtc_days_in_month y mo) = days_in_month y (uint mo)" if "1 \<le> uint mo" "uint mo \<le> 12"
    by (rule rtc_month_days [OF that])
  have u: "1 \<le> uint mo" "uint mo \<le> 12" "1 \<le> uint d" "uint h \<le> 23" "uint mi \<le> 59" "uint sec \<le> 59"
    using v unfolding word_less_def by simp_all
  have days: "uint d \<le> days_in_month y (uint mo)" using v dm [OF u(1,2)] by (simp add: word_less_def)
  have byte: "int (unat w) \<le> 255" for w :: u8 using unsigned_less [of w, where 'a = int] by simp
  have century: "int (unat w) * 100 + int (unat x) \<le> 25755" for w :: u8 using byte [of w] byte [of x] by linarith
  have "y \<le> 25755" using c(2) byte [of x] century by (auto simp: rtc_full_year_def split: if_splits)
  then show "calendar_valid c" "calendar_typed c" "1 \<le> year c" "year c \<le> 25755" "cal_nanoseconds c = 0"
    using v u days by (simp_all add: c(1) rtc_calendar_def calendar_valid_def calendar_typed_def MG_TIME_NANOSECONDS_PER_SEC_def not_less)
qed

text \<open>C31. A calendar and a time are converted into each other without loss: for every calendar whose fields are in
  range of their C types, the conversion to seconds gives a time exactly when the conversion of that time
  back gives the calendar, and every valid calendar (over the whole range of 32-bit years) has a time.\<close>

theorem calendar_roundtrip:
  assumes "calendar_typed c" "0 \<le> nanoseconds t"
  shows "(mangrove_time_from_calendar c = Inr t \<longleftrightarrow> mangrove_time_to_calendar t = Inr c) \<and>
    ((\<exists>t. mangrove_time_from_calendar c = Inr t) \<longleftrightarrow> calendar_valid c)"
proof (intro conjI iffI)
  assume "mangrove_time_from_calendar c = Inr t"
  then show "mangrove_time_to_calendar t = Inr c"
    using from_to_calendar [OF _ assms(1)] by (simp add: mangrove_time_from_calendar_def split: if_splits)
next
  assume "mangrove_time_to_calendar t = Inr c"
  then show "mangrove_time_from_calendar c = Inr t" by (rule to_from_calendar(3) [OF assms(2)])
next
  assume "\<exists>t. mangrove_time_from_calendar c = Inr t"
  then show "calendar_valid c" by (auto simp: mangrove_time_from_calendar_def split: if_splits)
next
  assume "calendar_valid c"
  then show "\<exists>t. mangrove_time_from_calendar c = Inr t" using from_calendar_ok(1) [OF _ assms(1)] by blast
qed

text \<open>A leap day before the epoch.\<close>

definition leap_day :: mg_calendar_time where
  "leap_day = \<lparr>year = 1600, month = 2, day = 29, hour = 23, minute = 59, second = 58, cal_nanoseconds = 7\<rparr>"

theorem calendar_roundtrip_witness:
  "mangrove_time_to_calendar \<lparr>seconds = - 12617596802, nanoseconds = 7\<rparr> = Inr leap_day"
proof -
  have "mangrove_time_from_calendar leap_day = Inr \<lparr>seconds = - 12617596802, nanoseconds = 7\<rparr>" by code_simp
  then show ?thesis
    using calendar_roundtrip [of leap_day "\<lparr>seconds = - 12617596802, nanoseconds = 7\<rparr>"]
    by (simp add: calendar_typed_def leap_day_def)
qed

lemma elapsed_parts:
  fixes w :: u64
  shows "int (unat (w div 1000)) = int (unat w) div 1000" "int (unat (w div 1000)) < 18446744073709552"
    "int (unat ((ucast ((w mod 1000) * 1000000)) :: u32)) = int (unat w) mod 1000 * 1000000"
proof -
  have d: "unat (w div 1000) = unat w div 1000" "unat (w mod 1000) = unat w mod 1000"
    by (simp_all add: unat_div_distrib unat_mod_distrib)
  then show "int (unat (w div 1000)) = int (unat w) div 1000" by (simp add: zdiv_int)
  have "unat w < 2 ^ 64" using unsigned_less [of w, where 'a = nat] by simp
  then have "unat w div 1000 < 18446744073709552" by simp
  then show "int (unat (w div 1000)) < 18446744073709552" unfolding d by linarith
  have b: "unat w mod 1000 * 1000000 < 1000000000" by simp
  then have "unat ((w mod 1000) * 1000000) = unat w mod 1000 * 1000000" by (simp add: unat_word_ariths d)
  then have "unat ((ucast ((w mod 1000) * 1000000)) :: u32) = unat w mod 1000 * 1000000"
    using b by (simp add: unsigned_ucast_eq take_bit_nat_eq_self)
  then show "int (unat ((ucast ((w mod 1000) * 1000000)) :: u32)) = int (unat w) mod 1000 * 1000000" by (simp add: zmod_int)
qed

text \<open>C32. The realtime clock follows the CMOS clock: when start-up obtains a calendar, it is one that two successive
  reads of the registers agreed on, the clock is available, and every later reading is the time of that
  calendar plus exactly the milliseconds the monotonic counter has advanced, whatever its value at boot.\<close>

theorem realtime_follows_rtc:
  assumes "rtc_read_calendar reads = Some c"
  shows "\<exists>i s t0. reads i = Some s \<and> reads (i + 1) = Some s \<and> rtc_decode_sample s = Some c \<and> mangrove_time_to_calendar t0 = Inr c \<and>
    timekeeping_realtime (timekeeping_init (Some c) boot) now = Some \<lparr>seconds = seconds t0 + int (unat (now - boot)) div 1000,
      nanoseconds = int (unat (now - boot)) mod 1000 * 1000000\<rparr>"
proof -
  obtain i s where s: "reads i = Some s" "reads (i + 1) = Some s" "rtc_decode_sample s = Some c"
    using assms by (rule read_calendar_sample)
  note V = rtc_sample_valid [OF s(3)]
  note F = from_calendar_ok [OF V(1,2)]
  define t0 where "t0 = \<lparr>seconds = (civil_serial (year c) (month c) (day c) - MG_EPOCH_SERIAL) * MG_SECONDS_PER_DAY +
    hour c * MG_SECONDS_PER_HOUR + minute c * MG_SECONDS_PER_MINUTE + second c, nanoseconds = cal_nanoseconds c\<rparr>"
  have f: "mangrove_time_from_calendar c = Inr t0" using F(1) by (simp only: t0_def)
  have c: "c\<lparr>cal_nanoseconds := 0\<rparr> = c" using V(5) by simp
  have n: "nanoseconds t0 = 0" by (simp add: t0_def V(5))
  have "hour c \<le> 23" "minute c \<le> 59" "second c \<le> 59" using V(1) by (simp_all add: calendar_valid_def)
  then have small: "seconds t0 < 100000000000000000"
    using civil_serial_bound [OF F(2)] unfolding abs_less_iff
    by (simp add: t0_def MG_EPOCH_SERIAL_def MG_SECONDS_PER_DAY_def MG_SECONDS_PER_HOUR_def MG_SECONDS_PER_MINUTE_def)
  have k: "timekeeping_init (Some c) boot = \<lparr>realtime_sync = t0, realtime_sync_monotonic_ms = boot, realtime_available = True\<rparr>"
    by (simp add: timekeeping_init_def Let_def c f)
  have r: "int (unat (now - boot)) mod 1000 * 1000000 < 1000000000" by simp
  have "timekeeping_realtime (timekeeping_init (Some c) boot) now = Some \<lparr>seconds = seconds t0 + int (unat (now - boot)) div 1000,
      nanoseconds = int (unat (now - boot)) mod 1000 * 1000000\<rparr>"
    using small elapsed_parts(2) [of "now - boot"] r
    unfolding k timekeeping_realtime_def Let_def timekeeping.select_convs elapsed_parts(1,3) n
    by (simp add: TIME_I64_MAX_def MG_TIME_NANOSECONDS_PER_SEC_def)
  then show ?thesis using from_to_calendar [OF V(1,2) f] s by blast
qed

text \<open>Half past twelve at night on a 12-hour clock in BCD, and a counter that wraps.\<close>

definition midnight_sample :: rtc_register_sample where
  "midnight_sample = \<lparr>r_seconds = 0x45, r_minutes = 0x30, r_hours = 0x12, r_day = 0x01, r_month = 0x01, r_year = 0x00, r_century = 0x20,
     r_status_b = 0, r_century_valid = True\<rparr>"

definition rtc_reads :: "nat \<Rightarrow> rtc_register_sample option" where
  "rtc_reads i = Some (if i = 0 then midnight_sample\<lparr>r_seconds := 0x44\<rparr> else midnight_sample)"

theorem realtime_follows_rtc_witness:
  "rtc_read_calendar rtc_reads = Some (rtc_calendar 2000 1 1 0 30 45) \<and>
    (\<exists>i s t0. rtc_reads i = Some s \<and> mangrove_time_to_calendar t0 = Inr (rtc_calendar 2000 1 1 0 30 45) \<and>
      timekeeping_realtime (timekeeping_init (Some (rtc_calendar 2000 1 1 0 30 45)) (- 500)) 1000 =
        Some \<lparr>seconds = seconds t0 + 1, nanoseconds = 500000000\<rparr>)"
proof -
  have "rtc_read_calendar rtc_reads = Some (rtc_calendar 2000 1 1 0 30 45)" by code_simp
  from realtime_follows_rtc [OF this, of "- 500" 1000] this show ?thesis by auto
qed

end
