(* ===== verification/Utf8.thy ===== *)
theory Utf8
  imports Words
begin

section \<open>UTF-8\<close>

text \<open>
  \<^verbatim>\<open>kernel/src/utf8.c\<close>, the decoder the terminal feeds byte by byte, against an encoder written from the
  definition of UTF-8. What one byte yields is the list of code points in the result's array.
\<close>

subsection \<open>The decoder\<close>

record utf8_decoder =
  ud_value :: u32
  ud_minimum :: u32
  ud_remaining :: u8

definition UTF8_DECODE_OUTPUT_MAX :: nat where "UTF8_DECODE_OUTPUT_MAX = 2"
definition UTF8_REPLACEMENT_CODEPOINT :: u32 where "UTF8_REPLACEMENT_CODEPOINT = 0xFFFD"

definition utf8_result_append :: "u32 list \<Rightarrow> u32 \<Rightarrow> u32 list" where
  "utf8_result_append result codepoint = (if length result \<ge> UTF8_DECODE_OUTPUT_MAX then result else result @ [codepoint])"

definition utf8_decoder_reset :: utf8_decoder where
  "utf8_decoder_reset = \<lparr>ud_value = 0, ud_minimum = 0, ud_remaining = 0\<rparr>"

definition utf8_start :: "utf8_decoder \<Rightarrow> u8 \<Rightarrow> utf8_decoder" where
  "utf8_start d byte =
     (if byte \<ge> 0xC2 \<and> byte \<le> 0xDF then \<lparr>ud_value = ucast (byte AND 0x1F), ud_minimum = 0x80, ud_remaining = 1\<rparr>
      else if byte \<ge> 0xE0 \<and> byte \<le> 0xEF then \<lparr>ud_value = ucast (byte AND 0x0F), ud_minimum = 0x800, ud_remaining = 2\<rparr>
      else if byte \<ge> 0xF0 \<and> byte \<le> 0xF4 then \<lparr>ud_value = ucast (byte AND 0x07), ud_minimum = 0x10000, ud_remaining = 3\<rparr>
      else d)"

definition utf8_decoder_init :: utf8_decoder where "utf8_decoder_init = utf8_decoder_reset"

definition utf8_decoder_feed :: "utf8_decoder \<Rightarrow> u8 \<Rightarrow> u32 list \<times> utf8_decoder" where
  "utf8_decoder_feed d byte =
     (if ud_remaining d \<noteq> 0 then
        (if byte AND 0xC0 \<noteq> 0x80 then
           let result = utf8_result_append [] UTF8_REPLACEMENT_CODEPOINT in
           if byte < 0x80 then (utf8_result_append result (ucast byte), utf8_decoder_reset)
           else if byte \<ge> 0xC2 \<and> byte \<le> 0xF4 then (result, utf8_start utf8_decoder_reset byte)
           else (utf8_result_append result UTF8_REPLACEMENT_CODEPOINT, utf8_decoder_reset)
         else
           let value = push_bit 6 (ud_value d) OR ucast (byte AND 0x3F); remaining = ud_remaining d - 1 in
           if remaining \<noteq> 0 then ([], d\<lparr>ud_value := value, ud_remaining := remaining\<rparr>)
           else if value < ud_minimum d \<or> value > 0x10FFFF \<or> (value \<ge> 0xD800 \<and> value \<le> 0xDFFF)
             then (utf8_result_append [] UTF8_REPLACEMENT_CODEPOINT, utf8_decoder_reset)
             else (utf8_result_append [] value, utf8_decoder_reset))
      else if byte < 0x80 then (utf8_result_append [] (ucast byte), d)
      else if byte \<ge> 0xC2 \<and> byte \<le> 0xF4 then ([], utf8_start d byte)
      else (utf8_result_append [] UTF8_REPLACEMENT_CODEPOINT, d))"

text \<open>What the terminal draws for a sequence of bytes, and the decoder it is left with (\<^verbatim>\<open>terminal_putc_locked\<close>).\<close>

fun terminal_putc_all :: "utf8_decoder \<Rightarrow> u8 list \<Rightarrow> u32 list \<times> utf8_decoder" where
  "terminal_putc_all d [] = ([], d)"
| "terminal_putc_all d (b # bs) = (case utf8_decoder_feed d b of (out, d') \<Rightarrow>
     case terminal_putc_all d' bs of (rest, d'') \<Rightarrow> (out @ rest, d''))"

subsection \<open>The encoding\<close>

text \<open>Unicode scalar values, and their encoding in one to four bytes.\<close>

definition scalar_value :: "nat \<Rightarrow> bool" where
  "scalar_value c \<longleftrightarrow> c \<le> 0x10FFFF \<and> \<not> (0xD800 \<le> c \<and> c \<le> 0xDFFF)"

definition utf8_encode :: "nat \<Rightarrow> u8 list" where
  "utf8_encode c = map of_nat
     (if c < 0x80 then [c]
      else if c < 0x800 then [0xC0 + c div 64, 0x80 + c mod 64]
      else if c < 0x10000 then [0xE0 + c div 64 div 64, 0x80 + c div 64 mod 64, 0x80 + c mod 64]
      else [0xF0 + c div 64 div 64 div 64, 0x80 + c div 64 div 64 mod 64, 0x80 + c div 64 mod 64, 0x80 + c mod 64])"

subsection \<open>One byte\<close>

lemma append_simps [simp]:
  "utf8_result_append [] c = [c]" "utf8_result_append [a] c = [a, c]"
  by (simp_all add: utf8_result_append_def UTF8_DECODE_OUTPUT_MAX_def)

lemma continuation_byte:
  assumes "k < 64"
  shows "(of_nat (0x80 + k) :: u8) AND 0xC0 = 0x80" "(ucast ((of_nat (0x80 + k) :: u8) AND 0x3F) :: u32) = of_nat k"
proof -
  have *: "list_all (\<lambda>k. (of_nat (0x80 + k) :: u8) AND 0xC0 = 0x80 \<and>
      (ucast ((of_nat (0x80 + k) :: u8) AND 0x3F) :: u32) = of_nat k) [0..<64]"
    by code_simp
  have "k \<in> set [0..<64]" using assms by simp
  with * have "(of_nat (0x80 + k) :: u8) AND 0xC0 = 0x80 \<and> (ucast ((of_nat (0x80 + k) :: u8) AND 0x3F) :: u32) = of_nat k"
    by (simp only: list_all_iff)
  then show "(of_nat (0x80 + k) :: u8) AND 0xC0 = 0x80" "(ucast ((of_nat (0x80 + k) :: u8) AND 0x3F) :: u32) = of_nat k"
    by simp_all
qed

lemma shift_in:
  assumes "k < 64"
  shows "push_bit 6 (of_nat v :: u32) OR of_nat k = of_nat (64 * v + k)"
proof -
  have "push_bit 6 v OR k = push_bit 6 (drop_bit 6 (64 * v + k)) OR take_bit 6 (64 * v + k)"
    using assms by (simp add: drop_bit_eq_div take_bit_eq_mod)
  also have "\<dots> = 64 * v + k" by (rule bit_eqI) (auto simp: bit_simps)
  finally show ?thesis by (metis of_nat_or_eq push_bit_of_nat)
qed

text \<open>The decoder in the middle of a sequence.\<close>

definition pending :: "nat \<Rightarrow> u32 \<Rightarrow> u8 \<Rightarrow> utf8_decoder" where
  "pending v m r = \<lparr>ud_value = of_nat v, ud_minimum = m, ud_remaining = r\<rparr>"

lemma feed_ascii:
  assumes "a < 128"
  shows "utf8_decoder_feed utf8_decoder_reset (of_nat a) = ([of_nat a], utf8_decoder_reset)"
proof -
  have *: "list_all (\<lambda>a. utf8_decoder_feed utf8_decoder_reset (of_nat a) = ([of_nat a], utf8_decoder_reset)) [0..<128]" by code_simp
  have "a \<in> set [0..<128]" using assms by simp
  with * show ?thesis by (simp only: list_all_iff)
qed

lemma feed_lead:
  "2 \<le> k \<Longrightarrow> k < 32 \<Longrightarrow> utf8_decoder_feed utf8_decoder_reset (of_nat (0xC0 + k)) = ([], pending k 0x80 1)"
  "k < 16 \<Longrightarrow> utf8_decoder_feed utf8_decoder_reset (of_nat (0xE0 + k)) = ([], pending k 0x800 2)"
  "k < 5 \<Longrightarrow> utf8_decoder_feed utf8_decoder_reset (of_nat (0xF0 + k)) = ([], pending k 0x10000 3)"
proof -
  have *: "list_all (\<lambda>k. utf8_decoder_feed utf8_decoder_reset (of_nat (0xC0 + k)) = ([], pending k 0x80 1)) [2..<32]"
    "list_all (\<lambda>k. utf8_decoder_feed utf8_decoder_reset (of_nat (0xE0 + k)) = ([], pending k 0x800 2)) [0..<16]"
    "list_all (\<lambda>k. utf8_decoder_feed utf8_decoder_reset (of_nat (0xF0 + k)) = ([], pending k 0x10000 3)) [0..<5]"
    by code_simp+
  show "utf8_decoder_feed utf8_decoder_reset (of_nat (0xC0 + k)) = ([], pending k 0x80 1)" if "2 \<le> k" "k < 32"
    using *(1) that unfolding list_all_iff by (metis atLeastLessThan_iff set_upt)
  show "utf8_decoder_feed utf8_decoder_reset (of_nat (0xE0 + k)) = ([], pending k 0x800 2)" if "k < 16"
    using *(2) that unfolding list_all_iff by (metis atLeastLessThan_iff set_upt le0)
  show "utf8_decoder_feed utf8_decoder_reset (of_nat (0xF0 + k)) = ([], pending k 0x10000 3)" if "k < 5"
    using *(3) that unfolding list_all_iff by (metis atLeastLessThan_iff set_upt le0)
qed

lemma feed_continue:
  assumes "k < 64" "r \<noteq> 0" "r - 1 \<noteq> 0"
  shows "utf8_decoder_feed (pending v m r) (of_nat (0x80 + k)) = ([], pending (64 * v + k) m (r - 1))"
  using assms unfolding utf8_decoder_feed_def pending_def Let_def utf8_decoder.select_convs continuation_byte [OF assms(1)] shift_in [OF assms(1)]
  by simp

lemma feed_last:
  assumes "k < 64" "64 * v + k < 2 ^ 32"
  shows "utf8_decoder_feed (pending v m 1) (of_nat (0x80 + k)) =
    ([if unat m \<le> 64 * v + k \<and> scalar_value (64 * v + k) then of_nat (64 * v + k) else UTF8_REPLACEMENT_CODEPOINT], utf8_decoder_reset)"
proof -
  let ?w = "of_nat (64 * v + k) :: u32"
  have u: "unat ?w = 64 * v + k" unfolding unat_of_nat using assms(2) by simp
  have "?w < m \<or> ?w > 0x10FFFF \<or> (?w \<ge> 0xD800 \<and> ?w \<le> 0xDFFF) \<longleftrightarrow> \<not> (unat m \<le> 64 * v + k \<and> scalar_value (64 * v + k))"
    unfolding word_less_nat_alt word_le_nat_alt u scalar_value_def by auto
  then show ?thesis
    unfolding utf8_decoder_feed_def pending_def Let_def utf8_decoder.select_convs continuation_byte [OF assms(1)] shift_in [OF assms(1)]
    by simp
qed

subsection \<open>Sequences\<close>

lemma putc_append:
  "terminal_putc_all d (xs @ ys) = (case terminal_putc_all d xs of (out, d') \<Rightarrow>
     case terminal_putc_all d' ys of (rest, d'') \<Rightarrow> (out @ rest, d''))"
  by (induction xs arbitrary: d) (simp_all split: prod.splits)

lemma decode_char:
  assumes "scalar_value c"
  shows "terminal_putc_all utf8_decoder_reset (utf8_encode c) = ([of_nat c], utf8_decoder_reset)"
proof -
  have c: "c \<le> 0x10FFFF" using assms by (simp add: scalar_value_def)
  have s: "64 * (c div 64) + c mod 64 = c" "64 * (c div 64 div 64) + c div 64 mod 64 = c div 64"
    "64 * (c div 64 div 64 div 64) + c div 64 div 64 mod 64 = c div 64 div 64" by (simp_all only: mult_div_mod_eq)
  have k: "x mod 64 < 64" for x :: nat by simp
  have w: "64 * (c div 64) + c mod 64 < 2 ^ 32" using c unfolding s(1) by simp
  have three: "utf8_decoder_feed (pending v m 3) (of_nat (0x80 + x mod 64)) = ([], pending (64 * v + x mod 64) m 2)"
    and two: "utf8_decoder_feed (pending v m 2) (of_nat (0x80 + x mod 64)) = ([], pending (64 * v + x mod 64) m 1)" for v m x
    using feed_continue [OF k, of 3] feed_continue [OF k, of 2] by simp_all
  note step = three two feed_last [OF k w] s
  consider "c < 0x80" | "0x80 \<le> c" "c < 0x800" | "0x800 \<le> c" "c < 0x10000" | "0x10000 \<le> c" by linarith
  then show ?thesis
  proof cases
    case 1
    then show ?thesis by (simp add: utf8_encode_def feed_ascii)
  next
    case 2
    then have "2 \<le> c div 64" "c div 64 < 32" by (simp_all add: div_le_mono less_mult_imp_div_less)
    note step = step feed_lead(1) [OF this]
    have e: "utf8_encode c = [of_nat (0xC0 + c div 64), of_nat (0x80 + c mod 64)]" using 2 by (simp add: utf8_encode_def)
    show ?thesis unfolding e using 2 assms by (simp add: step del: of_nat_add of_nat_mult)
  next
    case 3
    then have "c div 64 div 64 < 16" by (simp add: less_mult_imp_div_less)
    note step = step feed_lead(2) [OF this]
    have e: "utf8_encode c = [of_nat (0xE0 + c div 64 div 64), of_nat (0x80 + c div 64 mod 64), of_nat (0x80 + c mod 64)]"
      using 3 by (simp add: utf8_encode_def)
    show ?thesis unfolding e using 3 assms by (simp add: step del: of_nat_add of_nat_mult)
  next
    case 4
    then have "c div 64 div 64 div 64 < 5" using c by simp
    note step = step feed_lead(3) [OF this]
    have e: "utf8_encode c = [of_nat (0xF0 + c div 64 div 64 div 64), of_nat (0x80 + c div 64 div 64 mod 64), of_nat (0x80 + c div 64 mod 64),
        of_nat (0x80 + c mod 64)]" using 4 by (simp add: utf8_encode_def)
    show ?thesis unfolding e using 4 assms by (simp add: step del: of_nat_add of_nat_mult)
  qed
qed

lemma decode_chars:
  "list_all scalar_value cs \<Longrightarrow>
     terminal_putc_all utf8_decoder_reset (concat (map utf8_encode cs)) = (map of_nat cs, utf8_decoder_reset)"
  by (induction cs) (simp_all add: putc_append decode_char)

text \<open>A decoder that waits for nothing is the initial one, whatever it was fed.\<close>

definition decoder_ok :: "utf8_decoder \<Rightarrow> bool" where
  "decoder_ok d \<longleftrightarrow> (ud_remaining d = 0 \<longrightarrow> d = utf8_decoder_reset)"

lemma start_remaining: "b \<ge> 0xC2 \<Longrightarrow> b \<le> 0xF4 \<Longrightarrow> ud_remaining (utf8_start d b) \<noteq> 0"
  by (auto simp: utf8_start_def word_le_nat_alt not_le word_less_nat_alt)

lemma decoder_reset_ok [simp]: "decoder_ok utf8_decoder_reset"
  by (simp add: decoder_ok_def)

lemma feed_ok: "decoder_ok d \<Longrightarrow> decoder_ok (snd (utf8_decoder_feed d b))"
  by (auto simp: utf8_decoder_feed_def Let_def decoder_ok_def start_remaining)

lemma putc_ok: "decoder_ok d \<Longrightarrow> decoder_ok (snd (terminal_putc_all d bs))"
  by (induction bs arbitrary: d) (simp_all split: prod.splits, metis feed_ok snd_conv)

lemma ascii_byte:
  assumes "a < 128"
  shows "(of_nat a :: u8) < 0x80" "(of_nat a :: u8) AND 0xC0 \<noteq> 0x80" "(ucast (of_nat a :: u8) :: u32) = of_nat a"
proof -
  have *: "list_all (\<lambda>a. (of_nat a :: u8) < 0x80 \<and> (of_nat a :: u8) AND 0xC0 \<noteq> 0x80 \<and> (ucast (of_nat a :: u8) :: u32) = of_nat a) [0..<128]"
    by code_simp
  have "a \<in> set [0..<128]" using assms by simp
  from * [unfolded list_all_iff, THEN bspec, OF this] show "(of_nat a :: u8) < 0x80" "(of_nat a :: u8) AND 0xC0 \<noteq> 0x80" "(ucast (of_nat a :: u8) :: u32) = of_nat a" by simp_all
qed

lemma feed_ascii_any:
  assumes "a < 128" "decoder_ok d"
  obtains out where "utf8_decoder_feed d (of_nat a) = (out @ [of_nat a], utf8_decoder_reset)"
proof (cases "ud_remaining d = 0")
  case True
  then have "d = utf8_decoder_reset" using assms(2) by (simp add: decoder_ok_def)
  then show ?thesis using that [of "[]"] feed_ascii [OF assms(1)] by simp
next
  case False
  then show ?thesis using that [of "[UTF8_REPLACEMENT_CODEPOINT]"] ascii_byte [OF assms(1)] by (simp add: utf8_decoder_feed_def)
qed

text \<open>At most two code points a byte, all of them scalar values; a second one only for a sequence that was begun.\<close>

definition owed :: "utf8_decoder \<Rightarrow> nat" where "owed d = (if ud_remaining d = 0 then 0 else 1)"

lemma feed_output:
  shows "list_all (\<lambda>c. scalar_value (unat c)) (fst (utf8_decoder_feed d b))"
    and "length (fst (utf8_decoder_feed d b)) + owed (snd (utf8_decoder_feed d b)) \<le> 1 + owed d"
proof -
  have a: "scalar_value (unat (ucast b :: u32))" if "b < 0x80"
  proof -
    have "unat b < 128" using that by (simp add: word_less_nat_alt)
    then show ?thesis by (simp add: scalar_value_def unat_ucast_up)
  qed
  have v: "scalar_value (unat w)" if "\<not> (w < m \<or> w > 0x10FFFF \<or> (w \<ge> 0xD800 \<and> w \<le> 0xDFFF))" for w m :: u32
    using that by (auto simp: scalar_value_def word_less_nat_alt word_le_nat_alt)
  have r: "scalar_value (unat UTF8_REPLACEMENT_CODEPOINT)" by (simp add: UTF8_REPLACEMENT_CODEPOINT_def scalar_value_def)
  have z: "ud_remaining utf8_decoder_reset = 0" by (simp add: utf8_decoder_reset_def)
  show "list_all (\<lambda>c. scalar_value (unat c)) (fst (utf8_decoder_feed d b))"
    unfolding utf8_decoder_feed_def Let_def using a v [of "push_bit 6 (ud_value d) OR ucast (b AND 0x3F)" "ud_minimum d"] r by (simp del: not_less not_le)
  show "length (fst (utf8_decoder_feed d b)) + owed (snd (utf8_decoder_feed d b)) \<le> 1 + owed d"
    unfolding utf8_decoder_feed_def Let_def owed_def using z by (simp add: start_remaining)
qed

lemma putc_output:
  "list_all (\<lambda>c. scalar_value (unat c)) (fst (terminal_putc_all d bs))"
  "length (fst (terminal_putc_all d bs)) + owed (snd (terminal_putc_all d bs)) \<le> length bs + owed d"
proof (induction bs arbitrary: d)
  case (Cons b bs)
  { case 1 show ?case using feed_output(1) [of d b] Cons(1) [of "snd (utf8_decoder_feed d b)"] by (simp add: case_prod_beta) }
  { case 2 show ?case using feed_output(2) [of d b] Cons(2) [of "snd (utf8_decoder_feed d b)"] by (simp add: case_prod_beta) }
qed simp_all

subsection \<open>The decoder's contract\<close>

text \<open>C33. Text round-trips: the UTF-8 encoding of any sequence of scalar values is decoded to exactly these, leaving
  the decoder idle; and after arbitrary bytes, well formed or not, the next ASCII character is drawn and
  everything encoded after it is decoded exactly.\<close>

theorem utf8_roundtrip:
  assumes "list_all scalar_value cs" "a < 128"
  shows "terminal_putc_all utf8_decoder_init (concat (map utf8_encode cs)) = (map of_nat cs, utf8_decoder_init) \<and>
    (\<exists>out. terminal_putc_all utf8_decoder_init (bs @ of_nat a # concat (map utf8_encode cs)) = (out @ of_nat a # map of_nat cs, utf8_decoder_init))"
proof
  show "terminal_putc_all utf8_decoder_init (concat (map utf8_encode cs)) = (map of_nat cs, utf8_decoder_init)"
    using decode_chars [OF assms(1)] by (simp add: utf8_decoder_init_def)
  obtain o1 d where d: "terminal_putc_all utf8_decoder_reset bs = (o1, d)" by fastforce
  have "decoder_ok d" using putc_ok [of utf8_decoder_reset bs] by (simp add: d)
  then obtain o2 where "utf8_decoder_feed d (of_nat a) = (o2 @ [of_nat a], utf8_decoder_reset)" by (rule feed_ascii_any [OF assms(2)])
  then have "terminal_putc_all utf8_decoder_reset (bs @ of_nat a # concat (map utf8_encode cs)) = ((o1 @ o2) @ of_nat a # map of_nat cs, utf8_decoder_reset)"
    using decode_chars [OF assms(1)] by (simp add: putc_append d)
  then show "\<exists>out. terminal_putc_all utf8_decoder_init (bs @ of_nat a # concat (map utf8_encode cs)) =
      (out @ of_nat a # map of_nat cs, utf8_decoder_init)" unfolding utf8_decoder_init_def by blast
qed

theorem utf8_roundtrip_witness:
  "terminal_putc_all utf8_decoder_init (concat (map utf8_encode [0x24, 0xA2, 0x251C, 0x1F600])) =
     ([0x24, 0xA2, 0x251C, 0x1F600], utf8_decoder_init)"
proof -
  have "list_all scalar_value [0x24, 0xA2, 0x251C, 0x1F600]" by (simp add: scalar_value_def)
  from utf8_roundtrip [OF this, where a = 36 and bs = "[]"] show ?thesis by (simp add: utf8_encode_def)
qed

text \<open>C34. Whatever bytes are written, every code point drawn is a Unicode scalar value, and no more code points are
  drawn than bytes were written, although a single byte may produce two.\<close>

theorem utf8_output_bounded:
  "list_all (\<lambda>c. scalar_value (unat c)) (fst (terminal_putc_all utf8_decoder_init bs)) \<and>
    length (fst (terminal_putc_all utf8_decoder_init bs)) \<le> length bs"
proof -
  have "owed utf8_decoder_init = 0" by (simp add: owed_def utf8_decoder_init_def utf8_decoder_reset_def)
  then show ?thesis using putc_output [of utf8_decoder_init bs] by simp
qed

end
