(* ===== verification/Wire.thy ===== *)
theory Wire
  imports Words
begin

section \<open>Network byte order\<close>

text \<open>Numbers split into bytes, most significant first, and put together again, as the network code does.\<close>

lemma word16_bytes: "push_bit 8 (ucast (ucast (drop_bit 8 v) :: u8)) OR ucast (ucast v :: u8) = (v :: u16)"
  by (rule bit_word_eqI) (auto simp: bit_simps)

lemma word32_bytes:
  "push_bit 24 (ucast (ucast (drop_bit 24 v) :: u8)) OR push_bit 16 (ucast (ucast (drop_bit 16 v) :: u8)) OR
   push_bit 8 (ucast (ucast (drop_bit 8 v) :: u8)) OR ucast (ucast v :: u8) = (v :: u32)"
proof (rule bit_word_eqI)
  fix n assume "n < LENGTH(32)"
  then consider "n < 8" | "8 \<le> n" "n < 16" | "16 \<le> n" "n < 24" | "24 \<le> n" "n < 32" by fastforce
  then show "bit (push_bit 24 (ucast (ucast (drop_bit 24 v) :: u8)) OR push_bit 16 (ucast (ucast (drop_bit 16 v) :: u8)) OR
   push_bit 8 (ucast (ucast (drop_bit 8 v) :: u8)) OR ucast (ucast v :: u8) :: u32) n \<longleftrightarrow> bit v n"
    by cases (auto simp: bit_simps)
qed

lemma unat_bytes16: "256 * unat (ucast (drop_bit 8 v) :: u8) + unat (ucast v :: u8) = unat (v :: u16)"
proof -
  have v: "unat v < 65536" using unsigned_less [of v, where 'a = nat] by simp
  have "unat (drop_bit 8 v) = unat v div 256" by (simp add: drop_bit_eq_div unat_div_distrib)
  moreover have "unat v div 256 < 256" using v by (simp add: less_mult_imp_div_less)
  ultimately show ?thesis by (simp add: unat_ucast)
qed

end
