(* ===== verification/Dns.thy ===== *)
theory Dns
  imports Wire
begin

section \<open>The DNS resolver\<close>

text \<open>
  \<^verbatim>\<open>kernel/src/net/dns_wire.c\<close> and the query loop of \<^verbatim>\<open>kernel/src/net/dns.c\<close>. A packet is the list of its
  bytes; a read outside it is the value \<open>Fault\<close>, so that its absence is a theorem. Offsets are natural
  numbers: they stay below the packet's length plus \<^verbatim>\<open>0x10000\<close>. The bounded walk over a name counts its steps
  as the source does. Sending, waiting for ticks and the UDP layer are outside: what an attempt brings is an
  argument.
\<close>

subsection \<open>Reading a response\<close>

datatype 'a access = Fault | Done 'a

definition rd :: "u8 list \<Rightarrow> nat \<Rightarrow> u8 access" where
  "rd p i = (if i < length p then Done (p ! i) else Fault)"

definition dns_read16 :: "u8 list \<Rightarrow> nat \<Rightarrow> u16 access" where
  "dns_read16 p i = (case (rd p i, rd p (i + 1)) of (Done a, Done b) \<Rightarrow> Done (push_bit 8 (ucast a) OR ucast b) | _ \<Rightarrow> Fault)"

text \<open>The result is the offset after the name, or \<^const>\<open>None\<close> where the source returns false.\<close>

function dns_name_loop :: "u8 list \<Rightarrow> nat \<Rightarrow> nat \<Rightarrow> nat \<Rightarrow> bool \<Rightarrow> nat \<Rightarrow> nat option access" where
  "dns_name_loop p len position nxt jumped jumps =
     (if position \<ge> len \<or> jumps > 32 then Done None
      else case rd p position of Fault \<Rightarrow> Fault
      | Done sz \<Rightarrow>
          if sz = 0 then Done (Some (if jumped then nxt else position + 1))
          else if sz AND 0xc0 = 0xc0 then
            if position + 1 \<ge> len then Done None
            else (case rd p (position + 1) of Fault \<Rightarrow> Fault
              | Done low \<Rightarrow>
                  let pointer = unat (push_bit 8 (ucast (sz AND 0x3f)) OR ucast low :: u16) in
                  if pointer \<ge> len then Done None
                  else dns_name_loop p len pointer (if jumped then nxt else position + 2) True (jumps + 1))
          else if sz AND 0xc0 \<noteq> 0 \<or> sz > 63 \<or> position + 1 + unat sz > len then Done None
          else dns_name_loop p len (position + 1 + unat sz) nxt jumped (jumps + 1))"
  by pat_completeness auto
termination by (relation "measure (\<lambda>(p, len, position, nxt, jumped, jumps). 33 - jumps)") auto

declare dns_name_loop.simps [simp del]

definition dns_name :: "u8 list \<Rightarrow> nat \<Rightarrow> nat \<Rightarrow> nat option access" where
  "dns_name p len off = (if off \<ge> len then Done None else dns_name_loop p len off off False 0)"

definition dns_question :: "u8 list \<Rightarrow> nat \<Rightarrow> nat \<Rightarrow> nat option access" where
  "dns_question p len off = (case dns_name p len off of Fault \<Rightarrow> Fault | Done None \<Rightarrow> Done None
     | Done (Some o1) \<Rightarrow> Done (if o1 + 4 > len then None else Some (o1 + 4)))"

text \<open>The body of a resource record: the name of an alias is checked, an address is read where it is wanted. The
  result is the offset after the record, whether it holds an address, and the address.\<close>

definition dns_alias :: "u8 list \<Rightarrow> nat \<Rightarrow> nat \<Rightarrow> bool access" where
  "dns_alias p data_end data_offset = (case dns_name p data_end data_offset of Fault \<Rightarrow> Fault | Done None \<Rightarrow> Done False
     | Done (Some cname_end) \<Rightarrow> Done (cname_end \<le> data_end))"

definition dns_address :: "u8 list \<Rightarrow> nat \<Rightarrow> u8 list access" where
  "dns_address p i = (case (rd p i, rd p (i + 1), rd p (i + 2), rd p (i + 3)) of
     (Done a, Done b, Done c, Done d) \<Rightarrow> Done [a, b, c, d] | _ \<Rightarrow> Fault)"

definition dns_rr_data :: "u8 list \<Rightarrow> nat \<Rightarrow> nat \<Rightarrow> u16 \<Rightarrow> u16 \<Rightarrow> u16 \<Rightarrow> bool \<Rightarrow> (nat \<times> bool \<times> u8 list) option access" where
  "dns_rr_data p len data_offset typ class_code data_length want =
     (let data_end = data_offset + unat data_length in
      if data_end > len then Done None
      else case (if typ = 5 \<and> class_code = 1 then dns_alias p data_end data_offset else Done True) of
        Fault \<Rightarrow> Fault | Done False \<Rightarrow> Done None
      | Done True \<Rightarrow> let is_a = (typ = 1 \<and> class_code = 1 \<and> data_length = 4) in
          (case (if is_a \<and> want then dns_address p data_offset else Done []) of Fault \<Rightarrow> Fault
           | Done address \<Rightarrow> Done (Some (data_end, is_a, address))))"

definition dns_rr :: "u8 list \<Rightarrow> nat \<Rightarrow> nat \<Rightarrow> bool \<Rightarrow> (nat \<times> bool \<times> u8 list) option access" where
  "dns_rr p len off want = (case dns_name p len off of Fault \<Rightarrow> Fault | Done None \<Rightarrow> Done None
     | Done (Some o1) \<Rightarrow>
         if o1 + 10 > len then Done None
         else (case (dns_read16 p o1, dns_read16 p (o1 + 2), dns_read16 p (o1 + 8)) of
             (Done typ, Done class_code, Done data_length) \<Rightarrow> dns_rr_data p len (o1 + 10) typ class_code data_length want
           | _ \<Rightarrow> Fault))"

datatype dns_status = DNS_STATUS_SUCCESS | DNS_STATUS_TIMEOUT | DNS_STATUS_NXDOMAIN | DNS_STATUS_SERVFAIL
  | DNS_STATUS_NO_ANSWER | DNS_STATUS_INVALID | DNS_STATUS_UNCONFIGURED

primrec dns_questions :: "nat \<Rightarrow> u8 list \<Rightarrow> nat \<Rightarrow> nat \<Rightarrow> nat option access" where
  "dns_questions 0 p len off = Done (Some off)"
| "dns_questions (Suc n) p len off = (case dns_question p len off of Fault \<Rightarrow> Fault | Done None \<Rightarrow> Done None
     | Done (Some o1) \<Rightarrow> dns_questions n p len o1)"

primrec dns_answers :: "nat \<Rightarrow> u8 list \<Rightarrow> nat \<Rightarrow> nat \<Rightarrow> u32 \<Rightarrow> u8 list \<Rightarrow> (nat \<times> u32 \<times> u8 list) option access" where
  "dns_answers 0 p len off found first = Done (Some (off, found, first))"
| "dns_answers (Suc n) p len off found first = (case dns_rr p len off True of Fault \<Rightarrow> Fault | Done None \<Rightarrow> Done None
     | Done (Some (o1, is_a, candidate)) \<Rightarrow>
         if is_a then dns_answers n p len o1 (found + 1) (if found = 0 then candidate else first)
         else dns_answers n p len o1 found first)"

primrec dns_records :: "nat \<Rightarrow> u8 list \<Rightarrow> nat \<Rightarrow> nat \<Rightarrow> nat option access" where
  "dns_records 0 p len off = Done (Some off)"
| "dns_records (Suc n) p len off = (case dns_rr p len off False of Fault \<Rightarrow> Fault | Done None \<Rightarrow> Done None
     | Done (Some (o1, _)) \<Rightarrow> dns_records n p len o1)"

text \<open>The sections after the header; the result is the status, the number of addresses and the first of them.\<close>

definition dns_sections :: "u8 list \<Rightarrow> nat \<Rightarrow> u16 \<Rightarrow> u16 \<Rightarrow> u16 \<Rightarrow> u16 \<Rightarrow> (dns_status \<times> u32 \<times> u8 list) access" where
  "dns_sections p len questions answers authority additional =
     (case dns_questions (unat questions) p len 12 of Fault \<Rightarrow> Fault | Done None \<Rightarrow> Done (DNS_STATUS_INVALID, 0, [])
      | Done (Some o1) \<Rightarrow> (case dns_answers (unat answers) p len o1 0 [0, 0, 0, 0] of Fault \<Rightarrow> Fault
        | Done None \<Rightarrow> Done (DNS_STATUS_INVALID, 0, [])
        | Done (Some (o2, found, first)) \<Rightarrow> (case dns_records (unat authority) p len o2 of Fault \<Rightarrow> Fault
          | Done None \<Rightarrow> Done (DNS_STATUS_INVALID, 0, [])
          | Done (Some o3) \<Rightarrow> (case dns_records (unat additional) p len o3 of Fault \<Rightarrow> Fault
            | Done None \<Rightarrow> Done (DNS_STATUS_INVALID, 0, [])
            | Done (Some _) \<Rightarrow> Done (if found = 0 then (DNS_STATUS_NO_ANSWER, 0, []) else (DNS_STATUS_SUCCESS, found, first))))))"

definition dns_parse_response :: "u8 list \<Rightarrow> nat \<Rightarrow> u16 \<Rightarrow> (dns_status \<times> u32 \<times> u8 list) access" where
  "dns_parse_response p len query_id =
     (if len < 12 then Done (DNS_STATUS_INVALID, 0, [])
      else case (dns_read16 p 0, dns_read16 p 2, dns_read16 p 4, dns_read16 p 6, dns_read16 p 8, dns_read16 p 10) of
        (Done pid, Done flags, Done questions, Done answers, Done authority, Done additional) \<Rightarrow>
          if pid \<noteq> query_id then Done (DNS_STATUS_INVALID, 0, [])
          else if flags AND 0x8000 = 0 \<or> drop_bit 11 flags AND 0xf \<noteq> 0 then Done (DNS_STATUS_INVALID, 0, [])
          else if flags AND 0xf = 3 then Done (DNS_STATUS_NXDOMAIN, 0, [])
          else if flags AND 0xf = 2 then Done (DNS_STATUS_SERVFAIL, 0, [])
          else if flags AND 0xf \<noteq> 0 then Done (DNS_STATUS_INVALID, 0, [])
          else if questions = 0 then Done (DNS_STATUS_INVALID, 0, [])
          else dns_sections p len questions answers authority additional
      | _ \<Rightarrow> Fault)"

subsection \<open>Asking\<close>

text \<open>The host name is a C string, here without its final zero byte.\<close>

function dns_label_end :: "u8 list \<Rightarrow> nat \<Rightarrow> nat option" where
  "dns_label_end hostname i =
     (if i < length hostname \<and> hostname ! i \<noteq> 0x2e then
        if hostname ! i < 0x21 \<or> hostname ! i > 0x7e then None
        else if i + 1 > 253 then None
        else dns_label_end hostname (i + 1)
      else Some i)"
  by pat_completeness auto
termination by (relation "measure (\<lambda>(hostname, i). length hostname - i)") auto

declare dns_label_end.simps [simp del]

lemma label_end_ge: "dns_label_end h i = Some j \<Longrightarrow> i \<le> j"
proof (induction h i rule: dns_label_end.induct)
  case (1 h i)
  note this(2) [unfolded dns_label_end.simps [of h i]]
  then show ?case using 1(1) by (fastforce split: if_splits)
qed

function dns_encode_labels :: "u8 list \<Rightarrow> nat \<Rightarrow> nat \<Rightarrow> u8 list \<Rightarrow> u8 list option" where
  "dns_encode_labels hostname capacity label_start out =
     (case dns_label_end hostname label_start of None \<Rightarrow> None
      | Some i \<Rightarrow>
          let label_length = i - label_start in
          if label_length = 0 \<or> label_length > 63 \<or> length out + label_length + 2 > capacity then None
          else let out' = out @ of_nat label_length # take label_length (drop label_start hostname) in
            if i < length hostname then dns_encode_labels hostname capacity (i + 1) out' else Some out')"
  by pat_completeness auto
termination by (relation "measure (\<lambda>(hostname, capacity, label_start, out). length hostname - label_start)") (auto dest: label_end_ge)

declare dns_encode_labels.simps [simp del]

definition dns_encode_hostname :: "u8 list \<Rightarrow> nat \<Rightarrow> u8 list option" where
  "dns_encode_hostname hostname capacity =
     (if capacity = 0 then None
      else case dns_encode_labels hostname capacity 0 [] of None \<Rightarrow> None
      | Some out \<Rightarrow> if length out \<ge> capacity then None else if length out + 1 > 255 then None else Some (out @ [0]))"

definition dns_write16 :: "u16 \<Rightarrow> u8 list" where "dns_write16 v = [ucast (drop_bit 8 v), ucast v]"

definition DNS_PACKET_MAX :: nat where "DNS_PACKET_MAX = 512"
definition DNS_RETRIES :: nat where "DNS_RETRIES = 3"

definition dns_query :: "u16 \<Rightarrow> u8 list \<Rightarrow> u8 list" where
  "dns_query qid name = dns_write16 qid @ dns_write16 0x0100 @ dns_write16 1 @ dns_write16 0 @ dns_write16 0 @ dns_write16 0 @
     name @ dns_write16 1 @ dns_write16 1"

text \<open>What an attempt brings: the network device is gone, the wait runs out, or the server answers with a payload.\<close>

datatype dns_wait = Gone | Silent | Reply "u8 list"

primrec dns_attempts :: "nat \<Rightarrow> nat \<Rightarrow> (nat \<Rightarrow> u16) \<Rightarrow> (nat \<Rightarrow> dns_wait) \<Rightarrow> dns_status \<Rightarrow> (u8 list option \<times> dns_status) access" where
  "dns_attempts 0 i ids waits status = Done (None, status)"
| "dns_attempts (Suc n) i ids waits status = (case waits i of
       Gone \<Rightarrow> Done (None, DNS_STATUS_UNCONFIGURED)
     | Silent \<Rightarrow> dns_attempts n (i + 1) ids waits status
     | Reply payload \<Rightarrow> (case dns_parse_response payload (length payload) (ids i) of Fault \<Rightarrow> Fault
         | Done (st, _, address) \<Rightarrow>
             if st = DNS_STATUS_SUCCESS then Done (Some address, st)
             else if st \<in> {DNS_STATUS_NXDOMAIN, DNS_STATUS_SERVFAIL, DNS_STATUS_INVALID, DNS_STATUS_NO_ANSWER} then Done (None, st)
             else dns_attempts n (i + 1) ids waits st))"

text \<open>\<open>waits\<close> gives the outcome of each attempt from the query it sent.\<close>

definition dns_resolve_a :: "bool \<Rightarrow> u8 list \<Rightarrow> (nat \<Rightarrow> u16) \<Rightarrow> (u8 list \<Rightarrow> nat \<Rightarrow> dns_wait) \<Rightarrow> (u8 list option \<times> dns_status) access" where
  "dns_resolve_a configured hostname ids waits =
     (if \<not> configured then Done (None, DNS_STATUS_UNCONFIGURED)
      else case dns_encode_hostname hostname (DNS_PACKET_MAX - 12) of None \<Rightarrow> Done (None, DNS_STATUS_INVALID)
      | Some name \<Rightarrow> dns_attempts DNS_RETRIES 0 ids (\<lambda>i. waits (dns_query (ids i) name) i) DNS_STATUS_UNCONFIGURED)"

subsection \<open>No read leaves the packet\<close>

lemma rd_in [simp]: "i < length p \<Longrightarrow> rd p i = Done (p ! i)"
  by (simp add: rd_def)

lemma read16_in: "i + 1 < length p \<Longrightarrow> dns_read16 p i = Done (push_bit 8 (ucast (p ! i)) OR ucast (p ! (i + 1)))"
  by (simp add: dns_read16_def)

lemma name_loop_safe:
  assumes "len \<le> length p"
  shows "dns_name_loop p len position nxt jumped jumps \<noteq> Fault"
  using assms
proof (induction p len position nxt jumped jumps rule: dns_name_loop.induct)
  case (1 p len position nxt jumped jumps)
  show ?case
    by (subst dns_name_loop.simps) (use 1 in \<open>auto simp: Let_def split: access.splits\<close>)
qed

lemma name_safe: "len \<le> length p \<Longrightarrow> dns_name p len off \<noteq> Fault"
  by (simp add: dns_name_def name_loop_safe)

lemma question_safe: "len \<le> length p \<Longrightarrow> dns_question p len off \<noteq> Fault"
  using name_safe [of len p off] by (auto simp: dns_question_def split: access.splits option.splits)

lemma rr_data_safe:
  assumes "len \<le> length p"
  shows "dns_rr_data p len o1 typ cls dl want \<noteq> Fault"
    and "dns_rr_data p len o1 typ cls dl True = Done (Some (e, True, a)) \<Longrightarrow> length a = 4"
proof -
  have n: "dns_name p (o1 + unat dl) o1 \<noteq> Fault" if "o1 + unat dl \<le> len" using name_safe that assms by simp
  then have al: "dns_alias p (o1 + unat dl) o1 \<noteq> Fault" if "o1 + unat dl \<le> len"
    using that by (auto simp: dns_alias_def split: access.splits option.splits)
  have addr: "dns_address p o1 = Done [p ! o1, p ! (o1 + 1), p ! (o1 + 2), p ! (o1 + 3)]" if "o1 + 4 \<le> len"
    using that assms by (simp add: dns_address_def)
  have four: "unat dl = 4" if "dl = 4" using that by simp
  show "dns_rr_data p len o1 typ cls dl want \<noteq> Fault"
  proof (cases "o1 + unat dl \<le> len")
    case True
    then show ?thesis using al [OF True] addr four by (auto simp: dns_rr_data_def Let_def split: access.splits bool.splits if_splits)
  qed (simp add: dns_rr_data_def)
  show "length a = 4" if "dns_rr_data p len o1 typ cls dl True = Done (Some (e, True, a))"
    using that addr four by (auto simp: dns_rr_data_def Let_def split: access.splits bool.splits if_splits)
qed

lemma rr_safe:
  assumes "len \<le> length p"
  shows "dns_rr p len off want \<noteq> Fault"
    and "dns_rr p len off True = Done (Some (e, True, a)) \<Longrightarrow> length a = 4"
proof -
  have r: "\<exists>v. dns_read16 p i = Done v" if "i + 1 < len" for i using that assms read16_in [of i p] by simp
  have "dns_rr p len off want \<noteq> Fault" if n: "dns_name p len off = Done (Some o1)" for o1
  proof (cases "o1 + 10 > len")
    case False
    then obtain a b c where "dns_read16 p o1 = Done a" "dns_read16 p (o1 + 2) = Done b" "dns_read16 p (o1 + 8) = Done c"
      using r [of o1] r [of "o1 + 2"] r [of "o1 + 8"] by auto
    then show ?thesis using rr_data_safe(1) [OF assms] by (simp add: dns_rr_def n)
  qed (simp add: dns_rr_def n)
  then show "dns_rr p len off want \<noteq> Fault"
    using name_safe [OF assms, of off] by (cases "dns_name p len off") (auto simp: dns_rr_def split: option.splits)
  show "length a = 4" if "dns_rr p len off True = Done (Some (e, True, a))"
    using that rr_data_safe(2) [OF assms] by (auto simp: dns_rr_def split: access.splits option.splits if_splits)
qed

lemma questions_safe: "len \<le> length p \<Longrightarrow> dns_questions n p len off \<noteq> Fault"
  by (induction n arbitrary: off) (auto simp: question_safe split: access.splits option.splits)

lemma records_safe: "len \<le> length p \<Longrightarrow> dns_records n p len off \<noteq> Fault"
  by (induction n arbitrary: off) (auto simp: rr_safe(1) split: access.splits option.splits)

lemma answers_step:
  assumes "len \<le> length p"
  obtains "dns_answers (Suc n) p len off found first = Done None"
  | o1 where "dns_answers (Suc n) p len off found first = dns_answers n p len o1 found first"
  | o1 c where "length c = 4"
      "dns_answers (Suc n) p len off found first = dns_answers n p len o1 (found + 1) (if found = 0 then c else first)"
proof (cases "dns_rr p len off True")
  case (Done v)
  show thesis
  proof (cases v)
    case (Some x)
    obtain o1 b c where x: "x = (o1, b, c)" by (cases x)
    show thesis
    proof (cases b)
      case True
      then have "length c = 4" using rr_safe(2) [OF assms, of off o1 c] Done Some x by simp
      then show thesis using that(3) Done Some x True by simp
    qed (use that(2) Done Some x in simp)
  qed (use that(1) Done in simp)
qed (use rr_safe(1) [OF assms] in blast)

lemma answers_safe:
  assumes "len \<le> length p" "length first = 4" "unat found + n < 2 ^ 32"
  shows "dns_answers n p len off found first = Done None \<or>
    (\<exists>o2 found' first'. dns_answers n p len off found first = Done (Some (o2, found', first')) \<and> length first' = 4)"
  using assms(2,3)
proof (induction n arbitrary: off found first)
  case (Suc n)
  have u: "unat (found + 1) + n < 2 ^ 32" using Suc.prems(2) by (simp add: unat_word_ariths)
  show ?case
  proof (rule answers_step [OF assms(1), of n off found first])
    assume "dns_answers (Suc n) p len off found first = Done None"
    then show ?thesis by blast
  next
    fix o1 assume e: "dns_answers (Suc n) p len off found first = dns_answers n p len o1 found first"
    show ?thesis unfolding e using Suc.IH [of first found o1] Suc.prems by simp
  next
    fix o1 c assume c: "length c = 4"
      and e: "dns_answers (Suc n) p len off found first = dns_answers n p len o1 (found + 1) (if found = 0 then c else first)"
    show ?thesis unfolding e using Suc.IH [of "if found = 0 then c else first" "found + 1" o1] Suc.prems(1) c u by simp
  qed
qed simp_all

text \<open>What a parse may return.\<close>

definition response_ok :: "dns_status \<times> u32 \<times> u8 list \<Rightarrow> bool" where
  "response_ok r \<longleftrightarrow> (case r of (st, n, a) \<Rightarrow> (st = DNS_STATUS_SUCCESS \<longleftrightarrow> n \<noteq> 0) \<and> (st = DNS_STATUS_SUCCESS \<longleftrightarrow> length a = 4) \<and>
     st \<noteq> DNS_STATUS_TIMEOUT \<and> st \<noteq> DNS_STATUS_UNCONFIGURED)"

lemma sections_safe:
  assumes "len \<le> length p"
  shows "\<exists>r. dns_sections p len q an au ad = Done r \<and> response_ok r"
proof -
  have "unat an < 65536" using unsigned_less [of an, where 'a = nat] by simp
  then have an: "dns_answers (unat an) p len off 0 [0, 0, 0, 0] = Done None \<or>
      (\<exists>o2 f' a'. dns_answers (unat an) p len off 0 [0, 0, 0, 0] = Done (Some (o2, f', a')) \<and> length a' = 4)" for off
    using answers_safe [OF assms, of "[0, 0, 0, 0]" 0 "unat an" off] by simp
  show ?thesis
  proof (cases "dns_questions (unat q) p len 12")
    case (Done v)
    show ?thesis
    proof (cases v)
      case (Some o1)
      from an [of o1] show ?thesis
      proof (elim disjE exE conjE)
        fix o2 f' a' assume "dns_answers (unat an) p len o1 0 [0, 0, 0, 0] = Done (Some (o2, f', a'))" "length a' = 4"
        then show ?thesis
          using Done Some records_safe [OF assms, of "unat au" o2] records_safe [OF assms, of "unat ad"]
          by (auto simp: dns_sections_def response_ok_def split: access.splits option.splits)
      qed (use Done Some in \<open>simp add: dns_sections_def response_ok_def\<close>)
    qed (use Done in \<open>simp add: dns_sections_def response_ok_def\<close>)
  qed (use questions_safe [OF assms] in blast)
qed

lemma parse_safe: "\<exists>r. dns_parse_response p (length p) qid = Done r \<and> response_ok r"
proof (cases "length p < 12")
  case False
  then have r: "\<exists>v. dns_read16 p i = Done v" if "i \<le> 10" for i using read16_in [of i p] that by simp
  obtain a b c d e f where "dns_read16 p 0 = Done a" "dns_read16 p 2 = Done b" "dns_read16 p 4 = Done c" "dns_read16 p 6 = Done d"
      "dns_read16 p 8 = Done e" "dns_read16 p 10 = Done f"
    using r [of 0] r [of 2] r [of 4] r [of 6] r [of 8] r [of 10] by auto
  then show ?thesis using False sections_safe [of "length p" p c d e f] by (simp add: dns_parse_response_def response_ok_def)
qed (simp add: dns_parse_response_def response_ok_def)

subsection \<open>Names on the wire\<close>

text \<open>A host name is its labels joined by dots; on the wire each label follows its length.\<close>

fun dotted :: "u8 list list \<Rightarrow> u8 list" where
  "dotted [] = []"
| "dotted [l] = l"
| "dotted (l # ls) = l @ 0x2e # dotted ls"

definition wire_labels :: "u8 list list \<Rightarrow> u8 list" where "wire_labels ls = concat (map (\<lambda>l. of_nat (length l) # l) ls)"

definition label_ok :: "u8 list \<Rightarrow> bool" where
  "label_ok l \<longleftrightarrow> l \<noteq> [] \<and> length l \<le> 63 \<and> list_all (\<lambda>b. 0x21 \<le> b \<and> b \<le> 0x7e \<and> b \<noteq> 0x2e) l"

definition hostname_ok :: "u8 list list \<Rightarrow> bool" where
  "hostname_ok ls \<longleftrightarrow> ls \<noteq> [] \<and> list_all label_ok ls \<and> length (dotted ls) \<le> 253"

lemma wire_simps [simp]: "wire_labels [] = []" "wire_labels (l # ls) = of_nat (length l) # l @ wire_labels ls"
  by (simp_all add: wire_labels_def)

lemma wire_length: "ls \<noteq> [] \<Longrightarrow> length (wire_labels ls) = length (dotted ls) + 1"
  by (induction ls rule: dotted.induct) simp_all

lemma label_end_scan:
  assumes "list_all (\<lambda>b. 0x21 \<le> b \<and> b \<le> 0x7e \<and> b \<noteq> 0x2e) l" "length pre + length l \<le> 253" "rest = [] \<or> hd rest = 0x2e"
  shows "dns_label_end (pre @ l @ rest) (length pre) = Some (length pre + length l)"
  using assms(1,2)
proof (induction l arbitrary: pre)
  case Nil
  then show ?case using assms(3) by (cases rest; subst dns_label_end.simps) (auto simp: nth_append)
next
  case (Cons b l)
  have "dns_label_end ((pre @ [b]) @ l @ rest) (length (pre @ [b])) = Some (length (pre @ [b]) + length l)"
    using Cons.prems by (intro Cons.IH) simp_all
  then show ?case using Cons.prems by (subst dns_label_end.simps) (simp add: not_less [symmetric])
qed

lemma encode_labels_eq:
  assumes "ls \<noteq> []" "list_all label_ok ls" "length pre + length (dotted ls) \<le> 253" "length out + length (wire_labels ls) + 1 \<le> cap"
  shows "dns_encode_labels (pre @ dotted ls) cap (length pre) out = Some (out @ wire_labels ls)"
  using assms
proof (induction ls arbitrary: pre out rule: dotted.induct)
  case (2 l)
  have l: "l \<noteq> []" "length l \<le> 63" "dns_label_end (pre @ l) (length pre) = Some (length pre + length l)"
    using 2 label_end_scan [of l pre "[]"] by (auto simp: label_ok_def)
  then show ?case using 2 by (subst dns_encode_labels.simps) (simp add: Let_def)
next
  case (3 l m ls)
  let ?rest = "dotted (m # ls)"
  have l: "l \<noteq> []" "length l \<le> 63" "dns_label_end (pre @ l @ 0x2e # ?rest) (length pre) = Some (length pre + length l)"
    using 3 label_end_scan [of l pre "0x2e # ?rest"] by (auto simp: label_ok_def)
  have "dns_encode_labels ((pre @ l @ [0x2e]) @ ?rest) cap (length (pre @ l @ [0x2e])) (out @ of_nat (length l) # l) =
      Some ((out @ of_nat (length l) # l) @ wire_labels (m # ls))"
    using 3(2-) by (intro 3(1)) simp_all
  then show ?case using l 3(5) by (subst dns_encode_labels.simps) (simp add: Let_def)
qed simp

lemma encode_hostname_eq:
  assumes "hostname_ok ls" "length (dotted ls) + 2 \<le> cap"
  shows "dns_encode_hostname (dotted ls) cap = Some (wire_labels ls @ [0])"
  using assms encode_labels_eq [of ls "[]" "[]" cap] wire_length [of ls]
  by (simp add: dns_encode_hostname_def hostname_ok_def)

lemma length_byte:
  assumes "0 < n" "n \<le> 63"
  shows "(of_nat n :: u8) \<noteq> 0" "(of_nat n :: u8) AND 0xc0 = 0" "\<not> (of_nat n :: u8) > 63" "unat (of_nat n :: u8) = n"
proof -
  have *: "list_all (\<lambda>n. (of_nat n :: u8) \<noteq> 0 \<and> (of_nat n :: u8) AND 0xc0 = 0 \<and> \<not> (of_nat n :: u8) > 63) [1..<64]" by code_simp
  have "n \<in> set [1..<64]" using assms by simp
  from * [unfolded list_all_iff, THEN bspec, OF this]
  show "(of_nat n :: u8) \<noteq> 0" "(of_nat n :: u8) AND 0xc0 = 0" "\<not> (of_nat n :: u8) > 63" by blast+
  show "unat (of_nat n :: u8) = n" unfolding unat_of_nat using assms(2) by simp
qed

lemma walk_label:
  assumes "p = pre @ of_nat (length l) # l @ rest" "label_ok l" "length p \<le> len" "len \<le> length p" "jumps \<le> 32"
  shows "dns_name_loop p len (length pre) nxt jumped jumps = dns_name_loop p len (length pre + 1 + length l) nxt jumped (jumps + 1)"
proof -
  have l: "0 < length l" "length l \<le> 63" using assms(2) by (auto simp: label_ok_def)
  note b = length_byte [OF l]
  have "rd p (length pre) = Done (of_nat (length l))" using assms(1) by (simp add: rd_def)
  then show ?thesis using assms b by (subst dns_name_loop.simps) simp
qed

lemma walk_name:
  assumes "p = pre @ wire_labels ls @ 0 # post" "list_all label_ok ls" "jumps \<le> 33"
  shows "dns_name_loop p (length p) (length pre) nxt jumped jumps =
    Done (if jumps + length ls \<le> 32 then Some (if jumped then nxt else length pre + length (wire_labels ls) + 1) else None)"
  using assms
proof (induction ls arbitrary: pre jumps)
  case Nil
  then show ?case by (subst dns_name_loop.simps) (simp add: rd_def)
next
  case (Cons l ls)
  show ?case
  proof (cases "jumps \<le> 32")
    case True
    have "dns_name_loop p (length p) (length pre) nxt jumped jumps =
        dns_name_loop p (length p) (length pre + 1 + length l) nxt jumped (jumps + 1)"
      using Cons.prems True by (intro walk_label [of _ _ l "wire_labels ls @ 0 # post"]) simp_all
    also have "\<dots> = Done (if jumps + 1 + length ls \<le> 32
        then Some (if jumped then nxt else length (pre @ of_nat (length l) # l) + length (wire_labels ls) + 1) else None)"
      using Cons.IH [of "pre @ of_nat (length l) # l" "jumps + 1"] Cons.prems True by simp
    finally show ?thesis by simp
  qed (use Cons.prems in \<open>subst dns_name_loop.simps, simp\<close>)
qed

subsection \<open>A question and its answer\<close>

text \<open>What a name server sends back for an address: the question with the answer bit set, and one record whose
  name is a pointer to the question's.\<close>

definition dns_record :: "u8 list \<Rightarrow> u8 list \<Rightarrow> u8 list" where
  "dns_record ttl addr = [0xC0, 0x0C] @ dns_write16 1 @ dns_write16 1 @ ttl @ dns_write16 4 @ addr"

definition dns_answer :: "u8 list \<Rightarrow> u8 list \<Rightarrow> u8 list \<Rightarrow> u8 list" where
  "dns_answer query ttl addr = take 2 query @ dns_write16 0x8180 @ dns_write16 1 @ dns_write16 1 @ dns_write16 0 @ dns_write16 0 @
     drop 12 query @ dns_record ttl addr"

lemma rd_append: "rd (pre @ t) (length pre + k) = rd t k"
  by (simp add: rd_def)

lemma read16_append: "dns_read16 (pre @ t) (length pre + k) = dns_read16 t k"
  using rd_append [of pre t k] rd_append [of pre t "k + 1"] by (simp add: dns_read16_def)

lemma read16_written: "dns_read16 (dns_write16 v @ t) 0 = Done v"
  by (simp add: dns_read16_def rd_def dns_write16_def word16_bytes)

lemma length_write16 [simp]: "length (dns_write16 v) = 2"
  by (simp add: dns_write16_def)

lemma list4:
  assumes "length xs = 4"
  obtains a b c d where "xs = [a, b, c, d]"
  using assms by (auto simp: length_Suc_conv numeral_eq_Suc)

lemma record_fields:
  assumes "length ttl = 4" "length addr = 4"
  shows "rd (pre @ dns_record ttl addr) (length pre) = Done 0xC0" "rd (pre @ dns_record ttl addr) (length pre + 1) = Done 0x0C"
    "dns_read16 (pre @ dns_record ttl addr) (length pre + 2) = Done 1" "dns_read16 (pre @ dns_record ttl addr) (length pre + 4) = Done 1"
    "dns_read16 (pre @ dns_record ttl addr) (length pre + 10) = Done 4" "dns_address (pre @ dns_record ttl addr) (length pre + 12) = Done addr"
proof -
  obtain a b c d where t: "ttl = [a, b, c, d]" by (rule list4 [OF assms(1)])
  obtain a' b' c' d' where ad: "addr = [a', b', c', d']" by (rule list4 [OF assms(2)])
  note at = rd_append [of pre "dns_record ttl addr"] read16_append [of pre "dns_record ttl addr"]
  show "rd (pre @ dns_record ttl addr) (length pre) = Done 0xC0" "rd (pre @ dns_record ttl addr) (length pre + 1) = Done 0x0C"
    using at(1) [of 0] at(1) [of 1] by (simp_all add: dns_record_def rd_def)
  show "dns_read16 (pre @ dns_record ttl addr) (length pre + 2) = Done 1" "dns_read16 (pre @ dns_record ttl addr) (length pre + 4) = Done 1"
    "dns_read16 (pre @ dns_record ttl addr) (length pre + 10) = Done 4"
    unfolding at by (simp_all add: dns_record_def dns_write16_def dns_read16_def rd_def t)
  show "dns_address (pre @ dns_record ttl addr) (length pre + 12) = Done addr"
    unfolding dns_address_def add.assoc at by (simp add: dns_record_def dns_write16_def rd_def t ad)
qed

lemma rr_pointer:
  assumes "p = hdr @ wire_labels ls @ 0 # mid @ dns_record ttl addr" "length hdr = 12" "list_all label_ok ls"
    "length ttl = 4" "length addr = 4"
  shows "dns_rr p (length p) (13 + length (wire_labels ls) + length mid) True =
    Done (if length ls \<le> 31 then Some (length p, True, addr) else None)"
proof -
  define pre where "pre = hdr @ wire_labels ls @ 0 # mid"
  have p: "p = pre @ dns_record ttl addr" using assms(1) by (simp add: pre_def)
  have n: "13 + length (wire_labels ls) + length mid = length pre" using assms(2) by (simp add: pre_def)
  have len: "length p = length pre + 16" using p assms(4,5) by (simp add: dns_record_def)
  note F = record_fields [OF assms(4,5), of pre, folded p]
  have "dns_name_loop p (length p) 12 (length pre + 2) True 1 = Done (if length ls \<le> 31 then Some (length pre + 2) else None)"
    using walk_name [OF assms(1) assms(3), of 1 "length pre + 2" True] assms(2) by auto
  then have name: "dns_name p (length p) (length pre) = Done (if length ls \<le> 31 then Some (length pre + 2) else None)"
    using F(1,2) len unfolding dns_name_def by (subst dns_name_loop.simps) simp
  have e: "length pre + 2 + 2 = length pre + 4" "length pre + 2 + 8 = length pre + 10" "length pre + 2 + 10 = length pre + 12" by simp_all
  have data: "dns_rr_data p (length p) (length pre + 12) 1 1 4 True = Done (Some (length p, True, addr))"
    using F(6) len by (simp add: dns_rr_data_def)
  have le: "(length pre + 12 > length p) = False" using len by simp
  show ?thesis unfolding n dns_rr_def name
    by (cases "length ls \<le> 31") (simp_all only: if_True if_False access.case option.case prod.case e le F data)
qed

lemma parse_answer:
  fixes qid :: u16
  assumes "list_all label_ok ls" "length ttl = 4" "length addr = 4"
  defines "p \<equiv> dns_answer (dns_query qid (wire_labels ls @ [0])) ttl addr"
  shows "dns_parse_response p (length p) qid =
    Done (if length ls \<le> 31 then (DNS_STATUS_SUCCESS, 1, addr) else (DNS_STATUS_INVALID, 0, []))"
proof -
  define hdr where "hdr = dns_write16 qid @ dns_write16 0x8180 @ dns_write16 1 @ dns_write16 1 @ dns_write16 0 @ dns_write16 0"
  define mid where "mid = dns_write16 1 @ dns_write16 1"
  have p: "p = hdr @ wire_labels ls @ 0 # mid @ dns_record ttl addr"
    by (simp add: p_def dns_answer_def dns_query_def hdr_def mid_def dns_write16_def)
  have l: "length hdr = 12" "length mid = 4" by (simp_all add: hdr_def mid_def)
  have h: "dns_read16 p 0 = Done qid" "dns_read16 p 2 = Done 0x8180" "dns_read16 p 4 = Done 1" "dns_read16 p 6 = Done 1"
      "dns_read16 p 8 = Done 0" "dns_read16 p 10 = Done 0"
    by (simp_all add: p hdr_def dns_write16_def dns_read16_def rd_def word16_bytes)
  have len: "length p = length (wire_labels ls) + 33" using l assms(2,3) by (simp add: p dns_record_def)
  have "dns_name_loop p (length p) 12 12 False 0 = Done (if length ls \<le> 32 then Some (13 + length (wire_labels ls)) else None)"
    using walk_name [OF p assms(1), of 0 12 False] l(1) by auto
  then have q: "dns_question p (length p) 12 = Done (if length ls \<le> 32 then Some (13 + length (wire_labels ls) + length mid) else None)"
    using len l(2) by (simp add: dns_question_def dns_name_def)
  note r = rr_pointer [OF p l(1) assms(1-3)]
  have "dns_sections p (length p) 1 1 0 0 =
      Done (if length ls \<le> 31 then (DNS_STATUS_SUCCESS, 1, addr) else (DNS_STATUS_INVALID, 0, []))"
    unfolding dns_sections_def using q r by simp
  then show ?thesis unfolding dns_parse_response_def h using len by simp
qed

subsection \<open>The resolver's contract\<close>

text \<open>C35. Whatever bytes a server sends, parsing them returns, reads no byte outside the packet, and reports success
  exactly with at least one address of four bytes.\<close>

theorem dns_parse_in_bounds:
  "\<exists>status count address. dns_parse_response packet (length packet) query_id = Done (status, count, address) \<and>
    (status = DNS_STATUS_SUCCESS \<longleftrightarrow> count \<noteq> 0) \<and> (status = DNS_STATUS_SUCCESS \<longleftrightarrow> length address = 4)"
  using parse_safe [of packet query_id] by (auto simp: response_ok_def)

lemma attempts_answer:
  assumes "list_all label_ok ls" "length ttl = 4" "length addr = 4" "i + n = 3" "i \<le> k" "k < 3"
  shows "dns_attempts n i ids (\<lambda>j. if j < k then Silent else Reply (dns_answer (dns_query (ids j) (wire_labels ls @ [0])) ttl addr)) st =
    Done (if length ls \<le> 31 then (Some addr, DNS_STATUS_SUCCESS) else (None, DNS_STATUS_INVALID))"
  using assms(4,5)
proof (induction n arbitrary: i)
  case (Suc n)
  then show ?case
    using parse_answer [OF assms(1-3), of "ids i"] Suc.IH [of "i + 1"] by (cases "i < k") auto
qed (use assms(6) in simp)

text \<open>C36. A name with at most 31 labels resolves: if the server echoes the query it was sent with the answer bit and
  an address record, on any of the three attempts, the resolver returns that address.\<close>

theorem dns_resolves:
  assumes "hostname_ok ls" "length ls \<le> 31" "length ttl = 4" "length addr = 4" "k < 3"
  shows "dns_resolve_a True (dotted ls) ids (\<lambda>query j. if j < k then Silent else Reply (dns_answer query ttl addr)) =
    Done (Some addr, DNS_STATUS_SUCCESS)"
proof -
  have "dns_encode_hostname (dotted ls) (DNS_PACKET_MAX - 12) = Some (wire_labels ls @ [0])"
    using assms(1) by (intro encode_hostname_eq) (simp_all add: hostname_ok_def DNS_PACKET_MAX_def)
  then show ?thesis
    using attempts_answer [OF _ assms(3,4), of ls 0 3 k ids] assms by (simp add: dns_resolve_a_def DNS_RETRIES_def hostname_ok_def)
qed

theorem dns_resolves_witness:
  "dns_resolve_a True (map of_nat [97, 46, 98, 99]) (\<lambda>i. 7) (\<lambda>query j. if j < 1 then Silent else Reply (dns_answer query [0, 0, 0, 60] [10, 0, 2, 15])) =
    Done (Some [10, 0, 2, 15], DNS_STATUS_SUCCESS)"
proof -
  have "hostname_ok [[97], [98, 99]]" by (simp add: hostname_ok_def label_ok_def)
  from dns_resolves [OF this, of "[0, 0, 0, 60]" "[10, 0, 2, 15]" 1 "\<lambda>i. 7"] show ?thesis by simp
qed



lemma attempts_no_timeout:
  "st \<noteq> DNS_STATUS_TIMEOUT \<Longrightarrow> dns_attempts n i ids waits st \<noteq> Done (a, DNS_STATUS_TIMEOUT)"
proof (induction n arbitrary: i st)
  case (Suc n)
  show ?case
  proof (cases "waits i")
    case (Reply q)
    obtain s c d where "dns_parse_response q (length q) (ids i) = Done (s, c, d)" "response_ok (s, c, d)"
      using parse_safe [of q "ids i"] by (metis prod_cases3)
    then show ?thesis using Suc Reply by (auto simp: response_ok_def)
  qed (use Suc in simp_all)
qed simp

text \<open>C38. A server that never answers is not reported as a timeout: no run of the resolver ends with that status, and
  when all attempts run out it reports the initial value, that the network is not configured.\<close>

theorem dns_timeout_unreported:
  assumes "hostname_ok ls"
  shows "dns_resolve_a True (dotted ls) ids (\<lambda>query j. Silent) = Done (None, DNS_STATUS_UNCONFIGURED) \<and>
    dns_resolve_a configured hostname ids waits \<noteq> Done (address, DNS_STATUS_TIMEOUT)"
proof
  have "dns_encode_hostname (dotted ls) (DNS_PACKET_MAX - 12) = Some (wire_labels ls @ [0])"
    using assms by (intro encode_hostname_eq) (simp_all add: hostname_ok_def DNS_PACKET_MAX_def)
  then show "dns_resolve_a True (dotted ls) ids (\<lambda>query j. Silent) = Done (None, DNS_STATUS_UNCONFIGURED)"
    by (simp add: dns_resolve_a_def DNS_RETRIES_def numeral_eq_Suc)
  show "dns_resolve_a configured hostname ids waits \<noteq> Done (address, DNS_STATUS_TIMEOUT)"
    using attempts_no_timeout [of DNS_STATUS_UNCONFIGURED] by (simp add: dns_resolve_a_def split: option.splits)
qed

theorem dns_timeout_unreported_witness:
  "dns_resolve_a True [97] (\<lambda>i. 7) (\<lambda>query j. Silent) = Done (None, DNS_STATUS_UNCONFIGURED)"
proof -
  have "hostname_ok [[97]]" by (simp add: hostname_ok_def label_ok_def)
  from dns_timeout_unreported [OF this] show ?thesis by simp
qed

end
