(* ===== verification/Net_Checksum.thy ===== *)
theory Net_Checksum
  imports Wire
begin

section \<open>The internet checksum\<close>

text \<open>
  \<^verbatim>\<open>kernel/src/net/checksum.c\<close> and the checksum of a TCP segment of \<^verbatim>\<open>kernel/src/net/tcp_wire.c\<close>, against the
  one's complement sum that the internet protocols define. Data is the list of its bytes; the sum is a
  32-bit word.
\<close>

subsection \<open>The code\<close>

definition fold_carry :: "u32 \<Rightarrow> u32" where "fold_carry s = (s AND 0xFFFF) + drop_bit 16 s"

fun checksum_words :: "u32 \<Rightarrow> u8 list \<Rightarrow> u32" where
  "checksum_words s (a # b # bytes) = checksum_words (fold_carry (s + (push_bit 8 (ucast a) OR ucast b))) bytes"
| "checksum_words s [a] = s + push_bit 8 (ucast a)"
| "checksum_words s [] = s"

lemma unat_drop16: "unat (drop_bit 16 s :: u32) = unat s div 65536"
  by (simp add: drop_bit_eq_div unat_div_distrib)

lemma unat_fold_carry: "unat (fold_carry s) = unat s mod 65536 + unat s div 65536"
proof -
  have s: "unat s < 2 ^ 32" using unsigned_less [of s, where 'a = nat] by simp
  have "s AND 0xFFFF = take_bit 16 s" by (simp add: take_bit_eq_mask mask_eq_exp_minus_1)
  then have a: "unat (s AND 0xFFFF) = unat s mod 65536" by (simp add: take_bit_eq_mod unat_mod_distrib)
  have "unat s div 65536 < 65536" using s by (simp add: less_mult_imp_div_less)
  then show ?thesis unfolding fold_carry_def unat_word_ariths a unat_drop16 by simp
qed

lemma fold_carry_less:
  assumes "drop_bit 16 s \<noteq> 0"
  shows "unat (fold_carry s) < unat s"
proof -
  have "unat s div 65536 \<noteq> 0"
  proof
    assume "unat s div 65536 = 0"
    then have "unat (drop_bit 16 s) = 0" unfolding unat_drop16 .
    then have "drop_bit 16 s = 0" by (simp only: unat_eq_0)
    then show False using assms by simp
  qed
  moreover have "unat s = 65536 * (unat s div 65536) + unat s mod 65536" by simp
  ultimately show ?thesis unfolding unat_fold_carry by linarith
qed

function checksum_fold :: "u32 \<Rightarrow> u32" where
  "checksum_fold s = (if drop_bit 16 s \<noteq> 0 then checksum_fold (fold_carry s) else s)"
  by pat_completeness auto
termination by (relation "measure unat") (simp_all add: fold_carry_less)

declare checksum_fold.simps [simp del]

definition net_checksum :: "u8 list \<Rightarrow> u16" where
  "net_checksum bytes = ucast (NOT (checksum_fold (checksum_words 0 bytes)))"

definition net_checksum_valid :: "u8 list \<Rightarrow> bool" where "net_checksum_valid bytes \<longleftrightarrow> net_checksum bytes = 0"

subsection \<open>One's complement sums\<close>

text \<open>The data as 16-bit numbers in network order, the last byte padded; and their one's complement sum, in which
  a carry out of the top is added at the bottom.\<close>

fun word_sum :: "u8 list \<Rightarrow> nat" where
  "word_sum (a # b # bytes) = 256 * unat a + unat b + word_sum bytes"
| "word_sum [a] = 256 * unat a"
| "word_sum [] = 0"

definition ones_sum :: "nat \<Rightarrow> nat" where "ones_sum n = (if n = 0 then 0 else (n - 1) mod 65535 + 1)"

lemma ones_sum_unique:
  assumes "r < 65536" "r mod 65535 = n mod 65535" "r = 0 \<longleftrightarrow> n = 0"
  shows "r = ones_sum n"
proof (cases n)
  case (Suc k)
  then obtain j where j: "r = Suc j" "j < 65535" using assms(1,3) by (cases r) auto
  have "Suc j mod 65535 = Suc k mod 65535" using assms(2) j Suc by simp
  then have "j = k mod 65535" using j(2) unfolding mod_Suc by (simp split: if_splits)
  then show ?thesis using j Suc by (simp add: ones_sum_def)
qed (use assms in \<open>simp add: ones_sum_def\<close>)

lemma ones_sum_props: "ones_sum n < 65536" "ones_sum n mod 65535 = n mod 65535" "ones_sum n = 0 \<longleftrightarrow> n = 0"
proof -
  show "ones_sum n mod 65535 = n mod 65535"
  proof (cases n)
    case (Suc k)
    have "Suc (k mod 65535) mod 65535 = Suc k mod 65535" by (rule mod_Suc_eq)
    then show ?thesis using Suc by (simp add: ones_sum_def)
  qed (simp add: ones_sum_def)
  show "ones_sum n < 65536" using mod_less_divisor [of 65535 "n - 1"] by (simp add: ones_sum_def)
qed (simp add: ones_sum_def)

lemma ones_sum_cong: "a mod 65535 = b mod 65535 \<Longrightarrow> (a = 0 \<longleftrightarrow> b = 0) \<Longrightarrow> ones_sum a = ones_sum b"
  by (rule ones_sum_unique) (use ones_sum_props [of a] in simp_all)

lemma fold_carry_mod: "unat (fold_carry s) mod 65535 = unat s mod 65535" "unat (fold_carry s) = 0 \<longleftrightarrow> unat s = 0"
proof -
  define q m where "q = unat s div 65536" and "m = unat s mod 65536"
  have s: "unat s = m + q + 65535 * q" unfolding q_def m_def using mult_div_mod_eq [of 65536 "unat s"] by linarith
  have f: "unat (fold_carry s) = m + q" by (simp add: unat_fold_carry q_def m_def)
  show "unat (fold_carry s) mod 65535 = unat s mod 65535" unfolding s f mod_mult_self2 ..
  show "unat (fold_carry s) = 0 \<longleftrightarrow> unat s = 0" unfolding s f by auto
qed

lemma checksum_fold_eq: "unat (checksum_fold s) = ones_sum (unat s)"
proof (induction s rule: checksum_fold.induct)
  case (1 s)
  show ?case
  proof (cases "drop_bit 16 s = 0")
    case True
    then have "unat (drop_bit 16 s) = 0" by simp
    then have "unat s < 65536" unfolding unat_drop16 by (simp add: div_eq_0_iff)
    then show ?thesis using True by (subst checksum_fold.simps) (simp add: ones_sum_unique [symmetric])
  next
    case False
    have "ones_sum (unat (fold_carry s)) = ones_sum (unat s)"
      using ones_sum_cong [OF fold_carry_mod] .
    then show ?thesis using 1 False by (subst checksum_fold.simps) simp
  qed
qed

lemma unat_word16: "unat (push_bit 8 (ucast (a :: u8)) OR ucast (b :: u8) :: u32) = 256 * unat a + unat b"
proof -
  have b: "unat b < 256" using unsigned_less [of b, where 'a = nat] by simp
  have a: "unat a < 256" using unsigned_less [of a, where 'a = nat] by simp
  have "push_bit 8 (unat a) OR unat b = push_bit 8 (drop_bit 8 (256 * unat a + unat b)) OR take_bit 8 (256 * unat a + unat b)"
    using b by (simp add: drop_bit_eq_div take_bit_eq_mod)
  also have "\<dots> = 256 * unat a + unat b" by (rule bit_eqI) (auto simp: bit_simps)
  finally have e: "push_bit 8 (unat a) OR unat b = 256 * unat a + unat b" .
  have u: "unat (ucast a :: u32) = unat a" "unat (ucast b :: u32) = unat b" by (rule unat_ucast_up; simp)+
  have "take_bit 32 (push_bit 8 (unat a)) = push_bit 8 (unat a)" using a by (simp add: take_bit_nat_eq_self push_bit_eq_mult)
  then show ?thesis by (simp add: unsigned_or_eq unsigned_push_bit_eq u e)
qed

lemma fold_carry_small: "unat s \<le> 131070 \<Longrightarrow> unat (fold_carry s) < 65536"
  using mult_div_mod_eq [of 65536 "unat s"] mod_less_divisor [of 65536 "unat s"] unfolding unat_fold_carry by linarith

lemma unat_add_small: "unat s + unat w < 2 ^ 32 \<Longrightarrow> unat (s + w :: u32) = unat s + unat w"
  by (simp add: unat_word_ariths)

lemma checksum_words_eq:
  assumes "unat s < 65536"
  shows "unat (checksum_words s bytes) mod 65535 = (unat s + word_sum bytes) mod 65535 \<and>
    (unat (checksum_words s bytes) = 0 \<longleftrightarrow> unat s + word_sum bytes = 0)"
  using assms
proof (induction s bytes rule: checksum_words.induct)
  case (1 s a b bytes)
  let ?w = "push_bit 8 (ucast a) OR ucast b :: u32"
  have "unat a < 256" "unat b < 256" using unsigned_less [of a, where 'a = nat] unsigned_less [of b, where 'a = nat] by simp_all
  then have w: "unat ?w \<le> 65535" by (simp add: unat_word16)
  then have sw: "unat (s + ?w) = unat s + unat ?w" using 1(2) by (intro unat_add_small) simp
  then have "unat (fold_carry (s + ?w)) < 65536" using w 1(2) by (intro fold_carry_small) simp
  note IH = 1(1) [OF this]
  have "(unat (fold_carry (s + ?w)) + word_sum bytes) mod 65535 = (unat (s + ?w) + word_sum bytes) mod 65535"
    by (rule mod_add_cong [OF fold_carry_mod(1) refl])
  then show ?case using IH fold_carry_mod(2) [of "s + ?w"] by (simp add: sw unat_word16 add.assoc)
next
  case (2 s a)
  have a: "unat (push_bit 8 (ucast a) :: u32) = 256 * unat a" using unat_word16 [of a 0] by simp
  have "unat a < 256" using unsigned_less [of a, where 'a = nat] by simp
  then have "unat (s + push_bit 8 (ucast a)) = unat s + 256 * unat a" using 2 a by (subst unat_add_small) simp_all
  then show ?case by simp
qed simp

lemma unat_NOT32: "unat (NOT s :: u32) = 2 ^ 32 - 1 - unat s"
proof -
  have s: "unat s < 2 ^ 32" using unsigned_less [of s, where 'a = nat] by simp
  have m: "unat (- 1 :: u32) = 2 ^ 32 - 1" using unat_NOT_zero [where 'a = 32] by simp
  have "NOT s = - 1 - s" by (simp add: not_eq_complement)
  then have "unat (NOT s) = unat (- 1 - s)" by simp
  also have "\<dots> = unat (- 1 :: u32) - unat s" unfolding unat_sub_if' m using s by simp
  finally show ?thesis unfolding m .
qed

lemma net_checksum_eq: "unat (net_checksum bytes) = 65535 - ones_sum (word_sum bytes)"
proof -
  let ?s = "checksum_fold (checksum_words 0 bytes)"
  have "ones_sum (unat (checksum_words 0 bytes)) = ones_sum (word_sum bytes)"
    using checksum_words_eq [of 0 bytes] by (intro ones_sum_cong) simp_all
  then have s: "unat ?s = ones_sum (word_sum bytes)" by (simp add: checksum_fold_eq)
  have n: "unat (NOT ?s) = 2 ^ 32 - 1 - unat ?s" by (rule unat_NOT32)
  have "(2 ^ 32 - 1 - r) mod 65536 = 65535 - r" if "r < 65536" for r :: nat
  proof -
    have "2 ^ 32 - 1 - r = (65535 - r) + 65536 * 65535" using that by simp
    then show ?thesis by (simp only: mod_mult_self2) simp
  qed
  then show ?thesis unfolding net_checksum_def unat_ucast n s using ones_sum_props(1) [of "word_sum bytes"] by simp
qed

lemma word_sum_append: "even (length xs) \<Longrightarrow> word_sum (xs @ ys) = word_sum xs + word_sum ys"
  by (induction xs rule: word_sum.induct) simp_all

lemma checksum_valid_iff: "net_checksum_valid bytes \<longleftrightarrow> ones_sum (word_sum bytes) = 65535"
proof -
  have "net_checksum bytes = 0 \<longleftrightarrow> unat (net_checksum bytes) = 0" by (simp only: unat_eq_0)
  then show ?thesis unfolding net_checksum_valid_def net_checksum_eq using ones_sum_props(1) [of "word_sum bytes"] by auto
qed

lemma complement_completes:
  assumes "n' = n + (65535 - ones_sum n)"
  shows "ones_sum n' = 65535"
proof -
  have "(n + (65535 - ones_sum n)) mod 65535 = (ones_sum n + (65535 - ones_sum n)) mod 65535"
    by (rule mod_add_cong [OF ones_sum_props(2) [symmetric] refl])
  also have "\<dots> = 0" using ones_sum_props(1) [of n] by simp
  finally have "n' mod 65535 = 65535 mod 65535" using assms by simp
  moreover have "n' \<noteq> 0" using assms by (auto simp: ones_sum_def)
  ultimately show ?thesis using ones_sum_unique [of 65535 n'] by simp
qed

subsection \<open>TCP segments\<close>

definition TCP_PROTOCOL :: u8 where "TCP_PROTOCOL = 6"
definition TCP_HEADER_MIN_SIZE :: nat where "TCP_HEADER_MIN_SIZE = 20"
definition TCP_MSS :: nat where "TCP_MSS = 1460"
definition TCP_RX_CAPACITY :: u16 where "TCP_RX_CAPACITY = 4096"
definition ETHERNET_PAYLOAD_MAX :: nat where "ETHERNET_PAYLOAD_MAX = 1500"

definition tcp_read16 :: "u8 list \<Rightarrow> nat \<Rightarrow> u16" where
  "tcp_read16 p i = push_bit 8 (ucast (p ! i)) OR ucast (p ! (i + 1))"

definition tcp_read32 :: "u8 list \<Rightarrow> nat \<Rightarrow> u32" where
  "tcp_read32 p i = push_bit 24 (ucast (p ! i)) OR push_bit 16 (ucast (p ! (i + 1))) OR push_bit 8 (ucast (p ! (i + 2))) OR ucast (p ! (i + 3))"

definition tcp_write16 :: "u16 \<Rightarrow> u8 list" where "tcp_write16 v = [ucast (drop_bit 8 v), ucast v]"

definition tcp_write32 :: "u32 \<Rightarrow> u8 list" where
  "tcp_write32 v = [ucast (drop_bit 24 v), ucast (drop_bit 16 v), ucast (drop_bit 8 v), ucast v]"

definition pseudo_header :: "u8 list \<Rightarrow> u8 list \<Rightarrow> nat \<Rightarrow> u8 list" where
  "pseudo_header source destination len = source @ destination @ [0, TCP_PROTOCOL, of_nat (len div 256), of_nat len]"

definition tcp_checksum :: "u8 list \<Rightarrow> u8 list \<Rightarrow> u8 list \<Rightarrow> u16" where
  "tcp_checksum source destination segment =
     (if length segment < TCP_HEADER_MIN_SIZE \<or> length segment > ETHERNET_PAYLOAD_MAX then 0
      else net_checksum ((pseudo_header source destination (length segment) @ segment)[12 + 16 := 0, 12 + 17 := 0]))"

record tcp_segment =
  source_port :: u16
  destination_port :: u16
  ts_sequence :: u32
  ts_acknowledgment :: u32
  ts_flags :: u8
  ts_window :: u16
  ts_payload :: "u8 list"

definition tcp_parse_segment :: "u8 list \<Rightarrow> tcp_segment option" where
  "tcp_parse_segment packet =
     (if length packet < TCP_HEADER_MIN_SIZE then None
      else let header_length = unat (drop_bit 4 (packet ! 12)) * 4 in
        if header_length < TCP_HEADER_MIN_SIZE \<or> header_length > length packet then None
        else Some \<lparr>source_port = tcp_read16 packet 0, destination_port = tcp_read16 packet 2, ts_sequence = tcp_read32 packet 4,
          ts_acknowledgment = tcp_read32 packet 8, ts_flags = packet ! 13, ts_window = tcp_read16 packet 14,
          ts_payload = drop header_length packet\<rparr>)"

text \<open>The packet a connection sends, for a device that is present, and the checks with which a receiver begins.\<close>

definition tcp_send_raw :: "u8 list \<Rightarrow> u8 list \<Rightarrow> u16 \<Rightarrow> u16 \<Rightarrow> u32 \<Rightarrow> u32 \<Rightarrow> u8 \<Rightarrow> u8 list \<Rightarrow> u8 list option" where
  "tcp_send_raw local remote local_port remote_port sequence acknowledgment flags payload =
     (if length payload > TCP_MSS then None
      else let packet = tcp_write16 local_port @ tcp_write16 remote_port @ tcp_write32 sequence @ tcp_write32 acknowledgment @
          [push_bit 4 5, flags] @ tcp_write16 TCP_RX_CAPACITY @ [0, 0, 0, 0] @ payload;
        checksum = tcp_checksum local remote packet
      in Some (packet[16 := ucast (drop_bit 8 checksum), 17 := ucast checksum]))"

definition tcp_receive_checks :: "u8 list \<Rightarrow> u8 list \<Rightarrow> u8 list \<Rightarrow> tcp_segment option" where
  "tcp_receive_checks source destination packet =
     (if length packet < TCP_HEADER_MIN_SIZE then None
      else case tcp_parse_segment packet of None \<Rightarrow> None
        | Some segment \<Rightarrow> if tcp_checksum source destination packet \<noteq> tcp_read16 packet 16 then None else Some segment)"

lemma update_field:
  "length xs = n \<Longrightarrow> (xs @ a # b # ys)[n := u, Suc n := v] = xs @ u # v # ys"
  by (simp add: list_update_append)

lemma tcp_checksum_field:
  assumes "length source = 4" "length destination = 4" "length xs = 16" "18 + length ys \<le> 1500" "2 \<le> length ys"
  shows "tcp_checksum source destination (xs @ a # b # ys) =
    net_checksum ((pseudo_header source destination (18 + length ys) @ xs) @ 0 # 0 # ys)"
proof -
  let ?h = "pseudo_header source destination (18 + length ys) @ xs"
  have "length ?h = 28" using assms by (simp add: pseudo_header_def)
  then have "(?h @ a # b # ys)[28 := 0, 29 := 0] = ?h @ 0 # 0 # ys" using update_field [of ?h 28] by simp
  then show ?thesis using assms by (simp add: tcp_checksum_def TCP_HEADER_MIN_SIZE_def ETHERNET_PAYLOAD_MAX_def)
qed

lemma word_sum_stored: "word_sum (ucast (drop_bit 8 (v :: u16)) # ucast v # ys) = unat v + word_sum ys"
  using unat_bytes16 [of v] by simp

subsection \<open>Checksums and segments on the wire\<close>

text \<open>C39. The checksum is the one's complement of the one's complement sum of the data's 16-bit words, whatever the
  length; and data whose checksum field, at an even offset, was zero when the checksum was taken is valid
  once the checksum is stored there.\<close>

theorem net_checksum_correct:
  assumes "even (length xs)"
  shows "unat (net_checksum bytes) = 65535 - ones_sum (word_sum bytes) \<and>
    net_checksum_valid (xs @ tcp_write16 (net_checksum (xs @ 0 # 0 # ys)) @ ys)"
proof
  show "unat (net_checksum bytes) = 65535 - ones_sum (word_sum bytes)" by (rule net_checksum_eq)
  show "net_checksum_valid (xs @ tcp_write16 (net_checksum (xs @ 0 # 0 # ys)) @ ys)"
    unfolding checksum_valid_iff
    by (rule complement_completes [of _ "word_sum (xs @ 0 # 0 # ys)"])
      (simp add: word_sum_append [OF assms] tcp_write16_def word_sum_stored net_checksum_eq del: word_sum.simps(1), simp)
qed

theorem net_checksum_correct_witness:
  "net_checksum_valid ([0x45, 0x00] @ tcp_write16 (net_checksum ([0x45, 0x00] @ 0 # 0 # [0xff])) @ [0xff])"
  using net_checksum_correct [of "[0x45, 0x00]" "[]" "[0xff]"] by simp

lemma segment_fields:
  assumes "packet = tcp_write16 lp @ tcp_write16 rp @ tcp_write32 sq @ tcp_write32 ak @ [0x50, fl] @ tcp_write16 w @ a # b # 0 # 0 # payload"
  shows "tcp_parse_segment packet = Some \<lparr>source_port = lp, destination_port = rp, ts_sequence = sq, ts_acknowledgment = ak,
      ts_flags = fl, ts_window = w, ts_payload = payload\<rparr>"
    and "tcp_read16 packet 16 = push_bit 8 (ucast a) OR ucast b"
proof -
  have "unat (drop_bit 4 (0x50 :: u8)) = 5" by code_simp
  then show "tcp_parse_segment packet = Some \<lparr>source_port = lp, destination_port = rp, ts_sequence = sq, ts_acknowledgment = ak,
      ts_flags = fl, ts_window = w, ts_payload = payload\<rparr>"
    by (simp add: assms tcp_write16_def tcp_write32_def tcp_parse_segment_def TCP_HEADER_MIN_SIZE_def tcp_read16_def tcp_read32_def
      word16_bytes word32_bytes)
  show "tcp_read16 packet 16 = push_bit 8 (ucast a) OR ucast b"
    by (simp add: assms tcp_write16_def tcp_write32_def tcp_read16_def)
qed

text \<open>C40. What a connection sends is what the peer gets: every segment with at most a full payload is built, passes
  the receiver's header and checksum checks with the same ports, numbers, flags and payload, and together
  with its pseudo header is valid by the internet checksum, so any other implementation accepts it too.\<close>

theorem tcp_segment_roundtrip:
  assumes "length payload \<le> TCP_MSS" "length local = 4" "length remote = 4"
  shows "\<exists>packet. tcp_send_raw local remote lp rp sq ak fl payload = Some packet \<and>
    tcp_receive_checks local remote packet = Some \<lparr>source_port = lp, destination_port = rp, ts_sequence = sq, ts_acknowledgment = ak,
      ts_flags = fl, ts_window = TCP_RX_CAPACITY, ts_payload = payload\<rparr> \<and>
    net_checksum_valid (pseudo_header local remote (length packet) @ packet)"
proof -
  define xs where "xs = tcp_write16 lp @ tcp_write16 rp @ tcp_write32 sq @ tcp_write32 ak @ [0x50, fl] @ tcp_write16 TCP_RX_CAPACITY"
  define h where "h = pseudo_header local remote (20 + length payload) @ xs"
  define c where "c = net_checksum (h @ 0 # 0 # 0 # 0 # payload)"
  define packet where "packet = xs @ ucast (drop_bit 8 c) # ucast c # 0 # 0 # payload"
  have l: "length xs = 16" "length h = 28" using assms by (simp_all add: xs_def h_def tcp_write16_def tcp_write32_def pseudo_header_def)
  have p: "length payload \<le> 1460" using assms(1) by (simp add: TCP_MSS_def)
  have sum: "tcp_checksum local remote (xs @ a # b # 0 # 0 # payload) = c" for a b
    using tcp_checksum_field [OF assms(2,3) l(1), of "0 # 0 # payload" a b] p by (simp add: c_def h_def)
  have send: "tcp_send_raw local remote lp rp sq ak fl payload = Some packet"
  proof -
    let ?p = "tcp_write16 lp @ tcp_write16 rp @ tcp_write32 sq @ tcp_write32 ak @ [push_bit 4 5, fl] @ tcp_write16 TCP_RX_CAPACITY @ [0, 0, 0, 0] @ payload"
    have e: "?p = xs @ 0 # 0 # 0 # 0 # payload" by (simp add: xs_def)
    have u: "(xs @ 0 # 0 # 0 # 0 # payload)[16 := ucast (drop_bit 8 c), 17 := ucast c] = packet"
      using update_field [OF l(1)] by (simp add: packet_def)
    show ?thesis unfolding tcp_send_raw_def Let_def e sum u using assms(1) by simp
  qed
  have lp: "length packet = 20 + length payload" using l(1) by (simp add: packet_def)
  note F = segment_fields [OF packet_def [unfolded xs_def append_assoc]]
  have "tcp_checksum local remote packet = c" unfolding packet_def by (rule sum)
  then have recv: "tcp_receive_checks local remote packet = Some \<lparr>source_port = lp, destination_port = rp, ts_sequence = sq,
      ts_acknowledgment = ak, ts_flags = fl, ts_window = TCP_RX_CAPACITY, ts_payload = payload\<rparr>"
    using lp F by (simp add: tcp_receive_checks_def TCP_HEADER_MIN_SIZE_def word16_bytes)
  have "word_sum (h @ ucast (drop_bit 8 c) # ucast c # 0 # 0 # payload) = word_sum (h @ 0 # 0 # 0 # 0 # payload) + unat c"
    using l(2) unat_bytes16 [of c] by (simp add: word_sum_append)
  then have "net_checksum_valid (h @ ucast (drop_bit 8 c) # ucast c # 0 # 0 # payload)"
    unfolding checksum_valid_iff by (intro complement_completes) (simp add: c_def net_checksum_eq)
  then have "net_checksum_valid (pseudo_header local remote (length packet) @ packet)" unfolding lp by (simp add: packet_def h_def)
  then show ?thesis using send recv by blast
qed

theorem tcp_segment_roundtrip_witness:
  "\<exists>packet. tcp_send_raw [10, 0, 2, 15] [10, 0, 2, 2] 40000 80 1 2 0x18 [71, 69, 84] = Some packet \<and>
    net_checksum_valid (pseudo_header [10, 0, 2, 15] [10, 0, 2, 2] (length packet) @ packet)"
  using tcp_segment_roundtrip [of "[71, 69, 84]" "[10, 0, 2, 15]" "[10, 0, 2, 2]" 40000 80 1 2 "0x18"] by (auto simp: TCP_MSS_def)

end
