(* ===== verification/Spec2Isabelle.thy ===== *)
theory Spec2Isabelle
  imports Prelude Objects Identity Handles Ipc_Queue Machine_Theorems Ipc_Race Pmm Heap Mutex_Theorems Calendar Utf8 Dns Net_Checksum
begin

section \<open>A verification development of the mangrove kernel\<close>

text \<open>
  Mangrove is an operating system for x86-64 machines with several CPUs. The kernel under
  \<^verbatim>\<open>src/kernel\<close> owns physical memory (\<^verbatim>\<open>pmm.c\<close>), a heap (\<^verbatim>\<open>heap.c\<close>), threads and a preemptive priority
  scheduler (\<^verbatim>\<open>scheduler.c\<close>, \<^verbatim>\<open>context_switch.s\<close>, \<^verbatim>\<open>cpu.c\<close>), sleeping locks (\<^verbatim>\<open>mutex.c\<close>), objects named by
  process handles (\<^verbatim>\<open>object.c\<close>, \<^verbatim>\<open>process.c\<close>), an identity policy (\<^verbatim>\<open>identity.c\<close>, \<^verbatim>\<open>service.c\<close>), synchronous
  message passing between processes (\<^verbatim>\<open>ipc.c\<close>) and a clock (\<^verbatim>\<open>timekeeping.c\<close>, \<^verbatim>\<open>rtc.c\<close>, and
  \<^verbatim>\<open>libc/src/time_convert.c\<close>), a terminal that decodes UTF-8 (\<^verbatim>\<open>utf8.c\<close>) and a network stack with a DNS
  resolver (\<^verbatim>\<open>net/dns_wire.c\<close>, \<^verbatim>\<open>net/dns.c\<close>) and TCP (\<^verbatim>\<open>net/checksum.c\<close>, \<^verbatim>\<open>net/tcp_wire.c\<close>). IPC wakes and
  blocks threads through the scheduler, hands out request contexts as process handles and decides by
  identity and service who may register or receive; mutexes block and wake through the scheduler; the heap
  grows by frames of the frame allocator.
  This development models those parts and proves what each promises to the others.

  \<^bold>\<open>How the code is modelled.\<close> A C function is a HOL function on the state it reads and writes, with the
  source's name; a struct is a record, an enumeration a datatype, a pointer \<^typ>\<open>nat option\<close> into a store
  of records, a fixed-width integer a word of that width, or a natural number where the code's own checks
  keep it small. Early returns and error codes are values (\<^typ>\<open>bool\<close>, options, or \<open>mg_status\<close> in a
  sum). Everything the code does under one lock is one transition; calls that give the lock up in between
  are split there, so that other CPUs interleave exactly where they can in the code. Loops over links are
  bounded by a count the state holds, or are partial functions into options, where \<^const>\<open>None\<close> means the
  loop never ends; that the operations do return is proved.
  Memory returned by an allocator that is not the subject, port reads and firmware tables are arguments.

  \<^bold>\<open>The theories.\<close>

  \<^item> \<open>Prelude\<close> has the machine types, the status codes of \<^verbatim>\<open>libc/include/mangrove_errors.h\<close>, generic lemmas,
    and reachability with the locale \<open>inductive_invariant\<close>, which gives invariants of all runs;
    \<open>Words\<close> has conversions between words and numbers; \<open>Chains\<close> the lists threaded through link
    fields that the scheduler and the mutexes use, as paths along the links.
  \<^item> \<open>Threads\<close>, \<open>Scheduler\<close> model the thread control block, the ready queues, the sleep list, the per-CPU
    records and every operation of \<^verbatim>\<open>scheduler.c\<close>; \<open>Scheduler_Inv\<close>, \<open>Scheduler_Wake\<close> and \<open>Scheduler_Switch\<close>
    prove its invariant for each operation. \<open>Scheduler_Machine\<close> adds, for each CPU, how far the assembly of
    \<^verbatim>\<open>context_switch.s\<close> has come, as an event system; \<open>Machine_Steps\<close>, \<open>Machine_Run\<close> and \<open>Machine_Boot\<close> prove
    the machine's invariant from the boot sequence on (\<^verbatim>\<open>cpu.c\<close>, \<^verbatim>\<open>init.c\<close>). \<open>Machine_Theorems\<close> concludes: no
    two CPUs ever use one stack, a released thread's stack is not in use, a tick wakes exactly the due
    sleepers, blocking and waking are never refused, selection is first-come first-served by priority; and
    a CPU marked online too early makes every wakeup fail.
  \<^item> \<open>Objects\<close>, \<open>Handles\<close> model reference counts and the handle tables: stale handles are rejected, counts are
    exact, rights are those granted, exit releases everything.
  \<^item> \<open>Identity\<close>, \<open>Services\<close> model credentials, the account registry and the service table: which privileges a
    credential holds, and that the effective credential holds the same.
  \<^item> \<open>Ipc_Queue\<close> models the ring of deliveries of an endpoint and proves it a bounded queue. \<open>Ipc\<close> models every
    operation of \<^verbatim>\<open>ipc.c\<close> on the scheduler's and the processes' states; \<open>Ipc_Inv\<close>, \<open>Ipc_Steps\<close> and \<open>Ipc_Runs\<close>
    prove its invariant over all interleavings; \<open>Ipc_Theorems\<close> concludes with the bookkeeping of requests,
    the round trip of a request and its reply, what an exit ends, that a reply wakes the client, and that
    deadlines saturate. \<open>Ipc_Race\<close> runs a race in the receive path to its end.
  \<^item> \<open>Pmm\<close> models the frame allocator on a byte store that also holds its bitmap; frames are handed out once,
    outside everything reserved, cleared. \<open>Heap\<close> models the heap on a store of block headers; allocations
    are disjoint and survive whatever owners write, the operations return, free space coalesces.
  \<^item> \<open>Mutex\<close>, \<open>Mutex_Theorems\<close> model the sleeping locks over the scheduler's threads: mutual exclusion over all
    interleavings, and ownership handed to the longest waiter.
  \<^item> \<open>Calendar\<close> models the calendar arithmetic, the decoding of the CMOS clock and the realtime clock:
    conversions are inverse over all 32-bit years and the clock advances with the monotonic counter.

  \<^item> \<open>Utf8\<close> models the terminal's decoder: encoded text comes back exactly, also after broken input, and every
    output is a scalar value.
  \<^item> \<open>Wire\<close> has numbers in network byte order. \<open>Dns\<close> models the parser with every read checked against the
    packet, the encoder and the attempts of a resolution: no packet makes it read outside, an answered
    question resolves, names of 32 labels never do, a timeout is misreported. \<open>Net_Checksum\<close> models the
    internet checksum and the segments TCP sends: the loop computes the one's complement sum, and what is
    sent passes the receiver's checks unchanged.

  \<^bold>\<open>Bounds.\<close> The scheduler's walks over a ready queue are bounded by the queue's own count, which the
  invariant keeps equal to the number of its members, and those over the sleep list and for aging by the
  number of threads, which no list without repetition exceeds; so the bounds never cut a walk short. The
  walks over heap blocks and wait chains and the heap's growth loop are partial functions, and kmalloc,
  kfree and the unlock of a mutex are proved to return; for kmalloc whatever the
  frame allocator delivers. The limits of the tables (CPUs, endpoints, requests, queue depth, handle slots)
  are the source's constants. The walk over a DNS name counts its 33 steps as the source does. Stale handles are rejected for 65534 further installations, which is what 16
  bits of generation allow. The stack theorem is about runs in which no thread becomes current while its
  own switch is pending, which the code does not check after publication of the outgoing frame.

  \<^bold>\<open>Not modelled.\<close> Page tables (\<^verbatim>\<open>vmm.c\<close>) and what builds on them (process creation, system call entry,
  program loading): their meaning lies in the processor's translation and its caches. Device drivers (USB,
  AHCI, network cards, PCI, frame buffer, keyboard, interrupt controllers, timers), ACPI and the AML
  interpreter: their effects are on hardware and firmware that is not in the sources. The file systems and
  the network protocol engines, which run on those drivers. The drawing of the terminal, the boot loader, the user programs and
  the host tools, which are input and output. Spinlocks appear as the atomicity of the transitions they
  protect.
\<close>

end
